(* ===== verification/Prelude.thy ===== *)
theory Prelude
  imports Main "HOL-Library.Word" "HOL-Library.List_Lexorder" "HOL-Library.Sublist"
    "HOL-Library.Monad_Syntax"
begin

text \<open>
  The vocabulary the component theories share.

  \<^item> bytes are \<^typ>\<open>8 word\<close>, byte strings are lists of bytes, ordered by the lexicographic order
    of \<^verbatim>\<open>HOL-Library.List_Lexorder\<close>, which is the order Rust gives to \<^verbatim>\<open>[u8]\<close>;
  \<^item> \<open>le_encode\<close>, \<open>be_encode\<close> and their inverses are \<^verbatim>\<open>to_le_bytes\<close>, \<^verbatim>\<open>to_be_bytes\<close>,
    \<^verbatim>\<open>from_le_bytes\<close> and \<^verbatim>\<open>from_be_bytes\<close> at a width given in bytes;
  \<^item> \<open>bt_insert\<close>, \<open>bt_remove\<close> and \<open>bt_filter\<close> are the operations of \<^verbatim>\<open>std::collections::BTreeMap\<close> on
    its in-order list of entries, with \<open>bt_wf\<close> (strictly ascending keys) as the invariant;
  \<^item> a computation that can panic returns an \<open>option\<close> (None is the panic), one that returns a
    \<^verbatim>\<open>Result\<close> returns a sum (\<open>Inl\<close> is the error).
\<close>

type_synonym byte = "8 word"
type_synonym bytes = "byte list"

named_theorems codec_simps \<open>rewriting encoders and decoders\<close>
named_theorems btree_simps \<open>rewriting ordered-map operations\<close>
named_theorems inv_intros \<open>preservation of the component invariants\<close>

section \<open>Slices\<close>

text \<open>\<^verbatim>\<open>bytes[i..j]\<close> for in-range indices, and \<^verbatim>\<open>starts_with\<close>.\<close>

definition slice :: "'a list \<Rightarrow> nat \<Rightarrow> nat \<Rightarrow> 'a list" where
  "slice bs i j = take (j - i) (drop i bs)"

definition starts_with :: "'a list \<Rightarrow> 'a list \<Rightarrow> bool" where
  "starts_with bs p = (take (length p) bs = p)"

lemma length_slice [simp]: "length (slice bs i j) = min (j - i) (length bs - i)"
  by (auto simp: slice_def)

lemma slice_append1 [simp]: "j \<le> length xs \<Longrightarrow> slice (xs @ ys) i j = slice xs i j"
  by (auto simp: slice_def)

lemma slice_append2 [simp]:
  "length xs \<le> i \<Longrightarrow> slice (xs @ ys) i j = slice ys (i - length xs) (j - length xs)"
  by (auto simp: slice_def)

lemma slice_all [simp]: "length xs \<le> j \<Longrightarrow> slice xs 0 j = xs"
  by (simp add: slice_def)

lemma starts_with_prefix: "starts_with bs p = prefix p bs"
  unfolding starts_with_def prefix_def by (metis append_eq_conv_conj)

lemma starts_with_append [simp]: "starts_with (p @ x) p"
  by (simp add: starts_with_def)

lemma starts_with_refl [simp]: "starts_with p p"
  by (simp add: starts_with_def)

section \<open>Lexicographic order of byte strings\<close>

lemma lex_append_left [simp]: "((xs::'a::linorder list) @ ys < xs @ zs) = (ys < zs)"
  by (induction xs) auto

lemma lex_append_left_le [simp]: "((xs::'a::linorder list) @ ys \<le> xs @ zs) = (ys \<le> zs)"
  by (induction xs) auto

lemma lex_append_same_length:
  "length (xs::'a::linorder list) = length ys \<Longrightarrow>
   (xs @ us < ys @ vs) = (xs < ys \<or> xs = ys \<and> us < vs)"
  by (induction xs ys rule: list_induct2) auto

lemma lex_le_append [simp]: "(xs::'a::linorder list) \<le> xs @ ys"
  by (induction xs) auto

lemma lex_less_append [simp]: "((xs::'a::linorder list) < xs @ ys) = (ys \<noteq> [])"
proof (induction xs)
  case Nil
  then show ?case by (cases ys) auto
qed auto

lemma prefix_lex_le: "prefix p xs \<Longrightarrow> (p::'a::linorder list) \<le> xs"
  by (auto simp: prefix_def)

text \<open>Two strings of which neither is a prefix of the other are ordered at their first difference,
  whatever follows them.\<close>

lemma lex_prefix_free:
  "\<not> prefix xs ys \<Longrightarrow> \<not> prefix ys xs \<Longrightarrow> ((xs::'a::linorder list) @ us < ys @ vs) = (xs < ys)"
proof (induction xs arbitrary: ys)
  case Nil
  then show ?case by simp
next
  case (Cons x xs)
  then show ?case by (cases ys) auto
qed

lemma lex_take_less:
  "(xs::'a::linorder list) < ys \<Longrightarrow> take n xs \<le> take n ys"
proof (induction xs arbitrary: ys n)
  case Nil
  then show ?case by simp
next
  case (Cons x xs)
  obtain y zs where ys: "ys = y # zs" using Cons.prems by (cases ys) auto
  show ?case
  proof (cases n)
    case 0
    then show ?thesis by simp
  next
    case (Suc m)
    then show ?thesis using Cons.prems Cons.IH[of zs m] ys by auto
  qed
qed

section \<open>Fixed-width integers as bytes\<close>

primrec le_encode :: "nat \<Rightarrow> nat \<Rightarrow> bytes" where
  "le_encode 0 n = []"
| "le_encode (Suc k) n = word_of_nat n # le_encode k (n div 256)"

primrec le_decode :: "bytes \<Rightarrow> nat" where
  "le_decode [] = 0"
| "le_decode (b # bs) = unat b + 256 * le_decode bs"

lemma le_encode_numeral [simp]:
  "le_encode (numeral k) n = word_of_nat n # le_encode (pred_numeral k) (n div 256)"
  by (simp only: numeral_eq_Suc[of k] le_encode.simps)

definition be_encode :: "nat \<Rightarrow> nat \<Rightarrow> bytes" where
  "be_encode k n = rev (le_encode k n)"

definition be_decode :: "bytes \<Rightarrow> nat" where
  "be_decode bs = le_decode (rev bs)"

lemma unat_byte_less [simp]: "unat (b::byte) < 256"
  using unsigned_less[of b] by simp

lemma unat_word_of_nat_byte [simp]: "unat (word_of_nat n :: byte) = n mod 256"
  by (simp add: unat_of_nat)

lemma length_le_encode [simp]: "length (le_encode k n) = k"
  by (induction k arbitrary: n) auto

lemma length_be_encode [simp]: "length (be_encode k n) = k"
  by (simp add: be_encode_def)

lemma le_decode_encode [codec_simps]: "le_decode (le_encode k n) = n mod 256 ^ k"
proof (induction k arbitrary: n)
  case 0
  then show ?case by simp
next
  case (Suc k)
  have "n mod (256 * 256 ^ k) = n mod 256 + 256 * (n div 256 mod 256 ^ k)"
    by (simp add: mod_mult2_eq)
  then show ?case using Suc by simp
qed

lemma le_encode_decode [codec_simps]: "length bs = k \<Longrightarrow> le_encode k (le_decode bs) = bs"
proof (induction bs arbitrary: k)
  case Nil
  then show ?case by simp
next
  case (Cons b bs)
  have "(word_of_nat (unat b + 256 * le_decode bs) :: byte) = b"
    by (simp only: word_unat_eq_iff unat_word_of_nat_byte) simp
  moreover have "(unat b + 256 * le_decode bs) div 256 = le_decode bs"
    by (simp add: div_add1_eq div_less)
  ultimately show ?case using Cons by auto
qed

lemma be_decode_encode [codec_simps]: "be_decode (be_encode k n) = n mod 256 ^ k"
  by (simp add: be_decode_def be_encode_def le_decode_encode)

lemma be_decode_encode_id: "n < 256 ^ k \<Longrightarrow> be_decode (be_encode k n) = n"
  by (simp add: be_decode_encode)

lemma be_encode_decode [codec_simps]: "length bs = k \<Longrightarrow> be_encode k (be_decode bs) = bs"
  by (simp add: be_decode_def be_encode_def le_encode_decode)

lemma le_decode_append: "le_decode (xs @ ys) = le_decode xs + 256 ^ length xs * le_decode ys"
  by (induction xs) (auto simp: algebra_simps)

lemma be_decode_append: "be_decode (xs @ ys) = be_decode xs * 256 ^ length ys + be_decode ys"
  by (simp add: be_decode_def le_decode_append algebra_simps)

lemma be_decode_Nil [simp]: "be_decode [] = 0"
  by (simp add: be_decode_def)

lemma be_decode_Cons: "be_decode (b # bs) = unat b * 256 ^ length bs + be_decode bs"
  using be_decode_append[of "[b]" bs] by (simp add: be_decode_def)

lemma le_decode_bound: "le_decode bs < 256 ^ length bs"
proof (induction bs)
  case Nil
  then show ?case by simp
next
  case (Cons b bs)
  have "unat b + 256 * le_decode bs < 256 * (le_decode bs + 1)"
    using unat_byte_less[of b] by simp
  also have "\<dots> \<le> 256 * 256 ^ length bs" using Cons by simp
  finally show ?case by simp
qed

lemma be_decode_bound: "be_decode bs < 256 ^ length bs"
  using le_decode_bound[of "rev bs"] by (simp add: be_decode_def)

lemma digit_less_iff:
  fixes a b r s B :: nat
  assumes "r < B" "s < B"
  shows "a * B + r < b * B + s \<longleftrightarrow> a < b \<or> a = b \<and> r < s"
proof -
  consider "a < b" | "a = b" | "b < a" by linarith
  then show ?thesis
  proof cases
    case 1
    then have "(a + 1) * B \<le> b * B" by (intro mult_le_mono1) simp
    then have "a * B + B \<le> b * B" by simp
    then show ?thesis using 1 assms by linarith
  next
    case 3
    then have "(b + 1) * B \<le> a * B" by (intro mult_le_mono1) simp
    then have "b * B + B \<le> a * B" by simp
    then show ?thesis using 3 assms by linarith
  qed auto
qed

text \<open>Big-endian bytes of one width are ordered as the numbers they encode: the fact every
  sorted key layout of the store rests on.\<close>

lemma be_decode_less_iff:
  "length xs = length ys \<Longrightarrow> (be_decode xs < be_decode ys) = (xs < ys)"
proof (induction xs ys rule: list_induct2)
  case Nil
  then show ?case by simp
next
  case (Cons x xs y ys)
  have "be_decode xs < 256 ^ length ys" "be_decode ys < 256 ^ length ys"
    using be_decode_bound[of xs] be_decode_bound[of ys] Cons.hyps by auto
  then show ?case
    using digit_less_iff[of "be_decode xs" "256 ^ length ys" "be_decode ys" "unat x" "unat y"] Cons
    by (simp add: be_decode_Cons word_less_nat_alt word_unat_eq_iff)
qed

lemma be_encode_less_iff:
  assumes "m < 256 ^ k" "n < 256 ^ k"
  shows "(be_encode k m < be_encode k n) = (m < n)"
  using be_decode_less_iff[of "be_encode k m" "be_encode k n"] assms
  by (simp add: be_decode_encode)

lemma be_encode_inj:
  "be_encode k m = be_encode k n \<Longrightarrow> m < 256 ^ k \<Longrightarrow> n < 256 ^ k \<Longrightarrow> m = n"
  by (metis be_decode_encode_id)

section \<open>Ordered maps\<close>

type_synonym ('k, 'v) btree = "('k \<times> 'v) list"

definition bt_wf :: "('k::linorder, 'v) btree \<Rightarrow> bool" where
  "bt_wf m = sorted_wrt (<) (map fst m)"

primrec bt_insert :: "'k::linorder \<Rightarrow> 'v \<Rightarrow> ('k, 'v) btree \<Rightarrow> ('k, 'v) btree" where
  "bt_insert k v [] = [(k, v)]"
| "bt_insert k v (e # m) =
     (if k < fst e then (k, v) # e # m else if k = fst e then (k, v) # m else e # bt_insert k v m)"

definition bt_remove :: "'k \<Rightarrow> ('k, 'v) btree \<Rightarrow> ('k, 'v) btree" where
  "bt_remove k m = filter (\<lambda>e. fst e \<noteq> k) m"

definition bt_get :: "('k, 'v) btree \<Rightarrow> 'k \<Rightarrow> 'v option" where
  "bt_get m k = map_of m k"

definition bt_filter :: "('k \<Rightarrow> bool) \<Rightarrow> ('k, 'v) btree \<Rightarrow> ('k, 'v) btree" where
  "bt_filter P m = filter (\<lambda>e. P (fst e)) m"

lemma bt_wf_Nil [simp]: "bt_wf []"
  by (simp add: bt_wf_def)

lemma bt_wf_Cons [simp]: "bt_wf (e # m) = ((\<forall>x\<in>set m. fst e < fst x) \<and> bt_wf m)"
  by (auto simp: bt_wf_def)

lemma bt_wf_append [simp]:
  "bt_wf (m @ m') = (bt_wf m \<and> bt_wf m' \<and> (\<forall>x\<in>set m. \<forall>y\<in>set m'. fst x < fst y))"
  by (induction m) auto

lemma bt_wf_distinct: "bt_wf m \<Longrightarrow> distinct (map fst m)"
  by (induction m) auto

lemma bt_get_Nil [simp]: "bt_get [] k = None"
  by (simp add: bt_get_def)

lemma bt_get_Cons [btree_simps]: "bt_get (e # m) k = (if k = fst e then Some (snd e) else bt_get m k)"
  by (cases e) (auto simp: bt_get_def)

lemma set_bt_insert: "set (bt_insert k v m) \<subseteq> insert (k, v) (set m)"
  by (induction m) auto

lemma bt_wf_insert [simp, inv_intros]: "bt_wf m \<Longrightarrow> bt_wf (bt_insert k v m)"
proof (induction m)
  case Nil
  then show ?case by simp
next
  case (Cons e m)
  then show ?case using set_bt_insert[of k v m] by fastforce
qed

lemma bt_wf_filter [simp, inv_intros]: "bt_wf m \<Longrightarrow> bt_wf (filter P m)"
  by (induction m) auto

lemma bt_wf_bt_filter [simp, inv_intros]: "bt_wf m \<Longrightarrow> bt_wf (bt_filter P m)"
  by (simp add: bt_filter_def)

lemma bt_wf_remove [simp, inv_intros]: "bt_wf m \<Longrightarrow> bt_wf (bt_remove k m)"
  by (simp add: bt_remove_def)

lemma bt_get_insert [simp]: "bt_get (bt_insert k v m) = (bt_get m)(k \<mapsto> v)"
  by (induction m) (auto simp: btree_simps)

lemma bt_get_remove [simp]: "bt_get (bt_remove k m) = (bt_get m)(k := None)"
  by (induction m) (auto simp: bt_remove_def btree_simps)

lemma bt_get_filter [simp]:
  "bt_get (bt_filter P m) k = (if P k then bt_get m k else None)"
  by (induction m) (auto simp: bt_filter_def btree_simps)

lemma bt_get_SomeD: "bt_get m k = Some v \<Longrightarrow> (k, v) \<in> set m"
  by (simp add: bt_get_def map_of_SomeD)

lemma bt_get_eq_Some_iff: "bt_wf m \<Longrightarrow> bt_get m k = Some v \<longleftrightarrow> (k, v) \<in> set m"
  by (simp add: bt_get_def bt_wf_distinct)

lemma bt_get_append: "bt_get (m @ m') k = (case bt_get m k of None \<Rightarrow> bt_get m' k | Some v \<Rightarrow> Some v)"
  by (auto simp: bt_get_def map_add_def split: option.splits)

text \<open>Two ordered maps with the same contents are the same list of entries.\<close>

lemma bt_ext:
  assumes "bt_wf m" "bt_wf m'" "bt_get m = bt_get m'"
  shows "m = m'"
proof -
  have "set m = set m'"
    using assms by (metis bt_get_eq_Some_iff subset_antisym subrelI)
  moreover have "inj_on fst (set m)"
    using assms(1) bt_wf_distinct distinct_map by blast
  ultimately show ?thesis
    using assms map_sorted_distinct_set_unique[of fst m m'] bt_wf_distinct
    by (auto simp: bt_wf_def strict_sorted_iff)
qed

end
