(* ===== verification/Bytes.thy ===== *)
theory Bytes
  imports Prelude
begin

text \<open>
  \<^verbatim>\<open>src/common/bytes\<close>: byte-string arithmetic (\<^verbatim>\<open>util.rs\<close>), the small-size-optimised owned byte
  array \<^verbatim>\<open>ByteArray\<close> (\<^verbatim>\<open>byte_array.rs\<close>) and the owned-or-borrowed \<^verbatim>\<open>Bytes\<close> (\<^verbatim>\<open>bytes.rs\<close>).
  \<open>deref\<close> is the abstraction from a \<open>byte_array\<close> to the byte string it stands for; every constructor
  and operation is shown to be the corresponding operation on byte strings.
\<close>

section \<open>Big-endian increment\<close>

datatype bytes_error = IncrementOverflow

text \<open>The loop of \<^verbatim>\<open>increment\<close> walks the slice from its last byte; it is written over the reversed
  slice, and says with a boolean whether it returned before running out of bytes.\<close>

fun increment_loop :: "bytes \<Rightarrow> bytes \<times> bool" where
  "increment_loop [] = ([], False)"
| "increment_loop (byte # rest) =
     (let val = byte + 1; overflow = (byte = 0xFF) in
      if \<not> overflow then (val # rest, True)
      else let (rest', returned) = increment_loop rest in (val # rest', returned))"

definition increment :: "bytes \<Rightarrow> bytes \<times> (bytes_error + unit)" where
  "increment bytes =
     (let (bytes', returned) = increment_loop (rev bytes) in
      (rev bytes', if returned then Inr () else Inl IncrementOverflow))"

text \<open>\<^verbatim>\<open>increment_fixed\<close> counts its index down and adds one to every byte on the way.\<close>

fun increment_fixed_loop :: "bytes \<Rightarrow> nat \<Rightarrow> bytes option" where
  "increment_fixed_loop bytes 0 = Some bytes"
| "increment_fixed_loop bytes (Suc index) =
     (let val = bytes ! index + 1; overflow = (bytes ! index = 0xFF); bytes' = bytes[index := val] in
      if overflow then None else increment_fixed_loop bytes' index)"

definition increment_fixed :: "bytes \<Rightarrow> bytes option" where
  "increment_fixed bytes = increment_fixed_loop bytes (length bytes)"

lemma length_increment_loop [simp]: "length (fst (increment_loop bs)) = length bs"
  by (induction bs rule: increment_loop.induct) (auto simp: Let_def split: prod.splits)

lemma length_increment [simp]: "length (fst (increment bs)) = length bs"
  by (simp add: increment_def case_prod_unfold Let_def)

lemma unat_inc_byte: "b \<noteq> (0xFF::byte) \<Longrightarrow> unat (b + 1) = unat b + 1"
proof -
  assume "b \<noteq> 0xFF"
  then have "unat b \<noteq> 255" using word_unat_eq_iff[of b "0xFF"] by simp
  then have "unat b + 1 < 256" using unat_byte_less[of b] by linarith
  then show ?thesis by (subst unat_word_ariths(1)) (simp add: mod_less)
qed

lemma increment_loop_value:
  "increment_loop bs = (bs', True) \<Longrightarrow> le_decode bs' = le_decode bs + 1"
proof (induction bs arbitrary: bs' rule: increment_loop.induct)
  case 1
  then show ?case by simp
next
  case (2 b bs)
  show ?case
  proof (cases "b = 0xFF")
    case True
    then obtain r where r: "increment_loop bs = (r, True)" "bs' = 0 # r"
      using "2.prems" by (auto simp: Let_def split: prod.splits)
    then have "le_decode r = le_decode bs + 1" using 2(1) True by simp
    then show ?thesis using r True by simp
  next
    case False
    then show ?thesis using "2.prems" by (auto simp: Let_def unat_inc_byte)
  qed
qed

lemma increment_loop_overflow:
  "(snd (increment_loop bs) = False) = (\<forall>b\<in>set bs. b = 0xFF)"
  by (induction bs rule: increment_loop.induct) (auto simp: Let_def case_prod_unfold)

lemma be_decode_max_iff: "be_decode bs = 256 ^ length bs - 1 \<longleftrightarrow> (\<forall>b\<in>set bs. b = 0xFF)"
proof (induction bs)
  case Nil
  then show ?case by simp
next
  case (Cons b bs)
  let ?B = "256 ^ length bs :: nat"
  have b: "b = 0xFF \<longleftrightarrow> unat b = 255" by (simp add: word_unat_eq_iff)
  have lt: "be_decode bs < ?B" by (rule be_decode_bound)
  have "unat b * ?B + be_decode bs = 255 * ?B + (?B - 1) \<longleftrightarrow> unat b = 255 \<and> be_decode bs = ?B - 1"
  proof
    assume eq: "unat b * ?B + be_decode bs = 255 * ?B + (?B - 1)"
    then have "unat b = 255"
      using digit_less_iff[OF lt, of "?B - 1" "unat b" 255] digit_less_iff[of "?B - 1" ?B "be_decode bs" 255 "unat b"] lt
      by (cases "unat b" "255::nat" rule: linorder_cases) auto
    then show "unat b = 255 \<and> be_decode bs = ?B - 1" using eq by simp
  qed auto
  moreover have "256 ^ length (b # bs) - 1 = 255 * ?B + (?B - 1)" by simp
  ultimately show ?case using Cons b by (simp add: be_decode_Cons)
qed

lemma increment_Ok_value: "increment bs = (bs', Inr ()) \<Longrightarrow> be_decode bs' = be_decode bs + 1"
  using increment_loop_value[of "rev bs" "rev bs'"]
  by (auto simp: increment_def be_decode_def split: prod.splits if_splits)

lemma increment_Err_iff: "snd (increment bs) = Inl IncrementOverflow \<longleftrightarrow> (\<forall>b\<in>set bs. b = 0xFF)"
  using increment_loop_overflow[of "rev bs"]
  by (auto simp: increment_def split: prod.splits)

lemma increment_Ok_iff: "snd (increment bs) = Inr () \<longleftrightarrow> (\<exists>b\<in>set bs. b \<noteq> 0xFF)"
  using increment_Err_iff[of bs]
  by (cases "snd (increment bs)") (auto, metis bytes_error.exhaust)

lemma increment_length: "increment bs = (bs', r) \<Longrightarrow> length bs' = length bs"
  using length_increment[of bs] by simp

text \<open>What the range computations use of \<^verbatim>\<open>increment\<close>: below the incremented prefix lie, among the
  strings at least as long as the prefix, exactly those whose leading bytes do not exceed it.\<close>

lemma less_increment_iff:
  assumes inc: "increment p = (q, Inr ())" and len: "length p \<le> length k"
  shows "k < q \<longleftrightarrow> take (length p) k \<le> p"
proof -
  have lq: "length q = length p" using inc by (rule increment_length)
  have "k = take (length p) k @ drop (length p) k" by simp
  then have "k < q \<longleftrightarrow> take (length p) k @ drop (length p) k < q @ []" by simp
  also have "\<dots> \<longleftrightarrow> take (length p) k < q"
    using len lq by (subst lex_append_same_length) auto
  also have "\<dots> \<longleftrightarrow> be_decode (take (length p) k) < be_decode p + 1"
    using len lq increment_Ok_value[OF inc] by (simp flip: be_decode_less_iff)
  also have "\<dots> \<longleftrightarrow> \<not> be_decode p < be_decode (take (length p) k)" by auto
  also have "\<dots> \<longleftrightarrow> take (length p) k \<le> p"
    using len by (subst be_decode_less_iff) auto
  finally show ?thesis .
qed

lemma increment_greater: "increment p = (q, Inr ()) \<Longrightarrow> p < q"
  using less_increment_iff[of p q p] by simp

section \<open>Byte arrays\<close>

text \<open>\<^verbatim>\<open>INLINE_BYTES\<close> is the length of the inline buffer; the length field is a \<^verbatim>\<open>u8\<close>, so the casts
  \<^verbatim>\<open>as u8\<close> wrap.\<close>

datatype byte_array = Inline bytes "8 word" | Boxed bytes

definition empty_array :: "nat \<Rightarrow> byte_array" where
  "empty_array INLINE_BYTES = Inline (replicate INLINE_BYTES 0) 0"

definition zeros :: "nat \<Rightarrow> nat \<Rightarrow> byte_array" where
  "zeros INLINE_BYTES length' =
     (if length' \<le> INLINE_BYTES then Inline (replicate INLINE_BYTES 0) (word_of_nat length')
      else Boxed (replicate length' 0))"

definition copy :: "nat \<Rightarrow> bytes \<Rightarrow> byte_array" where
  "copy INLINE_BYTES bytes =
     (if length bytes \<le> INLINE_BYTES
      then Inline (bytes @ drop (length bytes) (replicate INLINE_BYTES 0)) (word_of_nat (length bytes))
      else Boxed bytes)"

fun copy_slices_into :: "bytes \<Rightarrow> nat \<Rightarrow> bytes list \<Rightarrow> bytes" where
  "copy_slices_into data end' [] = data"
| "copy_slices_into data end' (s # slices) =
     copy_slices_into (take end' data @ s @ drop (end' + length s) data) (end' + length s) slices"

definition copy_concat :: "nat \<Rightarrow> bytes list \<Rightarrow> byte_array" where
  "copy_concat INLINE_BYTES slices =
     (let length' = sum_list (map length slices) in
      if length' \<le> INLINE_BYTES
      then Inline (copy_slices_into (replicate INLINE_BYTES 0) 0 slices) (word_of_nat length')
      else Boxed (concat slices))"

fun deref :: "byte_array \<Rightarrow> bytes option" where
  "deref (Boxed bytes) = Some bytes"
| "deref (Inline bytes len) = (if unat len \<le> length bytes then Some (take (unat len) bytes) else None)"

definition truncate_array :: "byte_array \<Rightarrow> nat \<Rightarrow> byte_array option" where
  "truncate_array self length' = do {
     s \<leftarrow> deref self;
     if length' \<le> length s
     then Some (case self of
         Inline bytes len \<Rightarrow> Inline bytes (word_of_nat length')
       | Boxed boxed \<Rightarrow> Boxed (take length' boxed))
     else None }"

definition truncate_range :: "byte_array \<Rightarrow> nat \<Rightarrow> nat \<Rightarrow> byte_array option" where
  "truncate_range self start end' = do {
     s \<leftarrow> deref self;
     if start \<le> length s \<and> end' \<le> length s
     then (if start \<le> end' then Some (case self of
         Inline bytes len \<Rightarrow>
           Inline (slice bytes start end' @ drop (end' - start) bytes) (word_of_nat (end' - start))
       | Boxed boxed \<Rightarrow> Boxed (slice boxed start end'))
       else None)
     else None }"

definition array_starts_with :: "byte_array \<Rightarrow> bytes \<Rightarrow> bool option" where
  "array_starts_with self bytes = do {
     s \<leftarrow> deref self;
     Some (length bytes \<le> length s \<and> slice s 0 (length bytes) = bytes) }"

text \<open>\<^verbatim>\<open>increment(self)\<close> goes through \<^verbatim>\<open>deref_mut\<close>: only the first \<^verbatim>\<open>len\<close> bytes of the buffer change.\<close>

definition array_increment :: "byte_array \<Rightarrow> (byte_array \<times> (bytes_error + unit)) option" where
  "array_increment self = do {
     s \<leftarrow> deref self;
     let (s', r) = increment s;
     Some (case self of
         Inline bytes len \<Rightarrow> Inline (s' @ drop (length s) bytes) len
       | Boxed boxed \<Rightarrow> Boxed s', r) }"

text \<open>The invariant of a \<open>byte_array\<close>: the recorded length lies within the inline buffer, whose size
  fits the \<^verbatim>\<open>u8\<close>.\<close>

fun array_wf :: "byte_array \<Rightarrow> bool" where
  "array_wf (Boxed bytes) = True"
| "array_wf (Inline bytes len) = (unat len \<le> length bytes \<and> length bytes \<le> 255)"

lemma unat_len [simp]: "n \<le> 255 \<Longrightarrow> unat (word_of_nat n :: 8 word) = n"
  by simp

lemma deref_copy: "I \<le> 255 \<Longrightarrow> deref (copy I bs) = Some bs"
  by (auto simp: copy_def)

lemma copy_slices_into_spec:
  "e \<le> length data \<Longrightarrow> e + sum_list (map length ss) \<le> length data \<Longrightarrow>
   copy_slices_into data e ss = take e data @ concat ss @ drop (e + sum_list (map length ss)) data"
  by (induction ss arbitrary: e data) (auto simp: algebra_simps)

lemma deref_copy_concat: "I \<le> 255 \<Longrightarrow> deref (copy_concat I ss) = Some (concat ss)"
  by (auto simp: copy_concat_def Let_def copy_slices_into_spec length_concat)

lemma deref_zeros: "I \<le> 255 \<Longrightarrow> deref (zeros I n) = Some (replicate n 0)"
  by (auto simp: zeros_def)

lemma array_wf_deref: "array_wf a \<Longrightarrow> \<exists>s. deref a = Some s"
  by (cases a) auto

lemma array_wf_constructors [inv_intros]:
  "I \<le> 255 \<Longrightarrow> array_wf (copy I bs)"
  "I \<le> 255 \<Longrightarrow> array_wf (zeros I n)"
  "I \<le> 255 \<Longrightarrow> array_wf (copy_concat I ss)"
  by (auto simp: copy_def zeros_def copy_concat_def copy_slices_into_spec length_concat Let_def)

lemma truncate_array_refines:
  assumes "array_wf a" "deref a = Some s"
  shows "truncate_array a n =
      (if n \<le> length s then Some (case a of Inline b _ \<Rightarrow> Inline b (word_of_nat n) | Boxed b \<Rightarrow> Boxed (take n b))
       else None)"
    and "truncate_array a n = Some a' \<Longrightarrow> array_wf a' \<and> deref a' = Some (take n s)"
  using assms by (cases a; auto simp: truncate_array_def split: if_splits)+

lemma truncate_range_refines:
  assumes "array_wf a" "deref a = Some s" "i \<le> j" "j \<le> length s"
  shows "\<exists>a'. truncate_range a i j = Some a' \<and> array_wf a' \<and> deref a' = Some (slice s i j)"
proof -
  define n where "n = j - i"
  have tr: "truncate_range a i j = Some (case a of
      Inline bs len \<Rightarrow> Inline (slice bs i j @ drop n bs) (word_of_nat n) | Boxed bs \<Rightarrow> Boxed (slice bs i j))"
    using assms by (cases a) (auto simp: truncate_range_def simp flip: n_def)
  show ?thesis
  proof (cases a)
    case (Inline bs len)
    then have s: "s = take (unat len) bs" "unat len \<le> length bs" "length bs \<le> 255" "j \<le> unat len"
      using assms by (auto split: if_splits)
    then have n: "n \<le> length bs" "n \<le> length bs - i" by (auto simp: n_def)
    have eq: "slice bs i j = slice s i j" "length (slice s i j) = n"
      using s by (auto simp: slice_def drop_take n_def)
    have "unat (word_of_nat n :: 8 word) = n" using n s by (intro unat_len) linarith
    then show ?thesis
      using tr Inline eq n s by (intro exI[of _ "Inline (slice s i j @ drop n bs) (word_of_nat n)"]) simp
  qed (use assms tr in auto)
qed

lemma array_increment_refines:
  assumes "array_wf a" "deref a = Some s"
  shows "\<exists>a'. array_increment a = Some (a', snd (increment s)) \<and> array_wf a' \<and> deref a' = Some (fst (increment s))"
  using assms by (cases a) (auto simp: array_increment_def case_prod_unfold Let_def split: if_splits)

section \<open>Owned or borrowed bytes\<close>

datatype bytes_cow = Array byte_array | Reference bytes

fun bytes_deref :: "bytes_cow \<Rightarrow> bytes option" where
  "bytes_deref (Array array) = deref array"
| "bytes_deref (Reference reference) = Some reference"

definition bytes_truncate :: "bytes_cow \<Rightarrow> nat \<Rightarrow> bytes_cow option" where
  "bytes_truncate self length' = do {
     s \<leftarrow> bytes_deref self;
     if length' \<le> length s
     then (case self of
         Array array \<Rightarrow> map_option Array (truncate_array array length')
       | Reference reference \<Rightarrow> Some (Reference (take length' reference)))
     else None }"

definition into_range :: "bytes_cow \<Rightarrow> nat \<Rightarrow> nat \<Rightarrow> bytes_cow option" where
  "into_range self start end' = do {
     s \<leftarrow> bytes_deref self;
     if start \<le> length s \<and> end' \<le> length s
     then (case self of
         Array array \<Rightarrow> map_option Array (truncate_range array start end')
       | Reference reference \<Rightarrow>
           if start \<le> end' then Some (Reference (slice reference start end')) else None)
     else None }"

definition into_array :: "nat \<Rightarrow> bytes_cow \<Rightarrow> byte_array" where
  "into_array I self = (case self of Array array \<Rightarrow> array | Reference r \<Rightarrow> copy I r)"

definition unwrap_reference :: "bytes_cow \<Rightarrow> bytes option" where
  "unwrap_reference self = (case self of Reference r \<Rightarrow> Some r | Array _ \<Rightarrow> None)"

fun bytes_wf :: "bytes_cow \<Rightarrow> bool" where
  "bytes_wf (Array array) = array_wf array"
| "bytes_wf (Reference _) = True"

lemma bytes_truncate_refines:
  assumes "bytes_wf b" "bytes_deref b = Some s" "n \<le> length s"
  shows "\<exists>b'. bytes_truncate b n = Some b' \<and> bytes_wf b' \<and> bytes_deref b' = Some (take n s)"
proof (cases b)
  case (Array a)
  then obtain a' where "truncate_array a n = Some a'"
    using assms truncate_array_refines(1)[of a s n] by simp
  then show ?thesis
    using Array assms truncate_array_refines(2)[of a s n a'] by (auto simp: bytes_truncate_def)
qed (use assms in \<open>auto simp: bytes_truncate_def\<close>)

lemma into_range_refines:
  assumes "bytes_wf b" "bytes_deref b = Some s" "i \<le> j" "j \<le> length s"
  shows "\<exists>b'. into_range b i j = Some b' \<and> bytes_wf b' \<and> bytes_deref b' = Some (slice s i j)"
proof (cases b)
  case (Array a)
  then show ?thesis
    using assms truncate_range_refines[of a s i j] by (auto simp: into_range_def)
qed (use assms in \<open>auto simp: into_range_def\<close>)

lemma into_array_refines:
  "I \<le> 255 \<Longrightarrow> bytes_wf b \<Longrightarrow> array_wf (into_array I b) \<and> deref (into_array I b) = bytes_deref b"
  by (cases b) (auto simp: into_array_def deref_copy intro: inv_intros)

section \<open>Properties\<close>

text \<open>\<^verbatim>\<open>increment\<close> is the big-endian successor on fixed-width strings: it fails exactly on the
  strings made of 0xFF bytes only (the empty string included), and otherwise keeps the width and adds
  one to the number the bytes encode.\<close>

theorem increment_correct:
  "(snd (increment bytes) = Inl IncrementOverflow \<longleftrightarrow> be_decode bytes = 256 ^ length bytes - 1) \<and>
   (snd (increment bytes) = Inr () \<longrightarrow>
      length (fst (increment bytes)) = length bytes \<and>
      be_decode (fst (increment bytes)) = be_decode bytes + 1)"
proof (intro conjI impI)
  have "snd (increment bytes) = Inl IncrementOverflow \<longleftrightarrow> (\<forall>b\<in>set bytes. b = 0xFF)"
    by (rule increment_Err_iff)
  also have "\<dots> \<longleftrightarrow> be_decode bytes = 256 ^ length bytes - 1"
    by (rule be_decode_max_iff[symmetric])
  finally show "snd (increment bytes) = Inl IncrementOverflow \<longleftrightarrow> be_decode bytes = 256 ^ length bytes - 1" .
next
  assume "snd (increment bytes) = Inr ()"
  then show "be_decode (fst (increment bytes)) = be_decode bytes + 1"
    using increment_Ok_value[of bytes "fst (increment bytes)"] by (metis prod.collapse)
qed simp

theorem increment_correct_witness:
  "snd (increment [1, 0xFF]) = Inr () \<and> be_decode (fst (increment [1, 0xFF])) = be_decode [1, 0xFF] + 1"
  using increment_correct[of "[1, 0xFF]"] by (simp add: increment_def)

text \<open>\<^verbatim>\<open>ByteArray\<close> represents byte strings: whatever the inline size (at most 255, the range of its
  length field), copying, concatenating, truncating, cutting a range and incrementing an array are the
  same operations on the string it dereferences to, and no well-formed array panics when read.\<close>

theorem byte_array_refines_bytes:
  assumes "I \<le> 255" and "array_wf a"
  shows "deref (copy I bytes) = Some bytes \<and> deref (copy_concat I slices) = Some (concat slices) \<and>
    (\<exists>s. deref a = Some s \<and>
      (\<forall>n \<le> length s. map_option deref (truncate_array a n) = Some (Some (take n s))) \<and>
      (\<forall>i j. i \<le> j \<and> j \<le> length s \<longrightarrow> map_option deref (truncate_range a i j) = Some (Some (slice s i j))) \<and>
      map_option (\<lambda>(a', r). (deref a', r)) (array_increment a) = Some (Some (fst (increment s)), snd (increment s)))"
proof -
  obtain s where s: "deref a = Some s" using array_wf_deref assms(2) by blast
  have "map_option deref (truncate_array a n) = Some (Some (take n s))" if "n \<le> length s" for n
    using truncate_array_refines[OF assms(2) s, of n] that by auto
  moreover have "map_option deref (truncate_range a i j) = Some (Some (slice s i j))"
    if "i \<le> j \<and> j \<le> length s" for i j
    using truncate_range_refines[OF assms(2) s, of i j] that by auto
  ultimately show ?thesis
    using s deref_copy[OF assms(1)] deref_copy_concat[OF assms(1)] array_increment_refines[OF assms(2) s]
    by auto
qed

theorem byte_array_refines_bytes_witness:
  "deref (copy_concat 4 [[1], [2, 3]]) = Some [1, 2, 3] \<and>
   map_option deref (truncate_range (Inline [1, 2, 3, 0] 3) 1 3) = Some (Some [2, 3])"
proof -
  let ?a = "Inline [1, 2, 3, 0] 3"
  note c = byte_array_refines_bytes[of 4 ?a "[]" "[[1], [2, 3]]"]
  have "\<forall>i j. i \<le> j \<and> j \<le> 3 \<longrightarrow> map_option deref (truncate_range ?a i j) = Some (Some (slice [1, 2, 3] i j))"
    using c by simp
  then have "map_option deref (truncate_range ?a 1 3) = Some (Some (slice [1, 2, 3] 1 3))" by simp
  then show ?thesis using c by (simp add: slice_def)
qed

end
