(* ===== verification/KeyRange.thy ===== *)
theory KeyRange
  imports Bytes
begin

text \<open>
  \<^verbatim>\<open>src/storage/key_range.rs\<close>: ranges of keys, and the bounds of \<^verbatim>\<open>BTreeMap::range\<close>, which panics on an
  inverted range and on an empty one with two excluded ends.  \<open>range_contains\<close> is the meaning of a range,
  against which the range scans of the write buffer and of the storage backends are compared.
\<close>

section \<open>Key ranges\<close>

datatype 't range_start = Inclusive 't | ExcludeFirstWithPrefix 't | ExcludePrefix 't

datatype 't range_end = WithinStartAsPrefix | EndPrefixInclusive 't | EndPrefixExclusive 't | UnboundedEnd

record 't key_range =
  kr_start :: "'t range_start"
  kr_end :: "'t range_end"
  kr_fixed_width_keys :: bool

definition new_variable_width :: "'t range_start \<Rightarrow> 't range_end \<Rightarrow> 't key_range" where
  "new_variable_width start end' = \<lparr> kr_start = start, kr_end = end', kr_fixed_width_keys = False \<rparr>"

definition new_fixed_width :: "'t range_start \<Rightarrow> 't range_end \<Rightarrow> 't key_range" where
  "new_fixed_width start end' = \<lparr> kr_start = start, kr_end = end', kr_fixed_width_keys = True \<rparr>"

definition new_unbounded :: "'t range_start \<Rightarrow> 't key_range" where
  "new_unbounded start = \<lparr> kr_start = start, kr_end = UnboundedEnd, kr_fixed_width_keys = False \<rparr>"

definition new_within :: "'t \<Rightarrow> bool \<Rightarrow> 't key_range" where
  "new_within prefix' fixed_width_keys =
     \<lparr> kr_start = Inclusive prefix', kr_end = WithinStartAsPrefix, kr_fixed_width_keys = fixed_width_keys \<rparr>"

fun start_map :: "('t \<Rightarrow> 'u) \<Rightarrow> 't range_start \<Rightarrow> 'u range_start" where
  "start_map mapper (Inclusive e) = Inclusive (mapper e)"
| "start_map mapper (ExcludeFirstWithPrefix e) = ExcludeFirstWithPrefix (mapper e)"
| "start_map mapper (ExcludePrefix e) = ExcludePrefix (mapper e)"

fun start_value :: "'t range_start \<Rightarrow> 't" where
  "start_value (Inclusive v) = v"
| "start_value (ExcludeFirstWithPrefix v) = v"
| "start_value (ExcludePrefix v) = v"

fun end_map :: "('t \<Rightarrow> 'u) \<Rightarrow> 't range_end \<Rightarrow> 'u range_end" where
  "end_map mapper WithinStartAsPrefix = WithinStartAsPrefix"
| "end_map mapper (EndPrefixInclusive e) = EndPrefixInclusive (mapper e)"
| "end_map mapper (EndPrefixExclusive e) = EndPrefixExclusive (mapper e)"
| "end_map mapper UnboundedEnd = UnboundedEnd"

fun end_value :: "'t range_end \<Rightarrow> 't option" where
  "end_value WithinStartAsPrefix = None"
| "end_value UnboundedEnd = None"
| "end_value (EndPrefixInclusive v) = Some v"
| "end_value (EndPrefixExclusive v) = Some v"

definition key_range_map :: "('t \<Rightarrow> 'u) \<Rightarrow> (bool \<Rightarrow> bool) \<Rightarrow> 't key_range \<Rightarrow> 'u key_range" where
  "key_range_map prefix_mapper fixed_width_mapper self =
     (let start = start_map prefix_mapper (kr_start self);
          end' = end_map prefix_mapper (kr_end self);
          fixed_width = fixed_width_mapper (kr_fixed_width_keys self)
      in if fixed_width then new_fixed_width start end' else new_variable_width start end')"

section \<open>The meaning of a range\<close>

text \<open>The three ends cut by leading bytes: a key is compared with an end through as many of its bytes as
  the end has.\<close>

fun start_admits :: "bytes range_start \<Rightarrow> bytes \<Rightarrow> bool" where
  "start_admits (Inclusive s) k = (s \<le> k)"
| "start_admits (ExcludeFirstWithPrefix s) k = (s < k)"
| "start_admits (ExcludePrefix s) k = (s < take (length s) k)"

fun end_admits :: "bytes range_start \<Rightarrow> bytes range_end \<Rightarrow> bytes \<Rightarrow> bool" where
  "end_admits start WithinStartAsPrefix k = (take (length (start_value start)) k \<le> start_value start)"
| "end_admits start (EndPrefixInclusive e) k = (take (length e) k \<le> e)"
| "end_admits start (EndPrefixExclusive e) k = (take (length e) k < e)"
| "end_admits start UnboundedEnd k = True"

definition range_contains :: "bytes key_range \<Rightarrow> bytes \<Rightarrow> bool" where
  "range_contains rng k = (start_admits (kr_start rng) k \<and> end_admits (kr_start rng) (kr_end rng) k)"

text \<open>A scan over keys that are at least as long as the ends of the range.\<close>

definition covers_ends :: "bytes key_range \<Rightarrow> bytes \<Rightarrow> bool" where
  "covers_ends rng k =
     (length (start_value (kr_start rng)) \<le> length k \<and>
      (\<forall>e. end_value (kr_end rng) = Some e \<longrightarrow> length e \<le> length k))"

lemma within_prefix: "s \<le> k \<Longrightarrow> (take (length s) k \<le> s) = starts_with k (s::bytes)"
proof -
  assume le: "s \<le> k"
  have "s \<le> take (length s) k"
    using le lex_take_less[of s k "length s"] by (cases "s = k") auto
  then show ?thesis by (auto simp: starts_with_def)
qed

lemma range_contains_within:
  "range_contains (new_within p fw) k = starts_with k p"
proof -
  have "starts_with k p \<Longrightarrow> p \<le> k" by (simp add: starts_with_prefix prefix_lex_le)
  then show ?thesis
    by (auto simp: range_contains_def new_within_def within_prefix)
qed

section \<open>Bounds of an ordered map\<close>

datatype 't bound = Included 't | Excluded 't | Unbounded

fun lower_admits :: "'k::linorder bound \<Rightarrow> 'k \<Rightarrow> bool" where
  "lower_admits (Included s) k = (s \<le> k)"
| "lower_admits (Excluded s) k = (s < k)"
| "lower_admits Unbounded k = True"

fun upper_admits :: "'k::linorder bound \<Rightarrow> 'k \<Rightarrow> bool" where
  "upper_admits (Included e) k = (k \<le> e)"
| "upper_admits (Excluded e) k = (k < e)"
| "upper_admits Unbounded k = True"

fun bound_value :: "'k bound \<Rightarrow> 'k option" where
  "bound_value (Included s) = Some s"
| "bound_value (Excluded s) = Some s"
| "bound_value Unbounded = None"

definition bounds_panic :: "'k::linorder bound \<Rightarrow> 'k bound \<Rightarrow> bool" where
  "bounds_panic lo hi =
     (case (bound_value lo, bound_value hi) of
        (Some s, Some e) \<Rightarrow> e < s \<or> (s = e \<and> lo = Excluded s \<and> hi = Excluded e)
      | _ \<Rightarrow> False)"

definition bt_range :: "'k::linorder bound \<Rightarrow> 'k bound \<Rightarrow> ('k, 'v) btree \<Rightarrow> ('k, 'v) btree option" where
  "bt_range lo hi m =
     (if bounds_panic lo hi then None else Some (bt_filter (\<lambda>k. lower_admits lo k \<and> upper_admits hi k) m))"

lemma bt_range_SomeD: "bt_range lo hi m = Some r \<Longrightarrow> r = bt_filter (\<lambda>k. lower_admits lo k \<and> upper_admits hi k) m"
  by (auto simp: bt_range_def split: if_splits)

end
