(* ===== verification/MvccKey.thy ===== *)
theory MvccKey
  imports Bytes
begin

text \<open>
  Sequence numbers (\<^verbatim>\<open>src/durability/durability.rs\<close>) and multi-version keys (\<^verbatim>\<open>MVCCKey\<close> and
  \<^verbatim>\<open>StorageOperation\<close> of \<^verbatim>\<open>src/storage/storage.rs\<close>).  A sequence number is a \<open>nat\<close>; where it is
  stored in eight bytes the hypothesis \<open>seq_ok\<close> says that it is a \<^verbatim>\<open>u64\<close>.  Decoding a string that is
  too short to be a multi-version key, or whose operation byte is unknown, is the panic None.
\<close>

section \<open>Sequence numbers\<close>

type_synonym seq = nat

definition seq_ok :: "seq \<Rightarrow> bool" where
  "seq_ok n = (n < 2 ^ 64)"

definition SEQ_MIN :: seq where "SEQ_MIN = 0"

definition SEQ_MAX :: seq where "SEQ_MAX = 2 ^ 64 - 1"

definition seq_next :: "seq \<Rightarrow> seq" where
  "seq_next n = n + 1"

text \<open>\<^verbatim>\<open>previous\<close> and the subtraction of sequence numbers underflow below zero.\<close>

definition seq_previous :: "seq \<Rightarrow> seq option" where
  "seq_previous n = (if n = 0 then None else Some (n - 1))"

definition seq_minus :: "seq \<Rightarrow> seq \<Rightarrow> nat option" where
  "seq_minus m n = (if n \<le> m then Some (m - n) else None)"

definition seq_invert :: "seq \<Rightarrow> seq" where
  "seq_invert n = SEQ_MAX - n"

definition seq_serialised_len :: nat where "seq_serialised_len = 8"

definition seq_to_be_bytes :: "seq \<Rightarrow> bytes" where
  "seq_to_be_bytes n = be_encode 8 n"

definition seq_from_be_bytes :: "bytes \<Rightarrow> seq option" where
  "seq_from_be_bytes bs = (if length bs = 8 then Some (be_decode bs) else None)"

lemma seq_ok_256: "seq_ok n \<longleftrightarrow> n < 256 ^ 8"
  by (simp add: seq_ok_def)

lemma seq_ok_invert [simp]: "seq_ok (seq_invert n)"
  by (simp add: seq_ok_def seq_invert_def SEQ_MAX_def)

lemma seq_invert_invert [simp]: "seq_ok n \<Longrightarrow> seq_invert (seq_invert n) = n"
  by (simp add: seq_ok_def seq_invert_def SEQ_MAX_def)

lemma seq_invert_less: "seq_ok m \<Longrightarrow> seq_ok n \<Longrightarrow> (seq_invert m < seq_invert n) = (n < m)"
  by (auto simp: seq_ok_def seq_invert_def SEQ_MAX_def)

lemma seq_invert_inj: "seq_ok m \<Longrightarrow> seq_ok n \<Longrightarrow> (seq_invert m = seq_invert n) = (m = n)"
  by (metis seq_invert_invert)

lemma length_seq_to_be_bytes [simp]: "length (seq_to_be_bytes n) = 8"
  by (simp add: seq_to_be_bytes_def)

lemma seq_from_to_be_bytes [simp]: "seq_ok n \<Longrightarrow> seq_from_be_bytes (seq_to_be_bytes n) = Some n"
  by (simp add: seq_from_be_bytes_def seq_to_be_bytes_def seq_ok_256 be_decode_encode)

lemma seq_to_from_be_bytes:
  "seq_from_be_bytes bs = Some n \<Longrightarrow> seq_to_be_bytes n = bs \<and> seq_ok n"
  using be_decode_bound[of bs]
  by (auto simp: seq_from_be_bytes_def seq_to_be_bytes_def seq_ok_256 be_encode_decode split: if_splits)

lemma seq_to_be_bytes_less:
  "seq_ok m \<Longrightarrow> seq_ok n \<Longrightarrow> (seq_to_be_bytes m < seq_to_be_bytes n) = (m < n)"
  by (simp add: seq_to_be_bytes_def seq_ok_256 be_encode_less_iff)

lemma seq_to_be_bytes_inj:
  "seq_ok m \<Longrightarrow> seq_ok n \<Longrightarrow> (seq_to_be_bytes m = seq_to_be_bytes n) = (m = n)"
  by (metis seq_from_to_be_bytes option.inject)

section \<open>Storage operations\<close>

datatype storage_operation = OpInsert | OpDelete

fun op_bytes :: "storage_operation \<Rightarrow> bytes" where
  "op_bytes OpInsert = [0x0]"
| "op_bytes OpDelete = [0x1]"

definition op_from :: "bytes \<Rightarrow> storage_operation option" where
  "op_from bytes = (if bytes = [0x0] then Some OpInsert else if bytes = [0x1] then Some OpDelete else None)"

definition op_serialised_len :: nat where "op_serialised_len = 1"

lemma length_op_bytes [simp]: "length (op_bytes op) = 1"
  by (cases op) auto

lemma op_from_bytes [simp]: "op_from (op_bytes op) = Some op"
  by (cases op) (auto simp: op_from_def)

lemma op_bytes_from: "op_from bs = Some op \<Longrightarrow> op_bytes op = bs"
  by (auto simp: op_from_def split: if_splits)

lemma op_bytes_inj [simp]: "(op_bytes o1 = op_bytes o2) = (o1 = o2)"
  by (cases o1; cases o2) auto

lemma op_bytes_less: "(op_bytes o1 < op_bytes o2) = (o1 = OpInsert \<and> o2 = OpDelete)"
  by (cases o1; cases o2) auto

section \<open>Multi-version keys\<close>

text \<open>\<^verbatim>\<open>bytes[i..j].copy_from_slice(src)\<close> with \<^verbatim>\<open>j - i\<close> the length of the source.\<close>

definition copy_from_slice :: "bytes \<Rightarrow> nat \<Rightarrow> bytes \<Rightarrow> bytes" where
  "copy_from_slice bs i src = take i bs @ src @ drop (i + length src) bs"

definition mvcc_build :: "bytes \<Rightarrow> seq \<Rightarrow> storage_operation \<Rightarrow> bytes" where
  "mvcc_build key sequence_number storage_operation =
     (let length' = length key + seq_serialised_len + op_serialised_len;
          bytes = replicate length' 0;
          key_end = length key;
          sequence_number_end = key_end + seq_serialised_len;
          bytes = copy_from_slice bytes 0 key;
          bytes = copy_from_slice bytes key_end (seq_to_be_bytes (seq_invert sequence_number));
          bytes = copy_from_slice bytes sequence_number_end (op_bytes storage_operation)
      in bytes)"

definition OPERATION_START_NEGATIVE_OFFSET :: nat where
  "OPERATION_START_NEGATIVE_OFFSET = op_serialised_len"

definition SEQUENCE_NUMBER_START_NEGATIVE_OFFSET :: nat where
  "SEQUENCE_NUMBER_START_NEGATIVE_OFFSET = OPERATION_START_NEGATIVE_OFFSET + seq_serialised_len"

definition mvcc_key :: "bytes \<Rightarrow> bytes option" where
  "mvcc_key self = do {
     end' \<leftarrow> seq_minus (length self) SEQUENCE_NUMBER_START_NEGATIVE_OFFSET;
     Some (slice self 0 end') }"

definition mvcc_sequence_number :: "bytes \<Rightarrow> seq option" where
  "mvcc_sequence_number self = do {
     sequence_number_start \<leftarrow> seq_minus (length self) SEQUENCE_NUMBER_START_NEGATIVE_OFFSET;
     let sequence_number_end = sequence_number_start + seq_serialised_len;
     n \<leftarrow> seq_from_be_bytes (slice self sequence_number_start sequence_number_end);
     Some (seq_invert n) }"

definition mvcc_operation :: "bytes \<Rightarrow> storage_operation option" where
  "mvcc_operation self = do {
     operation_byte_offset \<leftarrow> seq_minus (length self) OPERATION_START_NEGATIVE_OFFSET;
     op_from (slice self operation_byte_offset (operation_byte_offset + op_serialised_len)) }"

definition mvcc_is_visible_to :: "bytes \<Rightarrow> seq \<Rightarrow> bool option" where
  "mvcc_is_visible_to self sequence_number = do {
     n \<leftarrow> mvcc_sequence_number self;
     Some (n \<le> sequence_number) }"

lemmas mvcc_lens = seq_serialised_len_def op_serialised_len_def OPERATION_START_NEGATIVE_OFFSET_def
  SEQUENCE_NUMBER_START_NEGATIVE_OFFSET_def

lemma mvcc_build_eq:
  "mvcc_build k s op = k @ seq_to_be_bytes (seq_invert s) @ op_bytes op"
  by (simp add: mvcc_build_def mvcc_lens copy_from_slice_def Let_def)

lemma length_mvcc_build [simp]: "length (mvcc_build k s op) = length k + 9"
  by (simp add: mvcc_build_eq)

lemma mvcc_key_build [simp]: "mvcc_key (mvcc_build k s op) = Some k"
  by (simp add: mvcc_key_def mvcc_build_eq mvcc_lens seq_minus_def slice_def)

lemma mvcc_sequence_number_build [simp]:
  "seq_ok s \<Longrightarrow> mvcc_sequence_number (mvcc_build k s op) = Some s"
  by (simp add: mvcc_sequence_number_def mvcc_build_eq mvcc_lens seq_minus_def slice_def)

lemma mvcc_operation_build [simp]: "mvcc_operation (mvcc_build k s op) = Some op"
  by (simp add: mvcc_operation_def mvcc_build_eq mvcc_lens seq_minus_def slice_def)

lemma mvcc_is_visible_to_build [simp]:
  "seq_ok s \<Longrightarrow> mvcc_is_visible_to (mvcc_build k s op) n = Some (s \<le> n)"
  by (simp add: mvcc_is_visible_to_def)

text \<open>A string that decodes without panicking is the encoding of what it decodes to.\<close>

lemma mvcc_build_decode:
  assumes "mvcc_key b = Some k" "mvcc_sequence_number b = Some s" "mvcc_operation b = Some op"
  shows "b = mvcc_build k s op \<and> seq_ok s"
proof -
  define n where "n = length b - 9"
  have len: "length b = n + 9" and k: "k = take n b"
    using assms(1) by (auto simp: mvcc_key_def mvcc_lens seq_minus_def slice_def n_def split: if_splits)
  obtain m where m: "seq_from_be_bytes (take 8 (drop n b)) = Some m" "s = seq_invert m"
    using assms(2) len
    by (auto simp: mvcc_sequence_number_def mvcc_lens seq_minus_def slice_def bind_eq_Some_conv)
  have "op_from (drop (n + 8) b) = Some op"
    using assms(3) len by (auto simp: mvcc_operation_def mvcc_lens seq_minus_def slice_def add.commute)
  then have op: "op_bytes op = drop (n + 8) b" by (rule op_bytes_from)
  have sq: "seq_to_be_bytes m = take 8 (drop n b)" "seq_ok m"
    using seq_to_from_be_bytes m(1) by blast+
  have "b = take n b @ take 8 (drop n b) @ drop 8 (drop n b)" by (simp del: drop_drop)
  then show ?thesis
    using k op sq m(2) by (simp add: mvcc_build_eq add.commute)
qed

text \<open>Two user keys are apart when they are equal or neither is a prefix of the other: the layouts of
  one keyspace are prefix-free because a vertex or edge type determines its width, or because the width
  is encoded.  Within such a set, versions of a key are contiguous and sorted newest first.\<close>

definition keys_apart :: "bytes \<Rightarrow> bytes \<Rightarrow> bool" where
  "keys_apart k k' = (k = k' \<or> \<not> prefix k k' \<and> \<not> prefix k' k)"

lemma keys_apart_sym: "keys_apart k k' \<Longrightarrow> keys_apart k' k"
  by (auto simp: keys_apart_def)

lemma keys_apart_same_length: "length k = length k' \<Longrightarrow> keys_apart k k'"
  by (auto simp: keys_apart_def prefix_def)

lemma mvcc_build_less_iff:
  assumes "keys_apart k k'" "seq_ok s" "seq_ok s'"
  shows "mvcc_build k s op < mvcc_build k' s' op' \<longleftrightarrow>
    k < k' \<or> k = k' \<and> (s' < s \<or> s' = s \<and> op = OpInsert \<and> op' = OpDelete)"
proof (cases "k = k'")
  case True
  then show ?thesis
    using assms
    by (auto simp: mvcc_build_eq lex_append_same_length seq_to_be_bytes_less seq_to_be_bytes_inj
        seq_invert_less seq_invert_inj op_bytes_less)
next
  case False
  then have "\<not> prefix k k'" "\<not> prefix k' k" using assms by (auto simp: keys_apart_def)
  then show ?thesis using False by (simp add: mvcc_build_eq lex_prefix_free)
qed

lemma mvcc_build_inj:
  assumes "seq_ok s" "seq_ok s'"
  shows "mvcc_build k s op = mvcc_build k' s' op' \<longleftrightarrow> k = k' \<and> s = s' \<and> op = op'"
  by (metis assms mvcc_key_build mvcc_sequence_number_build mvcc_operation_build option.inject)

section \<open>Properties\<close>

text \<open>The multi-version key layout \<^verbatim>\<open>[KEY][inverted SEQ][OP]\<close> is a bijection between its parts and the
  strings the accessors decode without panicking: building and then reading gives the parts back, and a
  string on which \<^verbatim>\<open>key\<close>, \<^verbatim>\<open>sequence_number\<close> and \<^verbatim>\<open>operation\<close> all return is the one built from them.\<close>

theorem mvcc_key_roundtrip:
  "(seq_ok s \<longrightarrow>
      mvcc_key (mvcc_build key s op) = Some key \<and>
      mvcc_sequence_number (mvcc_build key s op) = Some s \<and>
      mvcc_operation (mvcc_build key s op) = Some op) \<and>
   (mvcc_key b = Some key \<and> mvcc_sequence_number b = Some s \<and> mvcc_operation b = Some op \<longrightarrow>
      b = mvcc_build key s op)"
  using mvcc_build_decode by auto

theorem mvcc_key_roundtrip_witness:
  "mvcc_sequence_number (mvcc_build [7, 8] 300 OpDelete) = Some 300 \<and>
   [5, 0xFF, 0xFF, 0xFF, 0xFF, 0xFF, 0xFF, 0xFF, 0xFE, 0] = mvcc_build [5] 1 OpInsert"
proof -
  let ?b = "[5, 0xFF, 0xFF, 0xFF, 0xFF, 0xFF, 0xFF, 0xFF, 0xFE, 0] :: bytes"
  have "mvcc_key ?b = Some [5]" "mvcc_sequence_number ?b = Some 1" "mvcc_operation ?b = Some OpInsert"
    by (simp_all add: mvcc_key_def mvcc_sequence_number_def mvcc_operation_def mvcc_lens seq_minus_def
        slice_def seq_from_be_bytes_def be_decode_def seq_invert_def SEQ_MAX_def op_from_def)
  then show ?thesis
    using mvcc_key_roundtrip[of 300 "[7, 8]" OpDelete] mvcc_key_roundtrip[of 1 "[5]" OpInsert ?b]
    by (simp add: seq_ok_def)
qed

text \<open>C10: in key order, the versions of one user key are adjacent to each other and newest first, and
  versions of different keys are ordered as the keys are, whenever neither key is a prefix of the
  other.\<close>

theorem mvcc_order:
  assumes "keys_apart key key'" and "seq_ok s" and "seq_ok s'"
  shows "mvcc_build key s op < mvcc_build key' s' op' \<longleftrightarrow>
    key < key' \<or> key = key' \<and> (s > s' \<or> s = s' \<and> op = OpInsert \<and> op' = OpDelete)"
  using mvcc_build_less_iff[OF assms] by auto

theorem mvcc_order_witness:
  "mvcc_build [1, 2] 9 OpDelete < mvcc_build [1, 2] 8 OpInsert \<and>
   mvcc_build [1, 2] 8 OpInsert < mvcc_build [1, 3] 9 OpInsert"
  using mvcc_order[of "[1, 2]" "[1, 2]" 9 8 OpDelete OpInsert] mvcc_order[of "[1, 2]" "[1, 3]" 8 9 OpInsert OpInsert]
  by (simp add: seq_ok_def keys_apart_def)

text \<open>Without that separation the order of versions is not the order of keys: a version of a longer
  key that extends a shorter one sorts between two versions of the shorter key.\<close>

theorem mvcc_order_needs_separation:
  "\<exists>key key'. key \<noteq> key' \<and> prefix key key' \<and>
     mvcc_build key 5 OpInsert < mvcc_build key' 1 OpInsert \<and>
     mvcc_build key' 1 OpInsert < mvcc_build key 2 OpInsert"
proof (intro exI conjI)
  let ?k = "[1] :: bytes" and ?k' = "[1, 0xFF, 0xFF, 0xFF, 0xFF, 0xFF, 0xFF, 0xFF, 0xFB] :: bytes"
  show "mvcc_build ?k 5 OpInsert < mvcc_build ?k' 1 OpInsert"
    by (simp add: mvcc_build_eq seq_to_be_bytes_def be_encode_def seq_invert_def SEQ_MAX_def)
  show "mvcc_build ?k' 1 OpInsert < mvcc_build ?k 2 OpInsert"
    by (simp add: mvcc_build_eq seq_to_be_bytes_def be_encode_def seq_invert_def SEQ_MAX_def)
qed auto

end
