(* ===== verification/Buffer.thy ===== *)
theory Buffer
  imports KeyRange
begin

text \<open>
  The uncommitted writes of a snapshot: \<^verbatim>\<open>src/storage/snapshot/write.rs\<close>, \<^verbatim>\<open>lock.rs\<close> and \<^verbatim>\<open>buffer.rs\<close>.
  A write buffer is an ordered map from keys to writes, an operations buffer one write buffer per keyspace
  and an ordered map of locks.  The shared flag \<^verbatim>\<open>reinsert: Arc<AtomicBool>\<close> of a put is a field of the put.
\<close>

section \<open>Writes and locks\<close>

datatype buffered_write = Insert (wvalue: bytes) | Put (wvalue: bytes) (reinsert: bool) (known_to_exist: bool) | Delete

datatype write_category = CatInsert | CatPut | CatDelete

fun is_insert :: "buffered_write \<Rightarrow> bool" where
  "is_insert (Insert _) = True"
| "is_insert _ = False"

fun is_put :: "buffered_write \<Rightarrow> bool" where
  "is_put (Put _ _ _) = True"
| "is_put _ = False"

fun is_delete :: "buffered_write \<Rightarrow> bool" where
  "is_delete Delete = True"
| "is_delete _ = False"

fun get_value :: "buffered_write \<Rightarrow> bytes option" where
  "get_value (Insert value) = Some value"
| "get_value (Put value _ _) = Some value"
| "get_value Delete = None"

fun category :: "buffered_write \<Rightarrow> write_category" where
  "category (Insert _) = CatInsert"
| "category (Put _ _ _) = CatPut"
| "category Delete = CatDelete"

datatype lock_type = Unmodifiable | Exclusive

fun lock_key_loop :: "bytes \<Rightarrow> nat \<Rightarrow> bytes list \<Rightarrow> bytes" where
  "lock_key_loop bs start [] = bs"
| "lock_key_loop bs start (item # key_items) =
     (let end' = start + length item in
      lock_key_loop (take start bs @ item @ drop end' bs) end' key_items)"

definition create_custom_lock_key :: "bytes list \<Rightarrow> bytes" where
  "create_custom_lock_key key_items =
     (let total_len = sum_list (map length key_items) in lock_key_loop (replicate total_len 0) 0 key_items)"

lemma lock_key_loop_spec:
  "start + sum_list (map length items) \<le> length bs \<Longrightarrow>
   lock_key_loop bs start items = take start bs @ concat items @ drop (start + sum_list (map length items)) bs"
  by (induction items arbitrary: bs start) (auto simp: Let_def algebra_simps)

lemma create_custom_lock_key_concat: "create_custom_lock_key items = concat items"
  by (simp add: create_custom_lock_key_def lock_key_loop_spec length_concat)

lemma is_delete_get_value: "is_delete w \<longleftrightarrow> get_value w = None"
  by (cases w) auto

section \<open>The write buffer of a keyspace\<close>

type_synonym keyspace_id = nat

definition KEYSPACE_MAXIMUM_COUNT :: nat where "KEYSPACE_MAXIMUM_COUNT = 10"

record write_buffer =
  wb_keyspace_id :: keyspace_id
  wb_writes :: "(bytes, buffered_write) btree"

definition wb_new :: "keyspace_id \<Rightarrow> write_buffer" where
  "wb_new keyspace_id = \<lparr> wb_keyspace_id = keyspace_id, wb_writes = [] \<rparr>"

definition wb_is_empty :: "write_buffer \<Rightarrow> bool" where
  "wb_is_empty self = (wb_writes self = [])"

definition wb_insert :: "bytes \<Rightarrow> bytes \<Rightarrow> write_buffer \<Rightarrow> write_buffer" where
  "wb_insert key value self = self\<lparr> wb_writes := bt_insert key (Insert value) (wb_writes self) \<rparr>"

text \<open>\<^verbatim>\<open>uninsert\<close> and \<^verbatim>\<open>unput\<close> panic unless the buffer holds the very write they take back.\<close>

definition wb_uninsert :: "bytes \<Rightarrow> bytes \<Rightarrow> write_buffer \<Rightarrow> write_buffer option" where
  "wb_uninsert key expected_value self =
     (case bt_get (wb_writes self) key of
        Some (Insert value) \<Rightarrow>
          if value \<noteq> expected_value then None
          else Some (self\<lparr> wb_writes := bt_remove key (wb_writes self) \<rparr>)
      | Some _ \<Rightarrow> None
      | None \<Rightarrow> None)"

definition wb_put :: "bytes \<Rightarrow> bytes \<Rightarrow> write_buffer \<Rightarrow> write_buffer" where
  "wb_put key value self = self\<lparr> wb_writes := bt_insert key (Put value False False) (wb_writes self) \<rparr>"

definition wb_put_existing :: "bytes \<Rightarrow> bytes \<Rightarrow> write_buffer \<Rightarrow> write_buffer" where
  "wb_put_existing key value self = self\<lparr> wb_writes := bt_insert key (Put value False True) (wb_writes self) \<rparr>"

definition wb_unput :: "bytes \<Rightarrow> bytes \<Rightarrow> write_buffer \<Rightarrow> write_buffer option" where
  "wb_unput key expected_value self =
     (case bt_get (wb_writes self) key of
        Some (Put value _ _) \<Rightarrow>
          if value \<noteq> expected_value then None
          else Some (self\<lparr> wb_writes := bt_remove key (wb_writes self) \<rparr>)
      | Some _ \<Rightarrow> None
      | None \<Rightarrow> None)"

definition wb_delete :: "bytes \<Rightarrow> write_buffer \<Rightarrow> write_buffer" where
  "wb_delete key self = self\<lparr> wb_writes := bt_insert key Delete (wb_writes self) \<rparr>"

definition wb_contains :: "bytes \<Rightarrow> write_buffer \<Rightarrow> bool" where
  "wb_contains key self = (bt_get (wb_writes self) key \<noteq> None)"

definition wb_get :: "write_buffer \<Rightarrow> bytes \<Rightarrow> buffered_write option" where
  "wb_get self key = bt_get (wb_writes self) key"

definition wb_clear :: "write_buffer \<Rightarrow> write_buffer" where
  "wb_clear self = self\<lparr> wb_writes := [] \<rparr>"

section \<open>Range scans over a write buffer\<close>

text \<open>\<^verbatim>\<open>increment(..).unwrap()\<close>: the panic of an increment that overflows.\<close>

definition increment_unwrap :: "bytes \<Rightarrow> bytes option" where
  "increment_unwrap b = (case increment b of (b', Inr _) \<Rightarrow> Some b' | (_, Inl _) \<Rightarrow> None)"

fun range_start_as_bound :: "bytes range_start \<Rightarrow> bytes bound option" where
  "range_start_as_bound (Inclusive bytes) = Some (Included bytes)"
| "range_start_as_bound (ExcludeFirstWithPrefix bytes) = Some (Excluded bytes)"
| "range_start_as_bound (ExcludePrefix bytes) = map_option Included (increment_unwrap bytes)"

fun compute_exclusive_end :: "bytes range_start \<Rightarrow> bytes range_end \<Rightarrow> bytes option" where
  "compute_exclusive_end start WithinStartAsPrefix = increment_unwrap (start_value start)"
| "compute_exclusive_end start (EndPrefixInclusive value) = increment_unwrap value"
| "compute_exclusive_end start (EndPrefixExclusive value) = Some value"
| "compute_exclusive_end start UnboundedEnd = Some []"

text \<open>What \<^verbatim>\<open>iterate_range\<close> and \<^verbatim>\<open>any_not_deleted_in_range\<close> both compute: the entries between the bounds.\<close>

definition wb_range :: "bytes key_range \<Rightarrow> write_buffer \<Rightarrow> (bytes, buffered_write) btree option" where
  "wb_range rng self = do {
     exclusive_end_bytes \<leftarrow> compute_exclusive_end (kr_start rng) (kr_end rng);
     let end' = (if kr_end rng = UnboundedEnd then Unbounded else Excluded exclusive_end_bytes);
     start_as_bound \<leftarrow> range_start_as_bound (kr_start rng);
     bt_range start_as_bound end' (wb_writes self) }"

type_synonym storage_key = "keyspace_id \<times> bytes"

definition wb_iterate_range :: "bytes key_range \<Rightarrow> write_buffer \<Rightarrow> (storage_key \<times> buffered_write) list option" where
  "wb_iterate_range rng self =
     map_option (map (\<lambda>(key, val). ((wb_keyspace_id self, key), val))) (wb_range rng self)"

definition wb_any_not_deleted_in_range :: "bytes key_range \<Rightarrow> write_buffer \<Rightarrow> bool option" where
  "wb_any_not_deleted_in_range rng self =
     map_option (list_ex (\<lambda>(_, w). \<not> is_delete w)) (wb_range rng self)"

text \<open>\<^verbatim>\<open>BufferRangeIterator\<close> over the collected vector.\<close>

type_synonym buffer_range_iterator = "(storage_key \<times> buffered_write) list"

definition bri_peek :: "buffer_range_iterator \<Rightarrow> (storage_key \<times> buffered_write) option" where
  "bri_peek self = (case self of [] \<Rightarrow> None | x # _ \<Rightarrow> Some x)"

definition bri_next :: "buffer_range_iterator \<Rightarrow> (storage_key \<times> buffered_write) option \<times> buffer_range_iterator" where
  "bri_next self = (case self of [] \<Rightarrow> (None, []) | x # xs \<Rightarrow> (Some x, xs))"

fun bri_seek :: "bytes \<Rightarrow> buffer_range_iterator \<Rightarrow> buffer_range_iterator" where
  "bri_seek target [] = []"
| "bri_seek target (x # xs) = (if snd (fst x) < target then bri_seek target xs else x # xs)"

section \<open>The operations buffer\<close>

record operations_buffer =
  ob_write_buffers :: "write_buffer list"
  ob_locks :: "(bytes, lock_type) btree"

definition ob_new :: operations_buffer where
  "ob_new = \<lparr> ob_write_buffers = map wb_new [0..<KEYSPACE_MAXIMUM_COUNT], ob_locks = [] \<rparr>"

definition ob_is_writes_empty :: "operations_buffer \<Rightarrow> bool" where
  "ob_is_writes_empty self = list_all wb_is_empty (ob_write_buffers self)"

definition ob_writes_in :: "keyspace_id \<Rightarrow> operations_buffer \<Rightarrow> write_buffer option" where
  "ob_writes_in ks self =
     (if ks < length (ob_write_buffers self) then Some (ob_write_buffers self ! ks) else None)"

definition ob_writes_in_mut ::
    "keyspace_id \<Rightarrow> (write_buffer \<Rightarrow> write_buffer) \<Rightarrow> operations_buffer \<Rightarrow> operations_buffer option" where
  "ob_writes_in_mut ks f self = do {
     buffer \<leftarrow> ob_writes_in ks self;
     Some (self\<lparr> ob_write_buffers := (ob_write_buffers self)[ks := f buffer] \<rparr>) }"

definition ob_lock_add :: "bytes \<Rightarrow> lock_type \<Rightarrow> operations_buffer \<Rightarrow> operations_buffer" where
  "ob_lock_add key lock_type self = self\<lparr> ob_locks := bt_insert key lock_type (ob_locks self) \<rparr>"

definition ob_lock_remove :: "bytes \<Rightarrow> operations_buffer \<Rightarrow> operations_buffer" where
  "ob_lock_remove key self = self\<lparr> ob_locks := bt_remove key (ob_locks self) \<rparr>"

definition ob_locks_empty :: "operations_buffer \<Rightarrow> bool" where
  "ob_locks_empty self = (ob_locks self = [])"

fun concat_options :: "'a list option list \<Rightarrow> 'a list option" where
  "concat_options [] = Some []"
| "concat_options (x # xs) = do { a \<leftarrow> x; b \<leftarrow> concat_options xs; Some (a @ b) }"

definition ob_iterate_writes :: "operations_buffer \<Rightarrow> (storage_key \<times> buffered_write) list option" where
  "ob_iterate_writes self =
     concat_options (map (wb_iterate_range (new_unbounded (Inclusive []))) (ob_write_buffers self))"

definition ob_clear :: "operations_buffer \<Rightarrow> operations_buffer" where
  "ob_clear self = self\<lparr> ob_locks := [], ob_write_buffers := map wb_clear (ob_write_buffers self) \<rparr>"

definition ob_len :: "operations_buffer \<Rightarrow> nat" where
  "ob_len self = sum_list (map (\<lambda>w. length (wb_writes w)) (ob_write_buffers self))"

section \<open>Invariants\<close>

definition wb_wf :: "write_buffer \<Rightarrow> bool" where
  "wb_wf wb = bt_wf (wb_writes wb)"

definition ob_wf :: "operations_buffer \<Rightarrow> bool" where
  "ob_wf ob \<longleftrightarrow> length (ob_write_buffers ob) = KEYSPACE_MAXIMUM_COUNT \<and> bt_wf (ob_locks ob) \<and>
     (\<forall>i < KEYSPACE_MAXIMUM_COUNT. wb_keyspace_id (ob_write_buffers ob ! i) = i \<and> wb_wf (ob_write_buffers ob ! i))"

lemma wb_wf_ops [simp, inv_intros]:
  "wb_wf (wb_new ks)"
  "wb_wf wb \<Longrightarrow> wb_wf (wb_insert k v wb)"
  "wb_wf wb \<Longrightarrow> wb_wf (wb_put k v wb)"
  "wb_wf wb \<Longrightarrow> wb_wf (wb_put_existing k v wb)"
  "wb_wf wb \<Longrightarrow> wb_wf (wb_delete k wb)"
  "wb_wf (wb_clear wb)"
  by (auto simp: wb_wf_def wb_new_def wb_insert_def wb_put_def wb_put_existing_def wb_delete_def wb_clear_def)

lemma wb_wf_undo [inv_intros]:
  "wb_wf wb \<Longrightarrow> wb_uninsert k v wb = Some wb' \<Longrightarrow> wb_wf wb'"
  "wb_wf wb \<Longrightarrow> wb_unput k v wb = Some wb' \<Longrightarrow> wb_wf wb'"
  by (auto simp: wb_wf_def wb_uninsert_def wb_unput_def split: option.splits buffered_write.splits if_splits)

lemma wb_keyspace_id_ops [simp]:
  "wb_keyspace_id (wb_new ks) = ks"
  "wb_keyspace_id (wb_insert k v wb) = wb_keyspace_id wb"
  "wb_keyspace_id (wb_put k v wb) = wb_keyspace_id wb"
  "wb_keyspace_id (wb_put_existing k v wb) = wb_keyspace_id wb"
  "wb_keyspace_id (wb_delete k wb) = wb_keyspace_id wb"
  "wb_keyspace_id (wb_clear wb) = wb_keyspace_id wb"
  by (auto simp: wb_new_def wb_insert_def wb_put_def wb_put_existing_def wb_delete_def wb_clear_def)

lemma wb_get_ops [simp]:
  "wb_get (wb_new ks) = (\<lambda>_. None)"
  "wb_get (wb_insert k v wb) = (wb_get wb)(k \<mapsto> Insert v)"
  "wb_get (wb_put k v wb) = (wb_get wb)(k \<mapsto> Put v False False)"
  "wb_get (wb_put_existing k v wb) = (wb_get wb)(k \<mapsto> Put v False True)"
  "wb_get (wb_delete k wb) = (wb_get wb)(k \<mapsto> Delete)"
  "wb_get (wb_clear wb) = (\<lambda>_. None)"
  by (auto simp: wb_get_def wb_new_def wb_insert_def wb_put_def wb_put_existing_def wb_delete_def wb_clear_def)

lemma ob_wf_new [simp, inv_intros]: "ob_wf ob_new"
  by (auto simp: ob_wf_def ob_new_def)

lemma ob_wf_lock_add [simp, inv_intros]: "ob_wf ob \<Longrightarrow> ob_wf (ob_lock_add k l ob)"
  by (simp add: ob_wf_def ob_lock_add_def)

lemma ob_wf_lock_remove [simp, inv_intros]: "ob_wf ob \<Longrightarrow> ob_wf (ob_lock_remove k ob)"
  by (simp add: ob_wf_def ob_lock_remove_def)

lemma ob_wf_clear [simp, inv_intros]: "ob_wf ob \<Longrightarrow> ob_wf (ob_clear ob)"
  by (auto simp: ob_wf_def ob_clear_def)

lemma ob_writes_in_wf:
  "ob_wf ob \<Longrightarrow> ob_writes_in ks ob = Some wb \<longleftrightarrow> ks < KEYSPACE_MAXIMUM_COUNT \<and> wb = ob_write_buffers ob ! ks"
  by (auto simp: ob_wf_def ob_writes_in_def)

lemma ob_wf_writes_in_mut [inv_intros]:
  assumes "ob_wf ob" "ob_writes_in_mut ks f ob = Some ob'"
    and "\<And>wb. wb_wf wb \<Longrightarrow> wb_wf (f wb)" "\<And>wb. wb_keyspace_id (f wb) = wb_keyspace_id wb"
  shows "ob_wf ob'"
  using assms by (auto simp: ob_wf_def ob_writes_in_mut_def ob_writes_in_def nth_list_update split: if_splits)

section \<open>Range scans return the range\<close>

lemma increment_unwrap_Some: "increment_unwrap b = Some b' \<longleftrightarrow> increment b = (b', Inr ())"
proof (cases "increment b")
  case (Pair x r)
  then show ?thesis by (cases r) (auto simp: increment_unwrap_def)
qed

lemma increment_unwrap_defined: "(\<exists>b'. increment_unwrap b = Some b') \<longleftrightarrow> (\<exists>x\<in>set b. x \<noteq> 0xFF)"
  unfolding increment_unwrap_Some increment_Ok_iff[symmetric] by (cases "increment b") auto

lemma lower_bound_admits:
  assumes "range_start_as_bound start = Some b" "length (start_value start) \<le> length k"
  shows "lower_admits b k = start_admits start k"
proof (cases start)
  case (ExcludePrefix s)
  then obtain s' where s': "increment s = (s', Inr ())" "b = Included s'"
    using assms(1) by (auto simp: increment_unwrap_Some)
  have "s' \<le> k \<longleftrightarrow> \<not> k < s'" by auto
  also have "\<dots> \<longleftrightarrow> s < take (length s) k"
    using less_increment_iff[OF s'(1), of k] assms(2) ExcludePrefix by auto
  finally show ?thesis using s' ExcludePrefix by simp
qed (use assms in auto)

lemma less_iff_take_less: "length e \<le> length k \<Longrightarrow> k < e \<longleftrightarrow> take (length e) k < (e::bytes)"
proof -
  assume "length e \<le> length k"
  then have "take (length e) k @ drop (length e) k < e @ [] \<longleftrightarrow> take (length e) k < e"
    by (subst lex_append_same_length) auto
  then show ?thesis by simp
qed

lemma upper_bound_admits:
  assumes "compute_exclusive_end start end' = Some b" "length (start_value start) \<le> length k"
    and "\<And>e. end_value end' = Some e \<Longrightarrow> length e \<le> length k"
  shows "upper_admits (if end' = UnboundedEnd then Unbounded else Excluded b) k = end_admits start end' k"
proof (cases end')
  case (EndPrefixExclusive e)
  then show ?thesis using assms less_iff_take_less[of e k] by simp
qed (use assms in \<open>auto simp: increment_unwrap_Some less_increment_iff\<close>)

lemma wb_range_spec:
  assumes "wb_range rng wb = Some r" "\<And>k. k \<in> fst ` set (wb_writes wb) \<Longrightarrow> covers_ends rng k"
  shows "r = bt_filter (range_contains rng) (wb_writes wb)"
proof -
  obtain b lo where b: "compute_exclusive_end (kr_start rng) (kr_end rng) = Some b"
      "range_start_as_bound (kr_start rng) = Some lo"
      "bt_range lo (if kr_end rng = UnboundedEnd then Unbounded else Excluded b) (wb_writes wb) = Some r"
    using assms(1) by (auto simp: wb_range_def bind_eq_Some_conv Let_def)
  show ?thesis
    unfolding bt_range_SomeD[OF b(3)] bt_filter_def
    using assms(2) lower_bound_admits[OF b(2)] upper_bound_admits[OF b(1)]
    by (intro filter_cong refl) (fastforce simp: covers_ends_def range_contains_def)
qed

text \<open>A scan within a prefix panics only when the prefix has no successor of its width.\<close>

lemma wb_range_within_defined:
  assumes "\<exists>x\<in>set p. x \<noteq> 0xFF"
  shows "\<exists>r. wb_range (new_within p fw) wb = Some r"
proof -
  obtain q where q: "increment p = (q, Inr ())"
    using assms increment_unwrap_defined increment_unwrap_Some by blast
  then have "p < q" by (rule increment_greater)
  then show ?thesis
    using q by (simp add: wb_range_def new_within_def bt_range_def bounds_panic_def Let_def
        increment_unwrap_Some[THEN iffD2])
qed

lemma bri_seek_filter:
  "sorted_wrt (\<lambda>x y. snd (fst x) < snd (fst y)) it \<Longrightarrow>
   bri_seek target it = filter (\<lambda>x. target \<le> snd (fst x)) it"
proof (induction it)
  case (Cons x xs)
  have "filter (\<lambda>y. target \<le> snd (fst y)) xs = xs" if "target \<le> snd (fst x)"
    using that Cons.prems by (auto simp: filter_id_conv)
  then show ?case using Cons by auto
qed simp

lemma sorted_wb_iterate_range:
  "wb_wf wb \<Longrightarrow> wb_iterate_range rng wb = Some it \<Longrightarrow> sorted_wrt (\<lambda>x y. snd (fst x) < snd (fst y)) it"
  by (auto simp: wb_iterate_range_def wb_range_def wb_wf_def bind_eq_Some_conv Let_def bt_wf_def
      sorted_wrt_map bt_filter_def case_prod_unfold sorted_wrt_filter dest!: bt_range_SomeD)

section \<open>Properties\<close>

text \<open>A range scan over the write buffer returns, in key order, exactly the buffered writes whose key
  lies in the range, for every kind of range start and end, provided the buffered keys are at least as
  long as the ends of the range; and a scan within a prefix panics only if the prefix is made of 0xFF
  bytes.\<close>

theorem buffer_scan_correct:
  assumes "wb_wf wb" and "\<forall>k \<in> fst ` set (wb_writes wb). covers_ends rng k"
  shows "(wb_iterate_range rng wb = Some it \<longrightarrow>
            it = map (\<lambda>(k, w). ((wb_keyspace_id wb, k), w)) (bt_filter (range_contains rng) (wb_writes wb)) \<and>
            sorted_wrt (\<lambda>x y. snd (fst x) < snd (fst y)) it) \<and>
         (rng = new_within p fw \<and> (\<exists>x \<in> set p. x \<noteq> 0xFF) \<longrightarrow> wb_iterate_range rng wb \<noteq> None)"
proof (intro conjI impI)
  assume it: "wb_iterate_range rng wb = Some it"
  then obtain r where "wb_range rng wb = Some r" by (auto simp: wb_iterate_range_def)
  then show "it = map (\<lambda>(k, w). ((wb_keyspace_id wb, k), w)) (bt_filter (range_contains rng) (wb_writes wb))"
    using it wb_range_spec[of rng wb r] assms(2) by (simp add: wb_iterate_range_def)
  show "sorted_wrt (\<lambda>x y. snd (fst x) < snd (fst y)) it"
    using sorted_wb_iterate_range assms(1) it by blast
qed (use wb_range_within_defined[of p fw wb] in \<open>auto simp: wb_iterate_range_def\<close>)

theorem buffer_scan_correct_witness:
  "wb_iterate_range (new_within [1] False) (wb_delete [2, 0] (wb_insert [1, 7] [9] (wb_insert [1, 3] [8] (wb_new 4)))) =
     Some [((4, [1, 3]), Insert [8]), ((4, [1, 7]), Insert [9])]"
proof -
  let ?wb = "wb_delete [2, 0] (wb_insert [1, 7] [9] (wb_insert [1, 3] [8] (wb_new 4)))"
  let ?rng = "new_within [1] False :: bytes key_range"
  have c: "\<forall>k \<in> fst ` set (wb_writes ?wb). covers_ends ?rng k"
    by (simp add: wb_delete_def wb_insert_def wb_new_def covers_ends_def new_within_def)
  have "wb_iterate_range ?rng ?wb \<noteq> None"
    using buffer_scan_correct[OF _ c, of undefined "[1]" False] by simp
  then obtain it where it: "wb_iterate_range ?rng ?wb = Some it" by auto
  then have "it = map (\<lambda>(k, w). ((wb_keyspace_id ?wb, k), w)) (bt_filter (range_contains ?rng) (wb_writes ?wb))"
    using buffer_scan_correct[OF _ c, of it "[1]" False] by simp
  then show ?thesis
    using it by (simp add: bt_filter_def range_contains_within starts_with_def)
      (simp add: wb_delete_def wb_insert_def wb_new_def)
qed

end
