(* ===== verification/Backend.thy ===== *)
theory Backend
  imports KeyRange MvccKey Buffer
begin

text \<open>
  The key-value backend: the interface \<^verbatim>\<open>KeyValueBackend\<close> (\<^verbatim>\<open>src/storage/keyspace/backend.rs\<close>) as the locale
  \<open>kv_backend\<close>, its in-memory implementation (\<^verbatim>\<open>memory_backend.rs\<close>) and the range iterator over it
  (\<^verbatim>\<open>memory_iterator.rs\<close>), and the write batches a commit hands to it (\<^verbatim>\<open>src/storage/write_batches.rs\<close>).
  The data lock of the in-memory backend can be poisoned by a panicking thread; the flag \<open>mb_poisoned\<close>
  records that, and every operation then returns the error the source returns.
\<close>

section \<open>Write batches\<close>

datatype write_op = WPut bytes bytes | WDelete bytes

type_synonym memory_write_batch = "write_op list"

definition batch_put :: "bytes \<Rightarrow> bytes \<Rightarrow> memory_write_batch \<Rightarrow> memory_write_batch" where
  "batch_put key value operations = operations @ [WPut key value]"

definition batch_delete :: "bytes \<Rightarrow> memory_write_batch \<Rightarrow> memory_write_batch" where
  "batch_delete key operations = operations @ [WDelete key]"

text \<open>\<^verbatim>\<open>WriteBatches::from_operations\<close>: the batch of one write buffer, and one optional batch per keyspace.\<close>

fun add_write :: "seq \<Rightarrow> bytes \<times> buffered_write \<Rightarrow> memory_write_batch \<Rightarrow> memory_write_batch" where
  "add_write s (key, Insert value) write_batch = batch_put (mvcc_build key s OpInsert) value write_batch"
| "add_write s (key, Put value re _) write_batch =
     (if re then batch_put (mvcc_build key s OpInsert) value write_batch else write_batch)"
| "add_write s (key, Delete) write_batch = batch_put (mvcc_build key s OpDelete) [] write_batch"

type_synonym write_batches = "memory_write_batch option list"

definition from_operations :: "seq \<Rightarrow> operations_buffer \<Rightarrow> write_batches" where
  "from_operations s operations =
     map (\<lambda>buffer. if wb_writes buffer = [] then None else Some (fold (add_write s) (wb_writes buffer) []))
       (ob_write_buffers operations)"

text \<open>\<^verbatim>\<open>into_iter\<close>: the keyspaces that have a batch, with their index.\<close>

definition batches_iter :: "write_batches \<Rightarrow> (nat \<times> memory_write_batch) list" where
  "batches_iter bs = concat (map (\<lambda>(i, b). case b of None \<Rightarrow> [] | Some w \<Rightarrow> [(i, w)]) (enumerate 0 bs))"

section \<open>The in-memory backend\<close>

datatype memory_backend_error = LockPoisoned | ImportDataMalformed

record memory_backend =
  mb_data :: "(bytes, bytes) btree"
  mb_poisoned :: bool

definition mb_new :: memory_backend where
  "mb_new = \<lparr> mb_data = [], mb_poisoned = False \<rparr>"

definition mb_len :: "memory_backend \<Rightarrow> nat" where
  "mb_len self = (if mb_poisoned self then 0 else length (mb_data self))"

definition mb_put :: "bytes \<Rightarrow> bytes \<Rightarrow> memory_backend \<Rightarrow> memory_backend_error + memory_backend" where
  "mb_put key value self =
     (if mb_poisoned self then Inl LockPoisoned
      else Inr (self\<lparr> mb_data := bt_insert key value (mb_data self) \<rparr>))"

definition mb_get :: "memory_backend \<Rightarrow> bytes \<Rightarrow> memory_backend_error + bytes option" where
  "mb_get self key = (if mb_poisoned self then Inl LockPoisoned else Inr (bt_get (mb_data self) key))"

text \<open>\<^verbatim>\<open>range(..=key).next_back()\<close>.\<close>

definition mb_get_prev :: "memory_backend \<Rightarrow> bytes \<Rightarrow> (bytes \<times> bytes) option" where
  "mb_get_prev self key =
     (if mb_poisoned self then None
      else (case rev (bt_filter (\<lambda>k. k \<le> key) (mb_data self)) of [] \<Rightarrow> None | e # _ \<Rightarrow> Some e))"

fun apply_op :: "write_op \<Rightarrow> (bytes, bytes) btree \<Rightarrow> (bytes, bytes) btree" where
  "apply_op (WPut key value) data = bt_insert key value data"
| "apply_op (WDelete key) data = bt_remove key data"

definition mb_write_batch :: "memory_write_batch \<Rightarrow> memory_backend \<Rightarrow> memory_backend_error + memory_backend" where
  "mb_write_batch operations self =
     (if mb_poisoned self then Inl LockPoisoned
      else Inr (self\<lparr> mb_data := fold apply_op operations (mb_data self) \<rparr>))"

definition mb_reset :: "memory_backend \<Rightarrow> memory_backend_error + memory_backend" where
  "mb_reset self = (if mb_poisoned self then Inl LockPoisoned else Inr (self\<lparr> mb_data := [] \<rparr>))"

definition mb_estimate_size_bytes :: "memory_backend \<Rightarrow> memory_backend_error + nat" where
  "mb_estimate_size_bytes self =
     (if mb_poisoned self then Inl LockPoisoned
      else Inr (sum_list (map (\<lambda>(k, v). length k + length v) (mb_data self))))"

definition mb_estimate_key_count :: "memory_backend \<Rightarrow> memory_backend_error + nat" where
  "mb_estimate_key_count self =
     (if mb_poisoned self then Inl LockPoisoned else Inr (length (mb_data self)))"

section \<open>Export and import\<close>

definition export_entry :: "bytes \<times> bytes \<Rightarrow> bytes" where
  "export_entry e = (case e of (key, value) \<Rightarrow>
     le_encode 4 (length key) @ le_encode 4 (length value) @ key @ value)"

definition export_data :: "memory_backend \<Rightarrow> memory_backend_error + bytes" where
  "export_data self =
     (if mb_poisoned self then Inl LockPoisoned else Inr (concat (map export_entry (mb_data self))))"

function import_loop :: "bytes \<Rightarrow> nat \<Rightarrow> (bytes, bytes) btree \<Rightarrow> memory_backend_error + (bytes, bytes) btree" where
  "import_loop bytes pos new_data =
     (if pos < length bytes then
        if pos + 8 > length bytes then Inl ImportDataMalformed
        else
          let key_len = le_decode (slice bytes pos (pos + 4));
              value_len = le_decode (slice bytes (pos + 4) (pos + 8));
              pos = pos + 8
          in if pos + key_len + value_len > length bytes then Inl ImportDataMalformed
             else
               let key = slice bytes pos (pos + key_len);
                   pos = pos + key_len;
                   value = slice bytes pos (pos + value_len);
                   pos = pos + value_len
               in import_loop bytes pos (bt_insert key value new_data)
      else Inr new_data)"
  by auto
termination
  by (relation "measure (\<lambda>(bytes, pos, _). length bytes - pos)") auto

declare import_loop.simps [simp del]

definition import_data :: "bytes \<Rightarrow> memory_backend \<Rightarrow> memory_backend_error + memory_backend" where
  "import_data bytes self =
     (case import_loop bytes 0 [] of
        Inl e \<Rightarrow> Inl e
      | Inr new_data \<Rightarrow>
          if mb_poisoned self then Inl LockPoisoned else Inr (self\<lparr> mb_data := new_data \<rparr>))"

section \<open>Iterators\<close>

record memory_iterator =
  mi_entries :: "(bytes \<times> bytes) list"
  mi_position :: nat

text \<open>\<^verbatim>\<open>create_iterator\<close> unwraps the lock.\<close>

definition create_iterator :: "bytes \<Rightarrow> memory_backend \<Rightarrow> memory_iterator option" where
  "create_iterator start_key self =
     (if mb_poisoned self then None
      else Some \<lparr> mi_entries = bt_filter (\<lambda>k. start_key \<le> k) (mb_data self), mi_position = 0 \<rparr>)"

text \<open>\<^verbatim>\<open>partition_point\<close> on a partitioned vector: the length of its leading true part.\<close>

definition mi_seek :: "bytes \<Rightarrow> memory_iterator \<Rightarrow> memory_iterator" where
  "mi_seek key self =
     self\<lparr> mi_position := length (takeWhile (\<lambda>(k, _). k < key) (mi_entries self)) \<rparr>"

definition mi_next :: "memory_iterator \<Rightarrow> (bytes \<times> bytes) option \<times> memory_iterator" where
  "mi_next self =
     (if length (mi_entries self) \<le> mi_position self then (None, self)
      else (Some (mi_entries self ! mi_position self), self\<lparr> mi_position := mi_position self + 1 \<rparr>))"

datatype continue_condition =
    ExactPrefix bytes
  | CondEndPrefixInclusive bytes
  | CondEndPrefixExclusive bytes
  | Always

record range_iterator =
  ri_iterator :: memory_iterator
  ri_continue_condition :: continue_condition
  ri_is_finished :: bool

text \<open>\<^verbatim>\<open>may_skip_start\<close> has an empty body in the source.\<close>

definition may_skip_start :: "memory_iterator \<Rightarrow> bytes \<Rightarrow> memory_iterator" where
  "may_skip_start iterator excluded_value = iterator"

fun range_start_prefix :: "bytes range_start \<Rightarrow> bytes option" where
  "range_start_prefix (Inclusive bytes) = Some bytes"
| "range_start_prefix (ExcludeFirstWithPrefix bytes) = Some bytes"
| "range_start_prefix (ExcludePrefix bytes) = increment_unwrap bytes"

fun continue_condition_of :: "bytes range_start \<Rightarrow> bytes range_end \<Rightarrow> continue_condition" where
  "continue_condition_of start WithinStartAsPrefix = ExactPrefix (start_value start)"
| "continue_condition_of start (EndPrefixInclusive e) = CondEndPrefixInclusive e"
| "continue_condition_of start (EndPrefixExclusive e) = CondEndPrefixExclusive e"
| "continue_condition_of start UnboundedEnd = Always"

definition range_iterator_new :: "memory_iterator \<Rightarrow> bytes key_range \<Rightarrow> range_iterator option" where
  "range_iterator_new iterator rng = do {
     start_prefix \<leftarrow> range_start_prefix (kr_start rng);
     let iterator = mi_seek start_prefix iterator;
     let iterator = (case kr_start rng of
         ExcludeFirstWithPrefix v \<Rightarrow> may_skip_start iterator v | _ \<Rightarrow> iterator);
     Some \<lparr> ri_iterator = iterator, ri_continue_condition = continue_condition_of (kr_start rng) (kr_end rng),
            ri_is_finished = False \<rparr> }"

text \<open>\<^verbatim>\<open>key[0..end.len()]\<close> panics when the key is shorter than the end.\<close>

fun accept_value :: "continue_condition \<Rightarrow> bytes \<Rightarrow> bool option" where
  "accept_value (ExactPrefix prefix') key = Some (starts_with key prefix')"
| "accept_value (CondEndPrefixInclusive end_inclusive) key =
     (if starts_with end_inclusive key then Some True
      else if length end_inclusive \<le> length key then Some (slice key 0 (length end_inclusive) \<le> end_inclusive)
      else None)"
| "accept_value (CondEndPrefixExclusive end_exclusive) key =
     (if starts_with end_exclusive key then Some True
      else if length end_exclusive \<le> length key then Some (slice key 0 (length end_exclusive) < end_exclusive)
      else None)"
| "accept_value Always key = Some True"

definition ri_next :: "range_iterator \<Rightarrow> ((bytes \<times> bytes) option \<times> range_iterator) option" where
  "ri_next self =
     (if ri_is_finished self then Some (None, self)
      else case mi_next (ri_iterator self) of (next', iterator) \<Rightarrow> do {
        item \<leftarrow> (case next' of
            None \<Rightarrow> Some None
          | Some kv \<Rightarrow> do {
              accepted \<leftarrow> accept_value (ri_continue_condition self) (fst kv);
              Some (if accepted then Some kv else None) });
        let self = self\<lparr> ri_iterator := iterator \<rparr>;
        Some (item, if item = None then self\<lparr> ri_is_finished := True \<rparr> else self) })"

definition ri_seek :: "bytes \<Rightarrow> range_iterator \<Rightarrow> range_iterator" where
  "ri_seek key self =
     (if \<not> ri_is_finished self then self\<lparr> ri_iterator := mi_seek key (ri_iterator self) \<rparr> else self)"

text \<open>Draining an iterator by repeated \<^verbatim>\<open>next\<close>; the fuel is the number of calls.\<close>

fun ri_collect :: "nat \<Rightarrow> range_iterator \<Rightarrow> (bytes \<times> bytes) list option" where
  "ri_collect 0 self = None"
| "ri_collect (Suc fuel) self =
     (case ri_next self of
        None \<Rightarrow> None
      | Some (None, _) \<Rightarrow> Some []
      | Some (Some kv, self') \<Rightarrow> map_option (Cons kv) (ri_collect fuel self'))"


section \<open>The backend interface\<close>

text \<open>What the storage layer relies on: lookups see the last write, a batch applies its operations in
  order, and a scan from a key yields, in key order, exactly the entries at or after it.\<close>

fun op_effect :: "write_op \<Rightarrow> (bytes \<rightharpoonup> bytes) \<Rightarrow> (bytes \<rightharpoonup> bytes)" where
  "op_effect (WPut key value) m = m(key \<mapsto> value)"
| "op_effect (WDelete key) m = m(key := None)"

fun op_key :: "write_op \<Rightarrow> bytes" where
  "op_key (WPut key _) = key"
| "op_key (WDelete key) = key"

locale kv_backend =
  fixes inv :: "'s \<Rightarrow> bool"
    and contents :: "'s \<Rightarrow> bytes \<rightharpoonup> bytes"
    and get :: "'s \<Rightarrow> bytes \<Rightarrow> 'e + bytes option"
    and put :: "bytes \<Rightarrow> bytes \<Rightarrow> 's \<Rightarrow> 'e + 's"
    and write_batch :: "write_op list \<Rightarrow> 's \<Rightarrow> 'e + 's"
    and scan :: "bytes \<Rightarrow> 's \<Rightarrow> (bytes \<times> bytes) list"
  assumes get_contents: "inv s \<Longrightarrow> get s k = Inr (contents s k)"
    and put_contents: "inv s \<Longrightarrow> \<exists>s'. put k v s = Inr s' \<and> inv s' \<and> contents s' = (contents s)(k \<mapsto> v)"
    and batch_contents:
      "inv s \<Longrightarrow> \<exists>s'. write_batch ops s = Inr s' \<and> inv s' \<and> contents s' = fold op_effect ops (contents s)"
    and scan_sorted: "inv s \<Longrightarrow> bt_wf (scan start s)"
    and scan_contents: "inv s \<Longrightarrow> bt_get (scan start s) = (\<lambda>k. if start \<le> k then contents s k else None)"
begin

lemma get_after_put: "inv s \<Longrightarrow> put k v s = Inr s' \<Longrightarrow> get s' k' = (if k' = k then Inr (Some v) else get s k')"
  using put_contents[of s k v] get_contents[of s] get_contents[of s'] by auto

lemma fold_effect_other: "k \<notin> op_key ` set ops \<Longrightarrow> fold op_effect ops m k = m k"
proof (induction ops arbitrary: m)
  case (Cons op ops)
  then show ?case by (cases op) auto
qed simp

text \<open>A batch leaves every key it does not name as it was.\<close>

lemma batch_frame:
  assumes "inv s" "write_batch ops s = Inr s'" "k \<notin> op_key ` set ops"
  shows "get s' k = get s k"
  using batch_contents[OF assms(1), of ops] assms get_contents[of s] get_contents[of s'] fold_effect_other[OF assms(3)]
  by auto

text \<open>Batches compose: writing two batches is writing their concatenation.\<close>

lemma batch_append:
  assumes "inv s" "write_batch ops s = Inr s1" "write_batch ops' s1 = Inr s2" "write_batch (ops @ ops') s = Inr s3"
  shows "contents s2 = contents s3"
proof -
  have "inv s1" "contents s1 = fold op_effect ops (contents s)"
    using batch_contents[OF assms(1), of ops] assms(2) by auto
  then show ?thesis
    using batch_contents[of s1 ops'] batch_contents[OF assms(1), of "ops @ ops'"] assms(3,4) by auto
qed

text \<open>A scan is determined by what the backend holds.\<close>

lemma scan_cong: "inv s \<Longrightarrow> inv s' \<Longrightarrow> contents s = contents s' \<Longrightarrow> scan start s = scan start s'"
  by (intro bt_ext) (auto simp: scan_sorted scan_contents)

lemma scan_from_later: "inv s \<Longrightarrow> start \<le> start' \<Longrightarrow> scan start' s = bt_filter (\<lambda>k. start' \<le> k) (scan start s)"
  by (intro bt_ext) (auto simp: scan_sorted scan_contents fun_eq_iff)

end

section \<open>The in-memory backend implements the interface\<close>

definition mb_inv :: "memory_backend \<Rightarrow> bool" where
  "mb_inv mb \<longleftrightarrow> \<not> mb_poisoned mb \<and> bt_wf (mb_data mb)"

definition mb_contents :: "memory_backend \<Rightarrow> bytes \<rightharpoonup> bytes" where
  "mb_contents mb = bt_get (mb_data mb)"

definition mb_scan :: "bytes \<Rightarrow> memory_backend \<Rightarrow> (bytes \<times> bytes) list" where
  "mb_scan start mb = (case create_iterator start mb of None \<Rightarrow> [] | Some it \<Rightarrow> drop (mi_position it) (mi_entries it))"

lemma bt_wf_apply_op [simp]: "bt_wf m \<Longrightarrow> bt_wf (apply_op op m)"
  by (cases op) auto

lemma bt_wf_fold_apply_op [simp]: "bt_wf m \<Longrightarrow> bt_wf (fold apply_op ops m)"
  by (induction ops arbitrary: m) auto

lemma bt_get_apply_op [simp]: "bt_get (apply_op op m) = op_effect op (bt_get m)"
  by (cases op) auto

lemma bt_get_fold_apply_op: "bt_get (fold apply_op ops m) = fold op_effect ops (bt_get m)"
  by (induction ops arbitrary: m) auto

lemma mb_put_contents:
  "mb_inv s \<Longrightarrow> \<exists>s'. mb_put k v s = Inr s' \<and> mb_inv s' \<and> mb_contents s' = (mb_contents s)(k \<mapsto> v)"
  by (auto simp: mb_inv_def mb_put_def mb_contents_def)

lemma mb_batch_contents:
  "mb_inv s \<Longrightarrow> \<exists>s'. mb_write_batch ops s = Inr s' \<and> mb_inv s' \<and> mb_contents s' = fold op_effect ops (mb_contents s)"
  by (auto simp: mb_inv_def mb_write_batch_def mb_contents_def bt_get_fold_apply_op)

interpretation memory: kv_backend mb_inv mb_contents mb_get mb_put mb_write_batch mb_scan
proof
  fix s start
  assume "mb_inv s"
  then show "bt_get (mb_scan start s) = (\<lambda>k. if start \<le> k then mb_contents s k else None)"
    by (auto simp: fun_eq_iff mb_inv_def mb_scan_def create_iterator_def mb_contents_def)
qed (use mb_put_contents mb_batch_contents in
      \<open>auto simp: mb_inv_def mb_get_def mb_contents_def mb_scan_def create_iterator_def\<close>)

text \<open>\<^verbatim>\<open>get_prev\<close> returns the greatest entry at or below the key.\<close>

lemma bt_wf_last:
  assumes "bt_wf (m @ [e])" "x \<in> set (m @ [e])"
  shows "fst x \<le> fst e"
  using assms by auto

lemma mb_get_prev_spec:
  assumes "mb_inv mb"
  shows "mb_get_prev mb key = Some (k, v) \<longleftrightarrow>
    mb_contents mb k = Some v \<and> k \<le> key \<and> (\<forall>k'. k' \<le> key \<and> mb_contents mb k' \<noteq> None \<longrightarrow> k' \<le> k)"
proof -
  let ?f = "bt_filter (\<lambda>k. k \<le> key) (mb_data mb)"
  have wf: "bt_wf ?f" and g: "\<And>k'. bt_get ?f k' = (if k' \<le> key then mb_contents mb k' else None)"
    using assms by (auto simp: mb_inv_def mb_contents_def)
  show ?thesis
  proof (cases ?f rule: rev_cases)
    case Nil
    then have "\<And>k'. k' \<le> key \<Longrightarrow> mb_contents mb k' = None" using g by (metis bt_get_Nil)
    then show ?thesis using Nil assms by (auto simp: mb_get_prev_def mb_inv_def)
  next
    case (snoc m e)
    have in_f: "(k', v') \<in> set ?f \<longleftrightarrow> k' \<le> key \<and> mb_contents mb k' = Some v'" for k' v'
      using bt_get_eq_Some_iff[OF wf, of k' v'] g[of k'] by (auto split: if_splits)
    have e: "fst e \<le> key" "mb_contents mb (fst e) = Some (snd e)"
      using in_f[of "fst e" "snd e"] snoc by auto
    have max: "k' \<le> fst e" if "k' \<le> key" "mb_contents mb k' = Some v'" for k' v'
      using bt_wf_last[of m e "(k', v')"] wf in_f[of k' v'] snoc that by auto
    have "mb_get_prev mb key = Some e" using snoc assms by (simp add: mb_get_prev_def mb_inv_def)
    moreover have "e = (k, v)" if "mb_contents mb k = Some v" "k \<le> key"
        "\<forall>k'. k' \<le> key \<and> mb_contents mb k' \<noteq> None \<longrightarrow> k' \<le> k"
    proof -
      have "fst e = k" using e max that by (intro antisym) auto
      then show ?thesis using e that by (cases e) simp
    qed
    ultimately show ?thesis using e max by auto
  qed
qed

section \<open>Export and import are inverse\<close>

definition exportable :: "(bytes, bytes) btree \<Rightarrow> bool" where
  "exportable m \<longleftrightarrow> (\<forall>(k, v) \<in> set m. length k < 2 ^ 32 \<and> length v < 2 ^ 32)"

lemma import_loop_export:
  assumes "exportable es"
  shows "import_loop (pre @ concat (map export_entry es)) (length pre) acc = Inr (fold (\<lambda>(k, v). bt_insert k v) es acc)"
  using assms
proof (induction es arbitrary: pre acc)
  case Nil
  then show ?case by (subst import_loop.simps) simp
next
  case (Cons e es)
  obtain k v where e: "e = (k, v)" by (cases e)
  let ?h = "le_encode 4 (length k) @ le_encode 4 (length v)"
  let ?rest = "concat (map export_entry es)"
  define b where "b = pre @ concat (map export_entry (e # es))"
  have lens: "length k < 256 ^ 4" "length v < 256 ^ 4" using Cons.prems e by (auto simp: exportable_def)
  have b: "b = pre @ le_encode 4 (length k) @ le_encode 4 (length v) @ k @ v @ ?rest"
    by (simp add: export_entry_def e b_def)
  have s: "le_decode (slice b (length pre) (length pre + 4)) = length k"
      "le_decode (slice b (length pre + 4) (length pre + 8)) = length v"
      "slice b (length pre + 8) (length pre + 8 + length k) = k"
      "slice b (length pre + 8 + length k) (length pre + 8 + length k + length v) = v"
    using lens unfolding b by (simp_all add: slice_def le_decode_encode del: le_encode_numeral)
  have len: "length b = length pre + 8 + length k + length v + length ?rest"
    unfolding b by (simp del: le_encode_numeral)
  have "import_loop b (length pre) acc =
      import_loop b (length pre + 8 + length k + length v) (bt_insert k v acc)"
    using len by (subst import_loop.simps) (simp only: Let_def s, simp)
  moreover have "import_loop ((pre @ ?h @ k @ v) @ ?rest) (length (pre @ ?h @ k @ v)) (bt_insert k v acc) =
      Inr (fold (\<lambda>(k, v). bt_insert k v) es (bt_insert k v acc))"
    using Cons.prems by (intro Cons.IH) (auto simp: exportable_def)
  moreover have "(pre @ ?h @ k @ v) @ ?rest = b" by (simp add: b del: le_encode_numeral)
  ultimately have "import_loop b (length pre) acc = Inr (fold (\<lambda>(k, v). bt_insert k v) (e # es) acc)"
    by (simp add: e add.assoc del: le_encode_numeral)
  then show ?case by (simp only: b_def)
qed

lemma fold_bt_insert_append: "bt_wf (m @ es) \<Longrightarrow> fold (\<lambda>(k, v). bt_insert k v) es m = m @ es"
proof (induction es arbitrary: m)
  case (Cons e es)
  have "bt_insert (fst e) (snd e) m = m @ [e]" if "\<forall>x\<in>set m. fst x < fst e" for m :: "('a \<times> 'b) list"
    using that by (induction m) auto
  then have "bt_insert (fst e) (snd e) m = m @ [e]" using Cons.prems by auto
  then show ?case using Cons.IH[of "m @ [e]"] Cons.prems by (auto simp: case_prod_unfold)
qed simp

text \<open>Importing anything either fails or installs a well-formed ordered map.\<close>

lemma bt_wf_import_loop: "bt_wf acc \<Longrightarrow> import_loop bs pos acc = Inr m \<Longrightarrow> bt_wf m"
proof (induction bs pos acc rule: import_loop.induct)
  case (1 bs pos acc)
  show ?case
    using 1(2,3) by (subst (asm) import_loop.simps) (auto simp: Let_def intro: 1(1) split: if_splits)
qed


section \<open>Range iterators return the range\<close>

lemma ri_collect_takeWhile:
  assumes "\<And>k v. (k, v) \<in> set es \<Longrightarrow> accept_value cond k = Some (P k)"
  shows "p \<le> length es \<Longrightarrow> length es < fuel + p \<Longrightarrow>
    ri_collect fuel \<lparr> ri_iterator = \<lparr> mi_entries = es, mi_position = p \<rparr>, ri_continue_condition = cond, ri_is_finished = False \<rparr>
      = Some (takeWhile (\<lambda>e. P (fst e)) (drop p es))"
proof (induction fuel arbitrary: p)
  case 0
  then show ?case by simp
next
  case (Suc fuel)
  show ?case
  proof (cases "p < length es")
    case True
    have "accept_value cond (fst (es ! p)) = Some (P (fst (es ! p)))"
      using assms[of "fst (es ! p)" "snd (es ! p)"] True by simp
    then show ?thesis
      using True Suc by (simp add: ri_next_def mi_next_def Cons_nth_drop_Suc[symmetric])
  qed (simp add: ri_next_def mi_next_def)
qed

lemma sorted_dropWhile_less:
  "bt_wf es \<Longrightarrow> dropWhile (\<lambda>(k, _). k < s) es = bt_filter (\<lambda>k. s \<le> k) es"
proof (induction es)
  case (Cons e es)
  have "filter (\<lambda>x. s \<le> fst x) es = es" if "s \<le> fst e"
    using that Cons.prems by (auto simp: filter_id_conv)
  then show ?case using Cons by (auto simp: bt_filter_def)
qed (simp add: bt_filter_def)

lemma drop_takeWhile_length: "drop (length (takeWhile P xs)) xs = dropWhile P xs"
  by (induction xs) auto

lemma takeWhile_down_closed:
  assumes "bt_wf es" "\<And>x y. x \<in> set es \<Longrightarrow> y \<in> set es \<Longrightarrow> fst x < fst y \<Longrightarrow> P (fst y) \<Longrightarrow> P (fst x)"
  shows "takeWhile (\<lambda>e. P (fst e)) es = bt_filter P es"
  using assms
proof (induction es)
  case (Cons e es)
  have "filter (\<lambda>x. P (fst x)) es = []" if "\<not> P (fst e)"
  proof -
    have "\<not> P (fst x)" if "x \<in> set es" for x
    proof -
      have "fst e < fst x" using Cons.prems(1) that by auto
      then show ?thesis using Cons.prems(2)[of e x] that \<open>\<not> P (fst e)\<close> by auto
    qed
    then show ?thesis by (auto simp: filter_empty_conv)
  qed
  moreover have "takeWhile (\<lambda>e. P (fst e)) es = bt_filter P es" if "P (fst e)"
    using Cons by (intro Cons.IH) auto
  ultimately show ?case by (auto simp: bt_filter_def)
qed (simp add: bt_filter_def)

text \<open>The part of a range's meaning that a storage scan decides key by key.\<close>

definition scan_admits :: "bytes key_range \<Rightarrow> bytes \<Rightarrow> bool" where
  "scan_admits rng k =
     (case kr_end rng of
        WithinStartAsPrefix \<Rightarrow> starts_with k (start_value (kr_start rng))
      | e \<Rightarrow> end_admits (kr_start rng) e k)"

text \<open>A key that a scan of the range can be compared with: no shorter than an end of the range, and than an
  excluded prefix.\<close>

definition scannable :: "bytes key_range \<Rightarrow> bytes \<Rightarrow> bool" where
  "scannable rng k \<longleftrightarrow> (\<forall>e. end_value (kr_end rng) = Some e \<longrightarrow> length e \<le> length k)
     \<and> (\<forall>e. kr_end rng = EndPrefixExclusive e \<longrightarrow> k \<noteq> e)
     \<and> (\<forall>p. kr_start rng = ExcludePrefix p \<longrightarrow> length p \<le> length k)"

lemma starts_with_longer: "starts_with e k \<Longrightarrow> length e \<le> length k \<Longrightarrow> k = e"
  by (auto simp: starts_with_def)

lemma accept_value_scan:
  assumes "scannable rng k"
  shows "accept_value (continue_condition_of (kr_start rng) (kr_end rng)) k = Some (scan_admits rng k)"
proof (cases "kr_end rng")
  case (EndPrefixInclusive e)
  then show ?thesis
    using assms starts_with_longer[of e k] by (auto simp: scannable_def scan_admits_def slice_def)
next
  case (EndPrefixExclusive e)
  then show ?thesis
    using assms starts_with_longer[of e k] by (auto simp: scannable_def scan_admits_def slice_def)
qed (auto simp: scan_admits_def)

lemma take_mono: "(x::bytes) \<le> y \<Longrightarrow> take n x \<le> take n y"
  using lex_take_less[of x y n] by (cases "x = y") auto

lemma take_le_self: "take n (x::bytes) \<le> x"
  by (metis append_take_drop_id lex_le_append)

lemma scan_admits_down_closed:
  assumes "start_value (kr_start rng) \<le> x" "x < y" "scan_admits rng y"
  shows "scan_admits rng x"
proof (cases "kr_end rng")
  case WithinStartAsPrefix
  let ?s = "start_value (kr_start rng)"
  have "take (length ?s) y \<le> ?s" "?s \<le> y"
    using assms WithinStartAsPrefix within_prefix[of ?s y] by (auto simp: scan_admits_def)
  moreover have "take (length ?s) x \<le> take (length ?s) y" using assms(2) by (intro take_mono) simp
  ultimately show ?thesis
    using WithinStartAsPrefix within_prefix[OF assms(1)] by (auto simp: scan_admits_def)
next
  case (EndPrefixInclusive e)
  then show ?thesis using assms take_mono[OF less_imp_le[OF assms(2)], of "length e"] by (auto simp: scan_admits_def)
next
  case (EndPrefixExclusive e)
  then show ?thesis using assms take_mono[OF less_imp_le[OF assms(2)], of "length e"] by (auto simp: scan_admits_def)
qed (simp add: scan_admits_def)

lemma start_prefix_admits:
  assumes "range_start_prefix (kr_start rng) = Some s" "\<And>v. kr_start rng \<noteq> ExcludeFirstWithPrefix v"
    and "\<And>p. kr_start rng = ExcludePrefix p \<Longrightarrow> length p \<le> length k"
  shows "(s \<le> k) = start_admits (kr_start rng) k"
  using assms lower_bound_admits[of "kr_start rng" "Included s" k]
  by (cases "kr_start rng") auto

lemma scan_admits_range:
  assumes "scannable rng k" "range_start_prefix (kr_start rng) = Some s" "\<And>v. kr_start rng \<noteq> ExcludeFirstWithPrefix v"
  shows "(scan_admits rng k \<and> s \<le> k) = range_contains rng k"
proof -
  have start: "(s \<le> k) = start_admits (kr_start rng) k"
    using start_prefix_admits[OF assms(2,3)] assms(1) by (simp add: scannable_def)
  have le: "start_value (kr_start rng) \<le> k" if "start_admits (kr_start rng) k"
    using that take_le_self[of _ k] by (cases "kr_start rng") (auto intro: order.trans dest: less_imp_le)
  show ?thesis
    unfolding range_contains_def start scan_admits_def
    using within_prefix le by (cases "kr_end rng") auto
qed

text \<open>A scan with a range that excludes nothing at its start, or a whole prefix, returns the range.\<close>

lemma range_scan_spec:
  assumes "bt_wf es" "\<And>k. k \<in> fst ` set es \<Longrightarrow> scannable rng k"
    and "range_iterator_new \<lparr> mi_entries = es, mi_position = p \<rparr> rng = Some it" "\<And>v. kr_start rng \<noteq> ExcludeFirstWithPrefix v"
  shows "ri_collect (Suc (length es)) it = Some (bt_filter (range_contains rng) es)"
proof -
  obtain s where s: "range_start_prefix (kr_start rng) = Some s"
    using assms(3) by (auto simp: range_iterator_new_def bind_eq_Some_conv)
  let ?cond = "continue_condition_of (kr_start rng) (kr_end rng)"
  let ?p = "length (takeWhile (\<lambda>(k, _). k < s) es)"
  have it: "it = \<lparr> ri_iterator = \<lparr> mi_entries = es, mi_position = ?p \<rparr>, ri_continue_condition = ?cond, ri_is_finished = False \<rparr>"
    using assms(3) s by (cases "kr_start rng") (auto simp: range_iterator_new_def mi_seek_def may_skip_start_def Let_def)
  have acc: "accept_value ?cond k = Some (scan_admits rng k)" if "(k, v) \<in> set es" for k v
    using assms(2) that by (intro accept_value_scan) force
  have "ri_collect (Suc (length es)) it = Some (takeWhile (\<lambda>e. scan_admits rng (fst e)) (bt_filter (\<lambda>k. s \<le> k) es))"
    unfolding it
    using ri_collect_takeWhile[where es = es and P = "scan_admits rng" and p = ?p and fuel = "Suc (length es)", OF acc] length_takeWhile_le[of "\<lambda>(k, _). k < s" es]
    by (simp add: drop_takeWhile_length sorted_dropWhile_less[OF assms(1)])
  also have "takeWhile (\<lambda>e. scan_admits rng (fst e)) (bt_filter (\<lambda>k. s \<le> k) es) =
      bt_filter (scan_admits rng) (bt_filter (\<lambda>k. s \<le> k) es)"
  proof (rule takeWhile_down_closed)
    fix x y assume "x \<in> set (bt_filter (\<lambda>k. s \<le> k) es)" "fst x < fst y" "scan_admits rng (fst y)"
    moreover have "start_value (kr_start rng) \<le> s"
      using s increment_greater by (cases "kr_start rng") (auto simp: increment_unwrap_Some le_less)
    ultimately show "scan_admits rng (fst x)"
      by (intro scan_admits_down_closed[of rng "fst x" "fst y"]) (auto simp: bt_filter_def)
  qed (use assms(1) in simp)
  also have "\<dots> = bt_filter (range_contains rng) es"
    using scan_admits_range[OF assms(2) s assms(4)] by (auto simp: bt_filter_def intro!: filter_cong)
  finally show ?thesis .
qed

section \<open>What a commit's batch writes\<close>

fun write_puts :: "seq \<Rightarrow> bytes \<times> buffered_write \<Rightarrow> (bytes \<times> bytes) list" where
  "write_puts s (key, Insert value) = [(mvcc_build key s OpInsert, value)]"
| "write_puts s (key, Put value re _) = (if re then [(mvcc_build key s OpInsert, value)] else [])"
| "write_puts s (key, Delete) = [(mvcc_build key s OpDelete, [])]"

lemma add_write_puts: "add_write s e b = b @ map (\<lambda>(k, v). WPut k v) (write_puts s e)"
  by (cases e; cases "snd e") (auto simp: batch_put_def)

lemma fold_add_write: "fold (add_write s) ws b = b @ map (\<lambda>(k, v). WPut k v) (concat (map (write_puts s) ws))"
  by (induction ws arbitrary: b) (auto simp: add_write_puts)

text \<open>The entry a write to a key leaves at its commit sequence number: the operation and the value.\<close>

fun write_version :: "buffered_write \<Rightarrow> (storage_operation \<times> bytes) option" where
  "write_version (Insert value) = Some (OpInsert, value)"
| "write_version (Put value re _) = (if re then Some (OpInsert, value) else None)"
| "write_version Delete = Some (OpDelete, [])"

lemma set_write_puts:
  "(raw, v) \<in> set (write_puts s (key, w)) \<longleftrightarrow> (\<exists>op. write_version w = Some (op, v) \<and> raw = mvcc_build key s op)"
  by (cases w) auto

lemma fold_effect_puts:
  "fold op_effect (map (\<lambda>(k, v). WPut k v) ps) m = m ++ map_of (rev ps)"
  by (induction ps arbitrary: m) (auto simp: fun_eq_iff map_add_def split: option.splits)

lemma map_of_SomeI: "(\<And>v'. (k, v') \<in> set xs \<Longrightarrow> v' = v) \<Longrightarrow> (k, v) \<in> set xs \<Longrightarrow> map_of xs k = Some v"
  by (metis map_of_SomeD weak_map_of_SomeI)

text \<open>The contents of a keyspace after the batch of a commit at sequence number s.\<close>

lemma batch_effect:
  assumes "bt_wf ws" "seq_ok s"
  shows "fold op_effect (fold (add_write s) ws []) m raw =
    (case mvcc_key raw of
       None \<Rightarrow> m raw
     | Some key \<Rightarrow> (case bt_get ws key of
         None \<Rightarrow> m raw
       | Some w \<Rightarrow> (case write_version w of
           None \<Rightarrow> m raw
         | Some (op, v) \<Rightarrow> if raw = mvcc_build key s op then Some v else m raw)))"
    (is "_ = ?rhs")
proof -
  let ?ps = "concat (map (write_puts s) ws)"
  have mem: "(raw, v) \<in> set ?ps \<longleftrightarrow>
      (\<exists>key w op. bt_get ws key = Some w \<and> write_version w = Some (op, v) \<and> raw = mvcc_build key s op)" for v
    using bt_get_eq_Some_iff[OF assms(1)] set_write_puts by fastforce
  have lhs: "fold op_effect (fold (add_write s) ws []) m = m ++ map_of (rev ?ps)"
    by (simp add: fold_add_write fold_effect_puts)
  show ?thesis
  proof (cases "\<exists>v. (raw, v) \<in> set ?ps")
    case True
    then obtain v key w op where v: "(raw, v) \<in> set ?ps" "bt_get ws key = Some w" "write_version w = Some (op, v)"
        "raw = mvcc_build key s op"
      using mem by blast
    have uniq: "v' = v" if "(raw, v') \<in> set ?ps" for v'
    proof -
      obtain key' w' op' where "bt_get ws key' = Some w'" "write_version w' = Some (op', v')" "raw = mvcc_build key' s op'"
        using mem \<open>(raw, v') \<in> set ?ps\<close> by blast
      then show ?thesis using v mvcc_build_inj[OF assms(2,2)] by auto
    qed
    have "map_of (rev ?ps) raw = Some v"
      using v(1) by (intro map_of_SomeI, unfold set_rev) (rule uniq)
    then show ?thesis using v lhs by (simp add: map_add_def)
  next
    case False
    then have "map_of (rev ?ps) raw = None" by (auto simp: map_of_eq_None_iff)
    moreover have "?rhs = m raw"
      using False mem by (auto split: option.splits)
    ultimately show ?thesis using lhs by (simp add: map_add_def)
  qed
qed

section \<open>Properties\<close>



text \<open>Exporting a backend and importing the bytes into any backend restores the exported data, for keys
  and values below four gigabytes; and whatever bytes are imported, an import that succeeds installs an
  ordered map.\<close>

theorem export_import_roundtrip:
  assumes "mb_inv mb" and "exportable (mb_data mb)" and "mb_inv mb'"
  shows "(\<exists>bytes. export_data mb = Inr bytes \<and> import_data bytes mb' = Inr (mb'\<lparr> mb_data := mb_data mb \<rparr>)) \<and>
    (\<forall>bytes mb''. import_data bytes mb' = Inr mb'' \<longrightarrow> mb_inv mb'')"
proof -
  have "import_loop (concat (map export_entry (mb_data mb))) 0 [] = Inr (mb_data mb)"
    using import_loop_export[OF assms(2), of "[]" "[]"] fold_bt_insert_append[of "[]" "mb_data mb"] assms(1)
    by (simp add: mb_inv_def)
  moreover have "mb_inv mb''" if "import_data bytes mb' = Inr mb''" for bytes mb''
    using that assms(3) bt_wf_import_loop[of "[]" bytes 0]
    by (auto simp: import_data_def mb_inv_def split: sum.splits if_splits)
  ultimately show ?thesis
    using assms by (auto simp: export_data_def import_data_def mb_inv_def)
qed

theorem export_import_roundtrip_witness:
  "\<exists>bytes. export_data \<lparr> mb_data = [([1], [9, 9]), ([2, 2], [])], mb_poisoned = False \<rparr> = Inr bytes \<and>
     import_data bytes mb_new = Inr \<lparr> mb_data = [([1], [9, 9]), ([2, 2], [])], mb_poisoned = False \<rparr>"
  using export_import_roundtrip[of "\<lparr> mb_data = [([1], [9, 9]), ([2, 2], [])], mb_poisoned = False \<rparr>" mb_new]
  by (simp add: mb_inv_def mb_new_def exportable_def)

text \<open>A range scan over a keyspace returns, in key order, exactly the stored entries whose key lies in
  the range, when every stored key is at least as long as the end of the range; it terminates within one call
  more than the number of entries.  (A range that excludes the first key of a prefix is the exception, see
  the next property.)\<close>

theorem keyspace_scan_correct:
  assumes "mb_inv mb" and "\<forall>k \<in> fst ` set (mb_data mb). scannable rng k"
    and "range_iterator_new \<lparr> mi_entries = mb_data mb, mi_position = 0 \<rparr> rng = Some it"
    and "\<forall>v. kr_start rng \<noteq> ExcludeFirstWithPrefix v"
  shows "ri_collect (Suc (length (mb_data mb))) it = Some (bt_filter (range_contains rng) (mb_data mb))"
  using range_scan_spec[of "mb_data mb" rng 0 it] assms by (auto simp: mb_inv_def)

theorem keyspace_scan_correct_witness:
  "\<exists>it. range_iterator_new \<lparr> mi_entries = [([1, 0], []), ([2, 5], [3]), ([2, 6], []), ([3, 0], [])], mi_position = 0 \<rparr>
      (new_within [2] True) = Some it \<and>
    ri_collect 5 it = Some [([2, 5], [3]), ([2, 6], [])]"
proof -
  let ?es = "[([1, 0], []), ([2, 5], [3]), ([2, 6], []), ([3, 0], [])] :: (bytes \<times> bytes) list"
  let ?mb = "\<lparr> mb_data = ?es, mb_poisoned = False \<rparr>"
  let ?rng = "new_within [2] True :: bytes key_range"
  obtain it where it: "range_iterator_new \<lparr> mi_entries = mb_data ?mb, mi_position = 0 \<rparr> ?rng = Some it"
    by (simp add: range_iterator_new_def new_within_def Let_def)
  have "mb_inv ?mb" "\<forall>k \<in> fst ` set (mb_data ?mb). scannable ?rng k" "\<forall>v. kr_start ?rng \<noteq> ExcludeFirstWithPrefix v"
    by (simp_all add: mb_inv_def scannable_def new_within_def)
  then have "ri_collect (Suc (length ?es)) it = Some (bt_filter (range_contains ?rng) ?es)"
    using keyspace_scan_correct[of ?mb ?rng it] it by simp
  then show ?thesis using it by (simp add: bt_filter_def range_contains_within starts_with_def eval_nat_numeral)
qed

text \<open>C37: excluding the first key of a prefix does nothing in the in-memory backend: the scan still
  returns the excluded key, which the write buffer's scan of the same range leaves out.\<close>

theorem exclude_first_not_excluded:
  "\<exists>it. range_iterator_new \<lparr> mi_entries = [(key, v)], mi_position = 0 \<rparr>
      (new_variable_width (ExcludeFirstWithPrefix key) UnboundedEnd) = Some it \<and>
    ri_collect 2 it = Some [(key, v)] \<and>
    wb_iterate_range (new_variable_width (ExcludeFirstWithPrefix key) UnboundedEnd) (wb_insert key v (wb_new ks)) = Some []"
proof -
  let ?it = "\<lparr> ri_iterator = \<lparr> mi_entries = [(key, v)], mi_position = 0 \<rparr>, ri_continue_condition = Always, ri_is_finished = False \<rparr>"
  have "range_iterator_new \<lparr> mi_entries = [(key, v)], mi_position = 0 \<rparr>
      (new_variable_width (ExcludeFirstWithPrefix key) UnboundedEnd) = Some ?it"
    by (simp add: range_iterator_new_def new_variable_width_def mi_seek_def may_skip_start_def Let_def)
  moreover have "ri_collect 2 ?it = Some [(key, v)]"
    by (simp add: numeral_2_eq_2 ri_next_def mi_next_def)
  moreover have "wb_iterate_range (new_variable_width (ExcludeFirstWithPrefix key) UnboundedEnd)
      (wb_insert key v (wb_new ks)) = Some []"
    by (simp add: wb_iterate_range_def wb_range_def new_variable_width_def bt_range_def bounds_panic_def
        wb_insert_def wb_new_def bt_filter_def)
  ultimately show ?thesis by blast
qed

end
