(* ===== verification/Keyspaces.thy ===== *)
theory Keyspaces
  imports Backend
begin

text \<open>
  The keyspaces of a storage (\<^verbatim>\<open>Keyspaces\<close> and \<^verbatim>\<open>Keyspace\<close> of \<^verbatim>\<open>src/storage/keyspace/keyspace.rs\<close>, the
  variant over the in-memory backend): a vector of keyspaces with a table from keyspace identifiers to
  positions, the dispatch of a commit's write batches, and the byte format of a whole-database snapshot.
  The keyspaces are behind shared references and change in place, so an operation that fails returns
  the state it left behind.  A \<^verbatim>\<open>KeyspaceSet\<close> is the list of its members' names, identifiers and prefix
  lengths; a \<^verbatim>\<open>str\<close> is its UTF-8 bytes.
\<close>

section \<open>Standard library\<close>

text \<open>Indexing a vector, which panics out of bounds.\<close>

definition nth_opt :: "'a list \<Rightarrow> nat \<Rightarrow> 'a option" where
  "nth_opt xs i = (if i < length xs then Some (xs ! i) else None)"

text \<open>The byte strings that \<^verbatim>\<open>str::from_utf8\<close> accepts.\<close>

definition utf8_cont :: "byte \<Rightarrow> bool" where
  "utf8_cont b \<longleftrightarrow> 0x80 \<le> b \<and> b \<le> 0xBF"

definition utf8_second :: "byte \<Rightarrow> byte \<Rightarrow> bool" where
  "utf8_second b c \<longleftrightarrow>
     (if b = 0xE0 then 0xA0 \<le> c \<and> c \<le> 0xBF
      else if b = 0xED then 0x80 \<le> c \<and> c \<le> 0x9F
      else if b = 0xF0 then 0x90 \<le> c \<and> c \<le> 0xBF
      else if b = 0xF4 then 0x80 \<le> c \<and> c \<le> 0x8F
      else utf8_cont c)"

fun utf8_valid :: "bytes \<Rightarrow> bool" where
  "utf8_valid [] = True"
| "utf8_valid (b # bs) =
     (if b < 0x80 then utf8_valid bs
      else if 0xC2 \<le> b \<and> b \<le> 0xDF then (case bs of c # bs' \<Rightarrow> utf8_cont c \<and> utf8_valid bs' | _ \<Rightarrow> False)
      else if 0xE0 \<le> b \<and> b \<le> 0xEF then
        (case bs of c # d # bs' \<Rightarrow> utf8_second b c \<and> utf8_cont d \<and> utf8_valid bs' | _ \<Rightarrow> False)
      else if 0xF0 \<le> b \<and> b \<le> 0xF4 then
        (case bs of c # d # e # bs' \<Rightarrow> utf8_second b c \<and> utf8_cont d \<and> utf8_cont e \<and> utf8_valid bs' | _ \<Rightarrow> False)
      else False)"

section \<open>A keyspace\<close>

definition KEYSPACE_ID_MAX :: keyspace_id where
  "KEYSPACE_ID_MAX = KEYSPACE_MAXIMUM_COUNT - 1"

definition KEYSPACE_ID_RESERVED_UNSET :: keyspace_id where
  "KEYSPACE_ID_RESERVED_UNSET = KEYSPACE_ID_MAX + 1"

record keyspace_set =
  kst_id :: keyspace_id
  kst_name :: bytes
  kst_prefix_length :: "nat option"

datatype snapshot_malformed =
    TooShort | InvalidMagic | UnsupportedVersion byte | UnexpectedEnd | UnexpectedEndKeyspace
  | InvalidName | UnexpectedEndData nat

datatype keyspace_error =
    KsGet bytes memory_backend_error
  | KsPut bytes memory_backend_error
  | KsBatchWrite bytes memory_backend_error
  | KsIterate bytes memory_backend_error
  | KsProperty string memory_backend_error
  | SnapshotMalformed snapshot_malformed

record keyspace =
  ksp_backend :: memory_backend
  ksp_name :: bytes
  ksp_id :: keyspace_id
  ksp_prefix_length :: "nat option"

definition ksp_new :: "keyspace_set \<Rightarrow> keyspace" where
  "ksp_new keyspace =
     \<lparr> ksp_backend = mb_new, ksp_name = kst_name keyspace, ksp_id = kst_id keyspace,
       ksp_prefix_length = kst_prefix_length keyspace \<rparr>"

text \<open>An operation of the backend, with its error wrapped.\<close>

definition map_backend :: "(memory_backend_error \<Rightarrow> keyspace_error) \<Rightarrow> keyspace \<Rightarrow>
    memory_backend_error + memory_backend \<Rightarrow> (keyspace_error + unit) \<times> keyspace" where
  "map_backend err self r =
     (case r of Inl e \<Rightarrow> (Inl (err e), self) | Inr mb \<Rightarrow> (Inr (), self\<lparr> ksp_backend := mb \<rparr>))"

definition ksp_put :: "bytes \<Rightarrow> bytes \<Rightarrow> keyspace \<Rightarrow> (keyspace_error + unit) \<times> keyspace" where
  "ksp_put key value self = map_backend (KsPut (ksp_name self)) self (mb_put key value (ksp_backend self))"

definition ksp_get :: "keyspace \<Rightarrow> bytes \<Rightarrow> keyspace_error + bytes option" where
  "ksp_get self key = map_sum (KsGet (ksp_name self)) id (mb_get (ksp_backend self) key)"

definition ksp_get_prev :: "keyspace \<Rightarrow> bytes \<Rightarrow> (bytes \<times> bytes) option" where
  "ksp_get_prev self key = mb_get_prev (ksp_backend self) key"

definition ksp_iterate_range :: "keyspace \<Rightarrow> bytes key_range \<Rightarrow> range_iterator option" where
  "ksp_iterate_range self rng = do {
     iterator \<leftarrow> create_iterator (start_value (kr_start rng)) (ksp_backend self);
     range_iterator_new iterator rng }"

definition ksp_write :: "memory_write_batch \<Rightarrow> keyspace \<Rightarrow> (keyspace_error + unit) \<times> keyspace" where
  "ksp_write write_batch self =
     map_backend (KsBatchWrite (ksp_name self)) self (mb_write_batch write_batch (ksp_backend self))"

definition ksp_reset :: "keyspace \<Rightarrow> (keyspace_error + unit) \<times> keyspace" where
  "ksp_reset self = map_backend (KsIterate (ksp_name self)) self (mb_reset (ksp_backend self))"

definition ksp_estimate_size_in_bytes :: "keyspace \<Rightarrow> keyspace_error + nat" where
  "ksp_estimate_size_in_bytes self =
     map_sum (KsProperty ''estimate_size_bytes'') id (mb_estimate_size_bytes (ksp_backend self))"

definition ksp_estimate_key_count :: "keyspace \<Rightarrow> keyspace_error + nat" where
  "ksp_estimate_key_count self =
     map_sum (KsProperty ''estimate_key_count'') id (mb_estimate_key_count (ksp_backend self))"

definition ksp_export_data :: "keyspace \<Rightarrow> keyspace_error + bytes" where
  "ksp_export_data self = map_sum (KsProperty ''export_data'') id (export_data (ksp_backend self))"

definition ksp_import_data :: "bytes \<Rightarrow> keyspace \<Rightarrow> (keyspace_error + unit) \<times> keyspace" where
  "ksp_import_data data self =
     map_backend (KsProperty ''import_data'') self (import_data data (ksp_backend self))"

section \<open>The table of keyspaces\<close>

datatype keyspace_validation_error =
    IdReserved bytes keyspace_id
  | IdTooLarge bytes keyspace_id keyspace_id
  | NameExists bytes
  | IdExists bytes keyspace_id bytes

datatype keyspace_open_error = KsValidation keyspace_validation_error

record keyspaces =
  kss_keyspaces :: "keyspace list"
  kss_index :: "keyspace_id option list"

definition kss_new :: keyspaces where
  "kss_new = \<lparr> kss_keyspaces = [], kss_index = replicate KEYSPACE_MAXIMUM_COUNT None \<rparr>"

fun validate_existing :: "keyspace_set \<Rightarrow> keyspace list \<Rightarrow> (nat \<times> keyspace_id option) list \<Rightarrow>
    (keyspace_validation_error + unit) option" where
  "validate_existing new kss [] = Some (Inr ())"
| "validate_existing new kss ((existing_id, None) # rest) = validate_existing new kss rest"
| "validate_existing new kss ((existing_id, Some existing_index) # rest) = do {
     keyspace \<leftarrow> nth_opt kss existing_index;
     if ksp_name keyspace = kst_name new then Some (Inl (NameExists (kst_name new)))
     else if existing_id = kst_id new
       then Some (Inl (IdExists (kst_name new) (kst_id new) (ksp_name keyspace)))
     else validate_existing new kss rest }"

definition validate_new_keyspace :: "keyspaces \<Rightarrow> keyspace_set \<Rightarrow> (keyspace_validation_error + unit) option" where
  "validate_new_keyspace self new =
     (if kst_id new = KEYSPACE_ID_RESERVED_UNSET then Some (Inl (IdReserved (kst_name new) (kst_id new)))
      else if kst_id new > KEYSPACE_ID_MAX
        then Some (Inl (IdTooLarge (kst_name new) (kst_id new) KEYSPACE_ID_MAX))
      else validate_existing new (kss_keyspaces self) (enumerate 0 (kss_index self)))"

text \<open>One turn of the loop of \<^verbatim>\<open>open\<close>; \<^verbatim>\<open>len() as u8 - 1\<close> truncates and then may underflow.\<close>

definition kss_push :: "keyspace_set \<Rightarrow> keyspaces \<Rightarrow> keyspaces option" where
  "kss_push keyspace self = do {
     let kss = kss_keyspaces self @ [ksp_new keyspace];
     position \<leftarrow> seq_minus (length kss mod 256) 1;
     if kst_id keyspace < length (kss_index self)
     then Some \<lparr> kss_keyspaces = kss, kss_index = (kss_index self)[kst_id keyspace := Some position] \<rparr>
     else None }"

fun kss_open_loop :: "keyspace_set list \<Rightarrow> keyspaces \<Rightarrow> (keyspace_open_error + keyspaces) option" where
  "kss_open_loop [] self = Some (Inr self)"
| "kss_open_loop (keyspace # rest) self = do {
     validated \<leftarrow> validate_new_keyspace self keyspace;
     case validated of
       Inl error \<Rightarrow> Some (Inl (KsValidation error))
     | Inr _ \<Rightarrow> do {
         self' \<leftarrow> kss_push keyspace self;
         kss_open_loop rest self' } }"

definition kss_open :: "keyspace_set list \<Rightarrow> (keyspace_open_error + keyspaces) option" where
  "kss_open set' = kss_open_loop set' kss_new"

definition kss_position :: "keyspaces \<Rightarrow> keyspace_id \<Rightarrow> nat option" where
  "kss_position self i = do { entry \<leftarrow> nth_opt (kss_index self) i; entry }"

definition kss_get :: "keyspaces \<Rightarrow> keyspace_id \<Rightarrow> keyspace option" where
  "kss_get self i = do { j \<leftarrow> kss_position self i; nth_opt (kss_keyspaces self) j }"

text \<open>Changing the keyspace that \<^verbatim>\<open>get\<close> returns a reference to.\<close>

definition kss_update :: "keyspaces \<Rightarrow> keyspace_id \<Rightarrow> keyspace \<Rightarrow> keyspaces" where
  "kss_update self i keyspace =
     (case kss_position self i of
        None \<Rightarrow> self
      | Some j \<Rightarrow> self\<lparr> kss_keyspaces := (kss_keyspaces self)[j := keyspace] \<rparr>)"

fun kss_write_loop :: "(nat \<times> memory_write_batch) list \<Rightarrow> keyspaces \<Rightarrow> ((keyspace_error + unit) \<times> keyspaces) option" where
  "kss_write_loop [] self = Some (Inr (), self)"
| "kss_write_loop ((index, write_batch) # rest) self = do {
     keyspace \<leftarrow> kss_get self index;
     let (result, keyspace') = ksp_write write_batch keyspace;
     let self' = kss_update self index keyspace';
     case result of
       Inl e \<Rightarrow> Some (Inl e, self')
     | Inr _ \<Rightarrow> kss_write_loop rest self' }"

definition kss_write :: "write_batches \<Rightarrow> keyspaces \<Rightarrow> ((keyspace_error + unit) \<times> keyspaces) option" where
  "kss_write batches self = kss_write_loop (batches_iter batches) self"

fun kss_reset_loop :: "keyspace list \<Rightarrow> (keyspace_error + unit) \<times> keyspace list" where
  "kss_reset_loop [] = (Inr (), [])"
| "kss_reset_loop (keyspace # rest) =
     (case ksp_reset keyspace of
        (Inl e, keyspace') \<Rightarrow> (Inl e, keyspace' # rest)
      | (Inr _, keyspace') \<Rightarrow> apsnd (Cons keyspace') (kss_reset_loop rest))"

definition kss_reset :: "keyspaces \<Rightarrow> (keyspace_error + unit) \<times> keyspaces" where
  "kss_reset self = apsnd (\<lambda>kss. self\<lparr> kss_keyspaces := kss \<rparr>) (kss_reset_loop (kss_keyspaces self))"

fun try_sum :: "(keyspace \<Rightarrow> keyspace_error + nat) \<Rightarrow> keyspace list \<Rightarrow> nat \<Rightarrow> keyspace_error + nat" where
  "try_sum f [] acc = Inr acc"
| "try_sum f (keyspace # rest) acc =
     (case f keyspace of Inl e \<Rightarrow> Inl e | Inr n \<Rightarrow> try_sum f rest (acc + n))"

definition kss_estimate_size_in_bytes :: "keyspaces \<Rightarrow> keyspace_error + nat" where
  "kss_estimate_size_in_bytes self = try_sum ksp_estimate_size_in_bytes (kss_keyspaces self) 0"

definition kss_estimate_key_count :: "keyspaces \<Rightarrow> keyspace_error + nat" where
  "kss_estimate_key_count self = try_sum ksp_estimate_key_count (kss_keyspaces self) 0"

section \<open>Snapshots of all keyspaces\<close>

text \<open>The bytes of \<^verbatim>\<open>TDBSNP\<close>.\<close>

definition SNAPSHOT_MAGIC :: bytes where
  "SNAPSHOT_MAGIC = [0x54, 0x44, 0x42, 0x53, 0x4E, 0x50]"

definition SNAPSHOT_VERSION :: byte where
  "SNAPSHOT_VERSION = 2"

definition export_header :: "nat \<Rightarrow> nat \<Rightarrow> bytes" where
  "export_header watermark count =
     SNAPSHOT_MAGIC @ [SNAPSHOT_VERSION] @ le_encode 8 watermark @ [word_of_nat count]"

definition export_keyspace :: "keyspace \<Rightarrow> bytes \<Rightarrow> bytes" where
  "export_keyspace keyspace data =
     [word_of_nat (ksp_id keyspace)] @ [word_of_nat (length (ksp_name keyspace))] @ ksp_name keyspace
     @ le_encode 4 (length data) @ data"

fun export_keyspaces :: "keyspace list \<Rightarrow> bytes \<Rightarrow> keyspace_error + bytes" where
  "export_keyspaces [] output = Inr output"
| "export_keyspaces (keyspace # rest) output =
     (case ksp_export_data keyspace of
        Inl e \<Rightarrow> Inl e
      | Inr data \<Rightarrow> export_keyspaces rest (output @ export_keyspace keyspace data))"

definition export_snapshot_with_watermark :: "nat \<Rightarrow> keyspaces \<Rightarrow> keyspace_error + bytes" where
  "export_snapshot_with_watermark watermark self =
     export_keyspaces (kss_keyspaces self) (export_header watermark (length (kss_keyspaces self)))"

text \<open>One keyspace of a snapshot is read in two steps, up to the slice of its data and the new position,
  and its import.\<close>

definition read_keyspace :: "bytes \<Rightarrow> nat \<Rightarrow> snapshot_malformed + (keyspace_id \<times> bytes \<times> nat)" where
  "read_keyspace bytes pos =
     (if pos + 2 > length bytes then Inl UnexpectedEnd
      else
        let keyspace_id = unat (bytes ! pos);
            name_len = unat (bytes ! (pos + 1));
            pos = pos + 2
        in if pos + name_len + 4 > length bytes then Inl UnexpectedEndKeyspace
           else if \<not> utf8_valid (slice bytes pos (pos + name_len)) then Inl InvalidName
           else
             let pos = pos + name_len;
                 data_len = le_decode (slice bytes pos (pos + 4));
                 pos = pos + 4
             in if pos + data_len > length bytes then Inl (UnexpectedEndData data_len)
                else Inr (keyspace_id, slice bytes pos (pos + data_len), pos + data_len))"

fun import_keyspaces :: "nat \<Rightarrow> bytes \<Rightarrow> nat \<Rightarrow> keyspaces \<Rightarrow> ((keyspace_error + unit) \<times> keyspaces) option" where
  "import_keyspaces 0 bytes pos self = Some (Inr (), self)"
| "import_keyspaces (Suc n) bytes pos self =
     (case read_keyspace bytes pos of
        Inl m \<Rightarrow> Some (Inl (SnapshotMalformed m), self)
      | Inr (keyspace_id, data, pos) \<Rightarrow> do {
          entry \<leftarrow> nth_opt (kss_index self) keyspace_id;
          case entry of
            None \<Rightarrow> import_keyspaces n bytes pos self
          | Some keyspace_index \<Rightarrow> do {
              keyspace \<leftarrow> nth_opt (kss_keyspaces self) keyspace_index;
              let (result, keyspace') = ksp_import_data data keyspace;
              let self' = self\<lparr> kss_keyspaces := (kss_keyspaces self)[keyspace_index := keyspace'] \<rparr>;
              case result of
                Inl e \<Rightarrow> Some (Inl e, self')
              | Inr _ \<Rightarrow> import_keyspaces n bytes pos self' } })"

definition import_snapshot_with_watermark :: "bytes \<Rightarrow> keyspaces \<Rightarrow> ((keyspace_error + nat) \<times> keyspaces) option" where
  "import_snapshot_with_watermark bytes self =
     (if length bytes < 16 then Some (Inl (SnapshotMalformed TooShort), self)
      else if slice bytes 0 6 \<noteq> SNAPSHOT_MAGIC then Some (Inl (SnapshotMalformed InvalidMagic), self)
      else if bytes ! 6 \<noteq> 2 then Some (Inl (SnapshotMalformed (UnsupportedVersion (bytes ! 6))), self)
      else
        let watermark = le_decode (slice bytes 7 15);
            keyspace_count = unat (bytes ! 15)
        in map_option (apfst (map_sum id (\<lambda>_. watermark))) (import_keyspaces keyspace_count bytes 16 self))"

section \<open>Well-formed tables\<close>

text \<open>The table and the vector agree: an entry of the table points at the keyspace with that identifier, and
  every keyspace is found through its identifier.\<close>

definition kss_wf :: "keyspaces \<Rightarrow> bool" where
  "kss_wf s \<longleftrightarrow> length (kss_index s) = KEYSPACE_MAXIMUM_COUNT
     \<and> (\<forall>i < KEYSPACE_MAXIMUM_COUNT. \<forall>j. kss_index s ! i = Some j \<longrightarrow>
          j < length (kss_keyspaces s) \<and> ksp_id (kss_keyspaces s ! j) = i)
     \<and> (\<forall>j < length (kss_keyspaces s). ksp_id (kss_keyspaces s ! j) < KEYSPACE_MAXIMUM_COUNT
          \<and> kss_index s ! ksp_id (kss_keyspaces s ! j) = Some j)
     \<and> (\<forall>k \<in> set (kss_keyspaces s). mb_inv (ksp_backend k))"

definition kss_ids :: "keyspaces \<Rightarrow> keyspace_id set" where
  "kss_ids s = ksp_id ` set (kss_keyspaces s)"

definition kss_contents :: "keyspaces \<Rightarrow> keyspace_id \<Rightarrow> bytes \<rightharpoonup> bytes" where
  "kss_contents s i = (case kss_get s i of None \<Rightarrow> Map.empty | Some k \<Rightarrow> mb_contents (ksp_backend k))"

definition ksp_layout :: "keyspace \<Rightarrow> keyspace_id \<times> bytes \<times> nat option" where
  "ksp_layout k = (ksp_id k, ksp_name k, ksp_prefix_length k)"

definition kss_layout :: "keyspaces \<Rightarrow> (keyspace_id \<times> bytes \<times> nat option) list \<times> keyspace_id option list" where
  "kss_layout s = (map ksp_layout (kss_keyspaces s), kss_index s)"

lemma kss_wfD:
  assumes "kss_wf s"
  shows "length (kss_index s) = KEYSPACE_MAXIMUM_COUNT"
    and "i < KEYSPACE_MAXIMUM_COUNT \<Longrightarrow> kss_index s ! i = Some j \<Longrightarrow>
      j < length (kss_keyspaces s) \<and> ksp_id (kss_keyspaces s ! j) = i"
    and "j < length (kss_keyspaces s) \<Longrightarrow> ksp_id (kss_keyspaces s ! j) < KEYSPACE_MAXIMUM_COUNT"
    and "j < length (kss_keyspaces s) \<Longrightarrow> kss_index s ! ksp_id (kss_keyspaces s ! j) = Some j"
    and "k \<in> set (kss_keyspaces s) \<Longrightarrow> mb_inv (ksp_backend k)"
  using assms by (auto simp: kss_wf_def)

lemma kss_position_iff:
  "kss_wf s \<Longrightarrow> kss_position s i = Some j \<longleftrightarrow> j < length (kss_keyspaces s) \<and> ksp_id (kss_keyspaces s ! j) = i"
  using kss_wfD[of s] by (auto simp: kss_position_def nth_opt_def split: if_splits)

lemma kss_get_iff:
  assumes "kss_wf s"
  shows "kss_get s i = Some k \<longleftrightarrow> k \<in> set (kss_keyspaces s) \<and> ksp_id k = i"
proof
  assume "kss_get s i = Some k"
  then show "k \<in> set (kss_keyspaces s) \<and> ksp_id k = i"
    by (auto simp: kss_get_def nth_opt_def bind_eq_Some_conv kss_position_iff[OF assms] split: if_splits)
next
  assume "k \<in> set (kss_keyspaces s) \<and> ksp_id k = i"
  then obtain j where "j < length (kss_keyspaces s)" "kss_keyspaces s ! j = k" "ksp_id k = i"
    by (auto simp: in_set_conv_nth)
  then show "kss_get s i = Some k"
    using kss_position_iff[OF assms, of i j] by (simp add: kss_get_def nth_opt_def)
qed

lemma kss_get_None_iff: "kss_wf s \<Longrightarrow> kss_get s i = None \<longleftrightarrow> i \<notin> kss_ids s"
  by (metis (no_types, lifting) image_iff kss_get_iff kss_ids_def not_None_eq)

lemma kss_layout_ids: "kss_layout s = kss_layout s' \<Longrightarrow> kss_ids s = kss_ids s'"
proof -
  assume "kss_layout s = kss_layout s'"
  then have "map fst (map ksp_layout (kss_keyspaces s)) = map fst (map ksp_layout (kss_keyspaces s'))"
    by (simp only: kss_layout_def prod.inject)
  then have "set (map ksp_id (kss_keyspaces s)) = set (map ksp_id (kss_keyspaces s'))"
    by (simp add: ksp_layout_def comp_def)
  then show ?thesis by (simp add: kss_ids_def)
qed

lemma nth_layout:
  "j < length ks \<Longrightarrow> ksp_layout k = ksp_layout (ks ! j) \<Longrightarrow> ksp_layout (ks[j := k] ! i) = ksp_layout (ks ! i)"
  by (cases "i = j") auto

lemma ksp_layout_id: "ksp_layout k = ksp_layout k' \<Longrightarrow> ksp_id k = ksp_id k'"
  by (simp add: ksp_layout_def)

lemma kss_update_wf:
  assumes "kss_wf s" "kss_get s i = Some k" "ksp_layout k' = ksp_layout k" "mb_inv (ksp_backend k')"
  shows "kss_wf (kss_update s i k')" "kss_layout (kss_update s i k') = kss_layout s"
    and "kss_get (kss_update s i k') i' = (if i' = i then Some k' else kss_get s i')"
proof -
  obtain j where j: "kss_position s i = Some j" "j < length (kss_keyspaces s)" "kss_keyspaces s ! j = k"
    using assms(2) by (auto simp: kss_get_def nth_opt_def bind_eq_Some_conv split: if_splits)
  have u: "kss_update s i k' = s\<lparr> kss_keyspaces := (kss_keyspaces s)[j := k'] \<rparr>"
    using j by (simp add: kss_update_def)
  have ids: "ksp_id ((kss_keyspaces s)[j := k'] ! x) = ksp_id (kss_keyspaces s ! x)" for x
    using nth_layout[of j "kss_keyspaces s" k' x] assms(3) j by (intro ksp_layout_id) auto
  have "kss_wf s" by fact
  then show "kss_wf (kss_update s i k')"
    using assms(4) set_update_subset_insert[of "kss_keyspaces s" j k'] unfolding u kss_wf_def by (auto simp: ids)
  show "kss_layout (kss_update s i k') = kss_layout s"
    using j assms(3) by (simp add: u kss_layout_def map_update list_update_same_conv)
  have pos: "kss_position (kss_update s i k') x = kss_position s x" for x
    by (simp add: u kss_position_def)
  have "kss_position s i' = Some j' \<Longrightarrow> i' \<noteq> i \<Longrightarrow> j' \<noteq> j" for j'
    using kss_position_iff[OF assms(1)] j by auto
  then show "kss_get (kss_update s i k') i' = (if i' = i then Some k' else kss_get s i')"
    using j by (cases "kss_position s i'") (auto simp: kss_get_def u pos[unfolded u] nth_opt_def)
qed

section \<open>Opening\<close>

definition valid_set :: "keyspace_set list \<Rightarrow> bool" where
  "valid_set ds \<longleftrightarrow> distinct (map kst_id ds) \<and> distinct (map kst_name ds) \<and> (\<forall>d \<in> set ds. kst_id d < KEYSPACE_MAXIMUM_COUNT)"

lemma validate_existing_spec:
  assumes "\<forall>(i, e) \<in> set es. \<forall>j. e = Some j \<longrightarrow> j < length ks"
  shows "\<exists>r. validate_existing d ks es = Some r \<and>
    (r = Inr () \<longleftrightarrow> (\<forall>(i, e) \<in> set es. \<forall>j. e = Some j \<longrightarrow> ksp_name (ks ! j) \<noteq> kst_name d \<and> i \<noteq> kst_id d))"
  using assms by (induction d ks es rule: validate_existing.induct) (auto simp: nth_opt_def)

lemma validate_new_keyspace_spec:
  assumes "kss_wf s"
  shows "\<exists>r. validate_new_keyspace s d = Some r \<and> (r = Inr () \<longleftrightarrow>
    kst_id d < KEYSPACE_MAXIMUM_COUNT \<and> kst_id d \<notin> kss_ids s \<and> kst_name d \<notin> ksp_name ` set (kss_keyspaces s))"
proof -
  let ?es = "enumerate 0 (kss_index s)"
  have "(i, e) \<in> set ?es \<longleftrightarrow> i < KEYSPACE_MAXIMUM_COUNT \<and> e = kss_index s ! i" for i e
    using kss_wfD(1)[OF assms] by (auto simp: in_set_enumerate_eq)
  then have es: "set ?es = (\<lambda>i. (i, kss_index s ! i)) ` {..<KEYSPACE_MAXIMUM_COUNT}"
    by (intro set_eqI) (auto simp: image_iff)
  have free: "(\<forall>(i, e) \<in> set ?es. \<forall>j. e = Some j \<longrightarrow> ksp_name (kss_keyspaces s ! j) \<noteq> kst_name d \<and> i \<noteq> kst_id d)
    \<longleftrightarrow> kst_id d \<notin> kss_ids s \<and> kst_name d \<notin> ksp_name ` set (kss_keyspaces s)"
    (is "?l \<longleftrightarrow> ?r")
  proof -
    have "?l \<longleftrightarrow> (\<forall>i < KEYSPACE_MAXIMUM_COUNT. \<forall>j. kss_index s ! i = Some j \<longrightarrow>
        ksp_name (kss_keyspaces s ! j) \<noteq> kst_name d \<and> i \<noteq> kst_id d)"
      unfolding es by auto
    also have "\<dots> \<longleftrightarrow> (\<forall>j < length (kss_keyspaces s).
        ksp_name (kss_keyspaces s ! j) \<noteq> kst_name d \<and> ksp_id (kss_keyspaces s ! j) \<noteq> kst_id d)"
      using kss_wfD(2-4)[OF assms] by blast
    also have "\<dots> \<longleftrightarrow> (\<forall>k \<in> set (kss_keyspaces s). ksp_name k \<noteq> kst_name d \<and> ksp_id k \<noteq> kst_id d)"
      by (simp only: all_set_conv_all_nth)
    also have "\<dots> \<longleftrightarrow> ?r" unfolding kss_ids_def image_iff by metis
    finally show ?thesis .
  qed
  have "\<forall>(i, e) \<in> set ?es. \<forall>j. e = Some j \<longrightarrow> j < length (kss_keyspaces s)"
    unfolding es using kss_wfD(2)[OF assms] by auto
  from validate_existing_spec[OF this, of d] show ?thesis
    unfolding free validate_new_keyspace_def
    by (auto simp: KEYSPACE_ID_RESERVED_UNSET_def KEYSPACE_ID_MAX_def KEYSPACE_MAXIMUM_COUNT_def)
qed
lemma kss_push_spec:
  assumes "kss_wf s" "kst_id d < KEYSPACE_MAXIMUM_COUNT" "kst_id d \<notin> kss_ids s" "length (kss_keyspaces s) < 255"
  shows "\<exists>s'. kss_push d s = Some s' \<and> kss_wf s' \<and> kss_keyspaces s' = kss_keyspaces s @ [ksp_new d]"
proof -
  let ?n = "length (kss_keyspaces s)"
  let ?s' = "\<lparr> kss_keyspaces = kss_keyspaces s @ [ksp_new d], kss_index = (kss_index s)[kst_id d := Some ?n] \<rparr>"
  note wf = kss_wfD[OF assms(1)]
  have "kss_push d s = Some ?s'"
    using assms wf(1) by (simp add: kss_push_def Let_def seq_minus_def)
  moreover have "kss_wf ?s'"
  proof -
    have other: "ksp_id (kss_keyspaces s ! j) \<noteq> kst_id d" if "j < ?n" for j
      using that assms(3) unfolding kss_ids_def by (metis imageI nth_mem)
    have "ksp_id (k ! j) < KEYSPACE_MAXIMUM_COUNT \<and> (kss_index s)[kst_id d := Some ?n] ! ksp_id (k ! j) = Some j"
      if "j < Suc ?n" "k = kss_keyspaces s @ [ksp_new d]" for j k
      using that other[of j] wf(1) wf(3,4)[of j] assms(2) by (cases "j < ?n") (auto simp: nth_append ksp_new_def less_Suc_eq)
    moreover have "j < Suc ?n \<and> ksp_id ((kss_keyspaces s @ [ksp_new d]) ! j) = i"
      if "i < KEYSPACE_MAXIMUM_COUNT" "(kss_index s)[kst_id d := Some ?n] ! i = Some j" for i j
      using that wf(1) wf(2)[of i j] assms(2) by (cases "i = kst_id d") (auto simp: nth_append ksp_new_def)
    moreover have "mb_inv (ksp_backend (ksp_new d))" by (simp add: ksp_new_def mb_inv_def mb_new_def)
    ultimately show ?thesis using wf(1,5) by (auto simp: kss_wf_def)
  qed
  ultimately show ?thesis by simp
qed

lemma kss_wf_new [simp]: "kss_wf kss_new"
  by (simp add: kss_wf_def kss_new_def)

lemma kss_wf_ids: "kss_wf s \<Longrightarrow> kss_ids s \<subseteq> {..<KEYSPACE_MAXIMUM_COUNT}"
  using kss_wfD(3)[of s] by (auto simp: kss_ids_def in_set_conv_nth)

lemma kss_wf_distinct: "kss_wf s \<Longrightarrow> distinct (map ksp_id (kss_keyspaces s))"
  using kss_wfD(4)[of s] by (auto simp: distinct_conv_nth) (metis option.inject)

lemma kss_wf_length: "kss_wf s \<Longrightarrow> length (kss_keyspaces s) \<le> KEYSPACE_MAXIMUM_COUNT"
  using card_mono[OF _ kss_wf_ids, of s] distinct_card[OF kss_wf_distinct, of s] by (simp add: kss_ids_def)

lemma ksp_new_fields [simp]: "ksp_id (ksp_new d) = kst_id d" "ksp_name (ksp_new d) = kst_name d"
  by (simp_all add: ksp_new_def)

lemma kss_open_loop_spec:
  assumes "kss_wf s"
  shows "\<exists>r. kss_open_loop ds s = Some r
    \<and> ((\<exists>s'. r = Inr s') \<longleftrightarrow> valid_set ds \<and> kst_id ` set ds \<inter> kss_ids s = {}
         \<and> kst_name ` set ds \<inter> ksp_name ` set (kss_keyspaces s) = {})
    \<and> (\<forall>s'. r = Inr s' \<longrightarrow> kss_wf s' \<and> kss_keyspaces s' = kss_keyspaces s @ map ksp_new ds)"
  using assms
proof (induction ds arbitrary: s)
  case Nil
  then show ?case by (simp add: valid_set_def)
next
  case (Cons d ds)
  obtain v where v: "validate_new_keyspace s d = Some v" "v = Inr () \<longleftrightarrow> kst_id d < KEYSPACE_MAXIMUM_COUNT
      \<and> kst_id d \<notin> kss_ids s \<and> kst_name d \<notin> ksp_name ` set (kss_keyspaces s)"
    using validate_new_keyspace_spec[OF Cons.prems] by blast
  show ?case
  proof (cases v)
    case (Inl e)
    then show ?thesis using v by (auto simp: valid_set_def)
  next
    case (Inr u)
    with v have ok: "kst_id d < KEYSPACE_MAXIMUM_COUNT" "kst_id d \<notin> kss_ids s"
        "kst_name d \<notin> ksp_name ` set (kss_keyspaces s)" by auto
    obtain s1 where s1: "kss_push d s = Some s1" "kss_wf s1" "kss_keyspaces s1 = kss_keyspaces s @ [ksp_new d]"
      using kss_push_spec[OF Cons.prems ok(1,2)] kss_wf_length[OF Cons.prems] by (auto simp: KEYSPACE_MAXIMUM_COUNT_def)
    have step: "kss_open_loop (d # ds) s = kss_open_loop ds s1" using v s1 Inr by simp
    have ids: "kss_ids s1 = insert (kst_id d) (kss_ids s)"
        "ksp_name ` set (kss_keyspaces s1) = insert (kst_name d) (ksp_name ` set (kss_keyspaces s))"
      using s1(3) by (simp_all add: kss_ids_def)
    have "(valid_set ds \<and> kst_id ` set ds \<inter> kss_ids s1 = {} \<and> kst_name ` set ds \<inter> ksp_name ` set (kss_keyspaces s1) = {})
      \<longleftrightarrow> (valid_set (d # ds) \<and> kst_id ` set (d # ds) \<inter> kss_ids s = {}
        \<and> kst_name ` set (d # ds) \<inter> ksp_name ` set (kss_keyspaces s) = {})"
      unfolding ids valid_set_def using ok by auto
    moreover have "kss_keyspaces s1 @ map ksp_new ds = kss_keyspaces s @ map ksp_new (d # ds)" using s1(3) by simp
    ultimately show ?thesis using Cons.IH[OF s1(2)] unfolding step by (simp only:)
  qed
qed

section \<open>Writing\<close>

definition batches_for :: "keyspace_id \<Rightarrow> (nat \<times> memory_write_batch) list \<Rightarrow> memory_write_batch" where
  "batches_for i bs = concat (map (\<lambda>(j, b). if j = i then b else []) bs)"

lemma ksp_write_spec:
  assumes "mb_inv (ksp_backend k)"
  shows "\<exists>k'. ksp_write b k = (Inr (), k') \<and> ksp_layout k' = ksp_layout k \<and> mb_inv (ksp_backend k') \<and>
    mb_contents (ksp_backend k') = fold op_effect b (mb_contents (ksp_backend k))"
  using memory.batch_contents[OF assms, of b] by (auto simp: ksp_write_def map_backend_def ksp_layout_def)

lemma kss_write_loop_spec:
  assumes "kss_wf s" "fst ` set bs \<subseteq> kss_ids s"
  shows "\<exists>s'. kss_write_loop bs s = Some (Inr (), s') \<and> kss_wf s' \<and> kss_layout s' = kss_layout s \<and>
    (\<forall>i. kss_contents s' i = fold op_effect (batches_for i bs) (kss_contents s i))"
  using assms
proof (induction bs arbitrary: s)
  case Nil
  then show ?case by (simp add: batches_for_def)
next
  case (Cons e bs)
  obtain i b where e: "e = (i, b)" by (cases e)
  obtain k where k: "kss_get s i = Some k"
    using kss_get_None_iff[OF Cons.prems(1), of i] Cons.prems(2) e by (cases "kss_get s i") auto
  obtain k' where k': "ksp_write b k = (Inr (), k')" "ksp_layout k' = ksp_layout k" "mb_inv (ksp_backend k')"
      "mb_contents (ksp_backend k') = fold op_effect b (mb_contents (ksp_backend k))"
    using ksp_write_spec[of k b] kss_wfD(5)[OF Cons.prems(1)] k kss_get_iff[OF Cons.prems(1)] by blast
  note u = kss_update_wf[OF Cons.prems(1) k k'(2,3)]
  have "fst ` set bs \<subseteq> kss_ids (kss_update s i k')"
    using Cons.prems(2) kss_layout_ids[OF u(2)] e by simp
  from Cons.IH[OF u(1) this] obtain s' where s': "kss_write_loop bs (kss_update s i k') = Some (Inr (), s')" "kss_wf s'"
      "kss_layout s' = kss_layout s"
      "\<forall>x. kss_contents s' x = fold op_effect (batches_for x bs) (kss_contents (kss_update s i k') x)"
    using u(2) by auto
  have "kss_contents (kss_update s i k') x = fold op_effect (if x = i then b else []) (kss_contents s x)" for x
    using k k' by (simp add: kss_contents_def u(3))
  then have "\<forall>x. kss_contents s' x = fold op_effect (batches_for x (e # bs)) (kss_contents s x)"
    using s'(4) by (auto simp: batches_for_def e)
  then show ?case using s' k k' by (auto simp: e)
qed
lemma batches_iter_snoc:
  "batches_iter (bs @ [b]) = batches_iter bs @ (case b of None \<Rightarrow> [] | Some w \<Rightarrow> [(length bs, w)])"
  by (simp add: batches_iter_def enumerate_append_eq)

lemma batches_for_append [simp]: "batches_for i (xs @ ys) = batches_for i xs @ batches_for i ys"
  by (simp add: batches_for_def)

lemma batches_for_iter:
  "batches_for i (batches_iter bs) = (case nth_opt bs i of Some (Some w) \<Rightarrow> w | _ \<Rightarrow> [])"
proof (induction bs rule: rev_induct)
  case Nil
  then show ?case by (simp add: batches_iter_def batches_for_def nth_opt_def)
next
  case (snoc b bs)
  then show ?case
    by (auto simp: batches_iter_snoc nth_opt_def nth_append batches_for_def less_Suc_eq split: option.splits)
qed

lemma set_batches_iter: "(i, w) \<in> set (batches_iter bs) \<longleftrightarrow> i < length bs \<and> bs ! i = Some w"
  by (auto simp: batches_iter_def in_set_enumerate_eq split: option.splits)

section \<open>Snapshots round trip\<close>

definition snapshot_bytes :: "keyspace \<Rightarrow> bytes" where
  "snapshot_bytes k = concat (map export_entry (mb_data (ksp_backend k)))"

text \<open>What the byte format can hold: names of at most 255 bytes, data and every key and value of less than
  four gigabytes.\<close>

definition snapshot_fits :: "keyspace \<Rightarrow> bool" where
  "snapshot_fits k \<longleftrightarrow> ksp_id k < 256 \<and> length (ksp_name k) < 256 \<and> utf8_valid (ksp_name k)
     \<and> exportable (mb_data (ksp_backend k)) \<and> length (snapshot_bytes k) < 2 ^ 32"

lemma import_exported:
  "mb_inv mb \<Longrightarrow> exportable (mb_data mb) \<Longrightarrow> import_loop (concat (map export_entry (mb_data mb))) 0 [] = Inr (mb_data mb)"
  using import_loop_export[of "mb_data mb" "[]" "[]"] fold_bt_insert_append[of "[]" "mb_data mb"]
  by (simp add: mb_inv_def)

lemma ksp_import_exported:
  assumes "mb_inv (ksp_backend k)" "snapshot_fits k" "mb_inv (ksp_backend k')" "ksp_layout k' = ksp_layout k"
  shows "ksp_import_data (snapshot_bytes k) k' = (Inr (), k)"
proof -
  have "ksp_import_data (snapshot_bytes k) k' = (Inr (), k'\<lparr> ksp_backend := (ksp_backend k')\<lparr> mb_data := mb_data (ksp_backend k) \<rparr> \<rparr>)"
    using assms import_exported[of "ksp_backend k"]
    by (simp add: ksp_import_data_def map_backend_def import_data_def snapshot_fits_def snapshot_bytes_def mb_inv_def)
  then show ?thesis using assms
    by (auto simp: ksp_layout_def mb_inv_def intro!: keyspace.equality memory_backend.equality)
qed

lemma slice_mid: "slice (xs @ ys @ zs) (length xs) (length xs + length ys) = ys"
  by (simp add: slice_def)

lemma read_keyspace_exported:
  assumes "snapshot_fits k"
  shows "read_keyspace (pre @ export_keyspace k (snapshot_bytes k) @ rest) (length pre) =
    Inr (ksp_id k, snapshot_bytes k, length (pre @ export_keyspace k (snapshot_bytes k)))"
proof -
  let ?d = "snapshot_bytes k" and ?p = "length pre" and ?n = "length (ksp_name k)"
  define b where "b = pre @ export_keyspace k ?d @ rest"
  have fits: "ksp_id k < 256" "?n < 256" "length ?d < 256 ^ 4" "utf8_valid (ksp_name k)"
    using assms by (simp_all add: snapshot_fits_def)
  have b: "b = pre @ word_of_nat (ksp_id k) # word_of_nat ?n # ksp_name k @ le_encode 4 (length ?d) @ ?d @ rest"
    by (simp add: b_def export_keyspace_def)
  have len: "length b = ?p + 2 + ?n + 4 + length ?d + length rest"
    unfolding b by (simp del: le_encode_numeral)
  have s: "unat (b ! ?p) = ksp_id k" "unat (b ! (?p + 1)) = ?n"
      "slice b (?p + 2) (?p + 2 + ?n) = ksp_name k"
      "le_decode (slice b (?p + 2 + ?n) (?p + 2 + ?n + 4)) = length ?d"
    using fits unfolding b
    by (simp_all add: slice_def le_decode_encode nth_append numeral_2_eq_2 del: le_encode_numeral)
  have d: "slice b (?p + 2 + ?n + 4) (?p + 2 + ?n + 4 + length ?d) = ?d"
    using slice_mid[of "pre @ word_of_nat (ksp_id k) # word_of_nat ?n # ksp_name k @ le_encode 4 (length ?d)" ?d rest]
    unfolding b by (simp add: algebra_simps del: le_encode_numeral)
  have "read_keyspace b ?p = Inr (ksp_id k, ?d, ?p + 2 + ?n + 4 + length ?d)"
    using len fits(4) unfolding read_keyspace_def Let_def s d by simp
  then show ?thesis unfolding b_def by (simp add: export_keyspace_def add.assoc del: le_encode_numeral)
qed

lemma import_keyspaces_exported:
  assumes "map ksp_layout td' = map ksp_layout td"
    and "\<forall>k \<in> set td. mb_inv (ksp_backend k) \<and> snapshot_fits k" "\<forall>k \<in> set td'. mb_inv (ksp_backend k)"
    and "\<forall>j < length td. ksp_id (td ! j) < length idx \<and> idx ! ksp_id (td ! j) = Some (length dn + j)"
  shows "import_keyspaces (length td) (pre @ concat (map (\<lambda>k. export_keyspace k (snapshot_bytes k)) td)) (length pre)
      \<lparr> kss_keyspaces = dn @ td', kss_index = idx \<rparr> = Some (Inr (), \<lparr> kss_keyspaces = dn @ td, kss_index = idx \<rparr>)"
  using assms
proof (induction td arbitrary: td' dn pre)
  case Nil
  then show ?case by simp
next
  case (Cons k td)
  obtain k' tl' where td': "td' = k' # tl'" "ksp_layout k' = ksp_layout k" "map ksp_layout tl' = map ksp_layout td"
    using Cons.prems(1) by (cases td') auto
  let ?e = "export_keyspace k (snapshot_bytes k)"
  let ?rest = "concat (map (\<lambda>k. export_keyspace k (snapshot_bytes k)) td)"
  have idx: "ksp_id k < length idx" "idx ! ksp_id k = Some (length dn)"
    using Cons.prems(4)[rule_format, of 0] by simp_all
  have imp: "ksp_import_data (snapshot_bytes k) k' = (Inr (), k)"
    using ksp_import_exported[of k k'] Cons.prems(2,3) td' by simp
  have "\<forall>j < length td. ksp_id (td ! j) < length idx \<and> idx ! ksp_id (td ! j) = Some (length (dn @ [k]) + j)"
    using Cons.prems(4)[rule_format, of "Suc j" for j] by simp
  then have "import_keyspaces (length td) ((pre @ ?e) @ ?rest) (length (pre @ ?e))
      \<lparr> kss_keyspaces = (dn @ [k]) @ tl', kss_index = idx \<rparr> = Some (Inr (), \<lparr> kss_keyspaces = (dn @ [k]) @ td, kss_index = idx \<rparr>)"
    using Cons.prems(2,3) td' by (intro Cons.IH) auto
  then show ?case
    using read_keyspace_exported[of k pre ?rest] Cons.prems(2) idx imp
    by (simp add: td' nth_opt_def)
qed

lemma export_keyspaces_spec:
  "\<forall>k \<in> set ks. mb_inv (ksp_backend k) \<Longrightarrow>
   export_keyspaces ks out = Inr (out @ concat (map (\<lambda>k. export_keyspace k (snapshot_bytes k)) ks))"
  by (induction ks arbitrary: out) (auto simp: ksp_export_data_def export_data_def mb_inv_def snapshot_bytes_def)

lemma length_export_header [simp]: "length (export_header w n) = 16"
  by (simp add: export_header_def SNAPSHOT_MAGIC_def del: le_encode_numeral)

lemma import_header:
  assumes "w < 2 ^ 64" "n < 256"
  shows "import_snapshot_with_watermark (export_header w n @ rest) s =
    map_option (apfst (map_sum id (\<lambda>_. w))) (import_keyspaces n (export_header w n @ rest) 16 s)"
proof -
  let ?b = "export_header w n @ rest"
  have b: "?b = SNAPSHOT_MAGIC @ SNAPSHOT_VERSION # le_encode 8 w @ word_of_nat n # rest"
    by (simp add: export_header_def)
  have m: "length SNAPSHOT_MAGIC = 6" by (simp add: SNAPSHOT_MAGIC_def)
  have "slice ?b 0 6 = SNAPSHOT_MAGIC" "?b ! 6 = 2" "le_decode (slice ?b 7 15) = w" "unat (?b ! 15) = n"
    using assms unfolding b by (simp_all add: slice_def nth_append m SNAPSHOT_VERSION_def le_decode_encode
        del: le_encode_numeral)
  then show ?thesis by (simp add: import_snapshot_with_watermark_def)
qed
lemma export_import_snapshot:
  assumes "kss_wf s" and "kss_wf s'" and "kss_layout s' = kss_layout s"
    and "\<forall>k \<in> set (kss_keyspaces s). snapshot_fits k" and "w < 2 ^ 64"
  shows "\<exists>bytes. export_snapshot_with_watermark w s = Inr bytes \<and>
    import_snapshot_with_watermark bytes s' = Some (Inr w, s)"
proof -
  let ?ks = "kss_keyspaces s"
  let ?b = "concat (map (\<lambda>k. export_keyspace k (snapshot_bytes k)) ?ks)"
  let ?h = "export_header w (length ?ks)"
  have len: "length ?ks < 256" using kss_wf_length[OF assms(1)] by (simp add: KEYSPACE_MAXIMUM_COUNT_def)
  have ks': "map ksp_layout (kss_keyspaces s') = map ksp_layout ?ks" "kss_index s' = kss_index s"
    using assms(3) by (auto simp: kss_layout_def)
  have "import_keyspaces (length ?ks) (?h @ ?b) (length ?h) \<lparr> kss_keyspaces = [] @ kss_keyspaces s', kss_index = kss_index s \<rparr>
      = Some (Inr (), \<lparr> kss_keyspaces = [] @ ?ks, kss_index = kss_index s \<rparr>)"
    using assms kss_wfD[OF assms(1)] kss_wfD(5)[OF assms(2)] ks'(1) by (intro import_keyspaces_exported) auto
  then have "import_keyspaces (length ?ks) (?h @ ?b) 16 s' = Some (Inr (), s)"
    using ks'(2) by (cases s, cases s') simp
  then have "import_snapshot_with_watermark (?h @ ?b) s' = Some (Inr w, s)"
    using import_header[OF assms(5) len, of ?b s'] by simp
  moreover have "export_snapshot_with_watermark w s = Inr (?h @ ?b)"
    using export_keyspaces_spec[of ?ks] kss_wfD(5)[OF assms(1)] by (simp add: export_snapshot_with_watermark_def)
  ultimately show ?thesis by blast
qed

section \<open>Properties\<close>

text \<open>Opening a set of keyspaces never panics and succeeds exactly when their identifiers are distinct and
  in range and their names are distinct; the result has one empty keyspace per member, in order, each
  reachable through its identifier.\<close>

theorem kss_open_correct:
  "kss_open ds \<noteq> None \<and> ((\<exists>s. kss_open ds = Some (Inr s)) \<longleftrightarrow> valid_set ds) \<and>
   (\<forall>s. kss_open ds = Some (Inr s) \<longrightarrow> kss_wf s \<and> kss_keyspaces s = map ksp_new ds)"
  using kss_open_loop_spec[OF kss_wf_new, of ds] by (auto simp: kss_open_def kss_ids_def kss_new_def)

theorem kss_open_correct_witness:
  "\<exists>s. kss_open [\<lparr> kst_id = 0, kst_name = [65], kst_prefix_length = Some 11 \<rparr>,
      \<lparr> kst_id = 3, kst_name = [66], kst_prefix_length = None \<rparr>] = Some (Inr s) \<and> kss_wf s"
proof -
  let ?ds = "[\<lparr> kst_id = 0, kst_name = [65], kst_prefix_length = Some 11 \<rparr>,
      \<lparr> kst_id = 3, kst_name = [66], kst_prefix_length = None \<rparr>] :: keyspace_set list"
  have "valid_set ?ds" by (simp add: valid_set_def KEYSPACE_MAXIMUM_COUNT_def)
  then show ?thesis using kss_open_correct[of ?ds] by blast
qed

text \<open>C15: writing the batches of a commit to keyspaces that exist succeeds; it changes each keyspace by its own
  batch, in order, leaves the others as they are and keeps the table well-formed.\<close>

theorem kss_write_correct:
  assumes "kss_wf s" and "\<forall>i < length bs. bs ! i \<noteq> None \<longrightarrow> i \<in> kss_ids s"
  shows "\<exists>s'. kss_write bs s = Some (Inr (), s') \<and> kss_wf s' \<and> kss_layout s' = kss_layout s \<and>
    (\<forall>i. kss_contents s' i =
      (case nth_opt bs i of Some (Some w) \<Rightarrow> fold op_effect w (kss_contents s i) | _ \<Rightarrow> kss_contents s i))"
proof -
  have "fst ` set (batches_iter bs) \<subseteq> kss_ids s" using assms(2) by (auto simp: set_batches_iter)
  moreover have "fold op_effect (batches_for i (batches_iter bs)) m =
      (case nth_opt bs i of Some (Some w) \<Rightarrow> fold op_effect w m | _ \<Rightarrow> m)" for i m
    by (simp add: batches_for_iter split: option.splits)
  ultimately show ?thesis using kss_write_loop_spec[OF assms(1), of "batches_iter bs"] by (simp add: kss_write_def)
qed

definition example_keyspaces :: keyspaces where
  "example_keyspaces = \<lparr> kss_keyspaces =
       [ksp_new \<lparr> kst_id = 2, kst_name = [65], kst_prefix_length = None \<rparr>,
        ksp_new \<lparr> kst_id = 0, kst_name = [66], kst_prefix_length = None \<rparr>],
     kss_index = [Some 1, None, Some 0, None, None, None, None, None, None, None] \<rparr>"

lemma example_keyspaces_wf [simp]: "kss_wf example_keyspaces"
  by (auto simp: kss_wf_def example_keyspaces_def KEYSPACE_MAXIMUM_COUNT_def mb_inv_def mb_new_def ksp_new_def
      numeral_eq_Suc less_Suc_eq)

theorem kss_write_correct_witness:
  "\<exists>s'. kss_write [Some [WPut [7] [8]]] example_keyspaces = Some (Inr (), s') \<and>
     kss_contents s' 0 = [[7] \<mapsto> [8]] \<and> kss_contents s' 2 = Map.empty"
proof -
  have ids: "kss_ids example_keyspaces = {0, 2}" by (auto simp: kss_ids_def example_keyspaces_def)
  have "kss_contents example_keyspaces i = Map.empty" if "i \<in> {0, 2}" for i
    using that by (auto simp: kss_contents_def kss_get_def kss_position_def nth_opt_def example_keyspaces_def
        ksp_new_def mb_new_def mb_contents_def fun_eq_iff)
  then show ?thesis
    using kss_write_correct[of example_keyspaces "[Some [WPut [7] [8]]]"] by (auto simp: ids nth_opt_def)
qed

text \<open>A snapshot of all keyspaces restores them: importing the exported bytes into keyspaces of the same
  layout, whatever they hold, succeeds, yields the exported state and returns the watermark.\<close>

theorem snapshot_roundtrip:
  assumes "kss_wf s" and "kss_wf s'" and "kss_layout s' = kss_layout s"
    and "\<forall>k \<in> set (kss_keyspaces s). snapshot_fits k" and "w < 2 ^ 64"
  shows "\<exists>bytes. export_snapshot_with_watermark w s = Inr bytes \<and>
    import_snapshot_with_watermark bytes s' = Some (Inr w, s)"
  by (rule export_import_snapshot[OF assms])

theorem snapshot_roundtrip_witness:
  "\<exists>bytes. export_snapshot_with_watermark 5 example_keyspaces = Inr bytes \<and>
     import_snapshot_with_watermark bytes example_keyspaces = Some (Inr 5, example_keyspaces)"
proof -
  have "\<forall>k \<in> set (kss_keyspaces example_keyspaces). snapshot_fits k"
    by (simp add: example_keyspaces_def snapshot_fits_def snapshot_bytes_def exportable_def ksp_new_def mb_new_def)
  then show ?thesis using snapshot_roundtrip[of example_keyspaces example_keyspaces 5] by simp
qed

text \<open>A snapshot that names a keyspace identifier beyond the table makes the import panic, although an
  identifier without a keyspace is meant to be skipped.\<close>

theorem import_unknown_keyspace_panics:
  assumes "KEYSPACE_MAXIMUM_COUNT \<le> unat i" and "kss_wf s"
  shows "import_snapshot_with_watermark (export_header 0 1 @ [i, 0, 0, 0, 0, 0]) s = None"
proof -
  let ?h = "export_header 0 1"
  have "read_keyspace (?h @ [i, 0, 0, 0, 0, 0]) 16 = Inr (unat i, [], 22)"
    by (simp add: read_keyspace_def Let_def nth_append slice_def)
  moreover have "nth_opt (kss_index s) (unat i) = None"
    using assms kss_wfD(1)[OF assms(2)] by (simp add: nth_opt_def)
  ultimately show ?thesis using import_header[of 0 1 "[i, 0, 0, 0, 0, 0]" s] by simp
qed

theorem import_unknown_keyspace_panics_witness:
  "import_snapshot_with_watermark (export_header 0 1 @ [10, 0, 0, 0, 0, 0]) kss_new = None"
  using import_unknown_keyspace_panics[of 10 kss_new] by (simp add: KEYSPACE_MAXIMUM_COUNT_def)

end
