(* ===== verification/Iterators.thy ===== *)
theory Iterators
  imports Prelude "HOL-Library.Multiset"
begin

text \<open>
  Lending iterators (\<^verbatim>\<open>src/common/lending_iterator\<close>): the \<^verbatim>\<open>Peekable\<close> adaptor and the interface the range
  iterators of the storage implement.  An iterator is a state with a partial \<open>next\<close>, whose None is a
  panic; the interface relates it to the list of items that are still to come.
\<close>

section \<open>Peekable\<close>

record ('s, 'i) peekable =
  pk_iter :: 's
  pk_item :: "'i option"

definition pk_new :: "'s \<Rightarrow> ('s, 'i) peekable" where
  "pk_new iter = \<lparr> pk_iter = iter, pk_item = None \<rparr>"

definition pk_get_peeked :: "('s, 'i) peekable \<Rightarrow> 'i option" where
  "pk_get_peeked self = pk_item self"

definition pk_peek :: "('s \<Rightarrow> ('i option \<times> 's) option) \<Rightarrow> ('s, 'i) peekable \<Rightarrow>
    ('i option \<times> ('s, 'i) peekable) option" where
  "pk_peek nxt self =
     (case pk_item self of
        Some _ \<Rightarrow> Some (pk_get_peeked self, self)
      | None \<Rightarrow>
          (case nxt (pk_iter self) of
             None \<Rightarrow> None
           | Some (item, iter) \<Rightarrow>
               let self = \<lparr> pk_iter = iter, pk_item = item \<rparr> in Some (pk_get_peeked self, self)))"

definition pk_next :: "('s \<Rightarrow> ('i option \<times> 's) option) \<Rightarrow> ('s, 'i) peekable \<Rightarrow>
    ('i option \<times> ('s, 'i) peekable) option" where
  "pk_next nxt self =
     (case pk_item self of
        Some item \<Rightarrow> Some (Some item, self\<lparr> pk_item := None \<rparr>)
      | None \<Rightarrow>
          (case nxt (pk_iter self) of
             None \<Rightarrow> None
           | Some (item, iter) \<Rightarrow> Some (item, self\<lparr> pk_iter := iter \<rparr>)))"

text \<open>Seeking backwards past the stored item is \<^verbatim>\<open>unreachable!\<close>.\<close>

definition pk_seek :: "('i \<Rightarrow> 'k::linorder) \<Rightarrow> ('k \<Rightarrow> 's \<Rightarrow> 's option) \<Rightarrow> 'k \<Rightarrow> ('s, 'i) peekable \<Rightarrow>
    ('s, 'i) peekable option" where
  "pk_seek key_of seek key self =
     (case pk_item self of
        Some item \<Rightarrow>
          if key_of item < key
          then map_option (\<lambda>iter. \<lparr> pk_iter = iter, pk_item = None \<rparr>) (seek key (pk_iter self))
          else if key_of item = key then Some self
          else None
      | None \<Rightarrow> map_option (\<lambda>iter. \<lparr> pk_iter = iter, pk_item = None \<rparr>) (seek key (pk_iter self)))"

text \<open>Draining an iterator; the fuel bounds the number of calls.\<close>

fun it_collect :: "('s \<Rightarrow> ('i option \<times> 's) option) \<Rightarrow> nat \<Rightarrow> 's \<Rightarrow> 'i list option" where
  "it_collect nxt 0 s = None"
| "it_collect nxt (Suc fuel) s =
     (case nxt s of
        None \<Rightarrow> None
      | Some (None, _) \<Rightarrow> Some []
      | Some (Some x, s') \<Rightarrow> map_option (Cons x) (it_collect nxt fuel s'))"

section \<open>The iterator interface\<close>

definition pk_rest :: "('s \<Rightarrow> 'i list) \<Rightarrow> ('s, 'i) peekable \<Rightarrow> 'i list" where
  "pk_rest rest p = (case pk_item p of None \<Rightarrow> rest (pk_iter p) | Some x \<Rightarrow> x # rest (pk_iter p))"

definition pk_inv :: "('s \<Rightarrow> bool) \<Rightarrow> ('s, 'i) peekable \<Rightarrow> bool" where
  "pk_inv I p = I (pk_iter p)"

text \<open>A stored item is the last one taken from the iterator below.\<close>

definition pk_at :: "('i \<Rightarrow> 'k::linorder) \<Rightarrow> ('s \<Rightarrow> 'k \<Rightarrow> bool) \<Rightarrow> ('s, 'i) peekable \<Rightarrow> bool" where
  "pk_at key_of passed p \<longleftrightarrow> (\<forall>x. pk_item p = Some x \<longrightarrow> (\<forall>k > key_of x. passed (pk_iter p) k))"

locale lending_iterator =
  fixes inv :: "'s \<Rightarrow> bool"
    and rest :: "'s \<Rightarrow> 'i list"
    and nxt :: "'s \<Rightarrow> ('i option \<times> 's) option"
  assumes next_Nil: "inv s \<Longrightarrow> rest s = [] \<Longrightarrow> \<exists>s'. nxt s = Some (None, s') \<and> inv s' \<and> rest s' = []"
    and next_Cons: "inv s \<Longrightarrow> rest s = x # xs \<Longrightarrow> \<exists>s'. nxt s = Some (Some x, s') \<and> inv s' \<and> rest s' = xs"
begin

lemma collect_rest: "inv s \<Longrightarrow> length (rest s) < fuel \<Longrightarrow> it_collect nxt fuel s = Some (rest s)"
proof (induction fuel arbitrary: s)
  case (Suc fuel)
  show ?case
  proof (cases "rest s")
    case Nil
    then show ?thesis using next_Nil[OF Suc.prems(1)] by auto
  next
    case (Cons x xs)
    then obtain s' where "nxt s = Some (Some x, s')" "inv s'" "rest s' = xs"
      using next_Cons[OF Suc.prems(1)] by blast
    then show ?thesis using Suc Cons by simp
  qed
qed simp

lemma nextE:
  assumes "inv s"
  obtains s' where "nxt s = Some (case rest s of [] \<Rightarrow> None | x # _ \<Rightarrow> Some x, s')" "inv s'" "rest s' = tl (rest s)"
  using next_Nil[OF assms] next_Cons[OF assms] by (cases "rest s") auto

lemma peekE:
  assumes "pk_inv inv p"
  obtains p' where "pk_peek nxt p = Some (case pk_rest rest p of [] \<Rightarrow> None | x # _ \<Rightarrow> Some x, p')"
    "pk_inv inv p'" "pk_rest rest p' = pk_rest rest p"
    "pk_item p' = (case pk_rest rest p of [] \<Rightarrow> None | x # _ \<Rightarrow> Some x)"
proof (cases "pk_item p")
  case None
  obtain s' where s': "nxt (pk_iter p) = Some (case rest (pk_iter p) of [] \<Rightarrow> None | x # _ \<Rightarrow> Some x, s')"
      "inv s'" "rest s' = tl (rest (pk_iter p))"
    using nextE assms unfolding pk_inv_def by blast
  show ?thesis
    by (rule that[of "\<lparr> pk_iter = s', pk_item = (case rest (pk_iter p) of [] \<Rightarrow> None | x # _ \<Rightarrow> Some x) \<rparr>"])
      (use None s' in \<open>auto simp: pk_peek_def pk_rest_def pk_inv_def pk_get_peeked_def Let_def split: list.splits\<close>)
next
  case (Some x)
  then show ?thesis
    using assms that[of p] by (simp add: pk_peek_def pk_rest_def pk_get_peeked_def)
qed

lemma pk_nextE:
  assumes "pk_inv inv p"
  obtains p' where "pk_next nxt p = Some (case pk_rest rest p of [] \<Rightarrow> None | x # _ \<Rightarrow> Some x, p')"
    "pk_inv inv p'" "pk_rest rest p' = tl (pk_rest rest p)" "pk_item p' = None"
proof (cases "pk_item p")
  case None
  obtain s' where "nxt (pk_iter p) = Some (case rest (pk_iter p) of [] \<Rightarrow> None | x # _ \<Rightarrow> Some x, s')"
      "inv s'" "rest s' = tl (rest (pk_iter p))"
    using nextE assms unfolding pk_inv_def by blast
  then show ?thesis
    using None that[of "p\<lparr> pk_iter := s' \<rparr>"] by (auto simp: pk_next_def pk_rest_def pk_inv_def split: list.splits)
next
  case (Some x)
  then show ?thesis
    using assms that[of "p\<lparr> pk_item := None \<rparr>"] by (simp add: pk_next_def pk_rest_def pk_inv_def)
qed

text \<open>Wrapping an iterator in \<^verbatim>\<open>Peekable\<close> gives an iterator over the same items.\<close>

lemma peekable_iterator: "lending_iterator (pk_inv inv) (pk_rest rest) (pk_next nxt)"
  by unfold_locales (erule pk_nextE; force)+

lemma pk_new_rest [simp]: "pk_rest rest (pk_new s) = rest s" "pk_inv inv (pk_new s) = inv s"
  by (simp_all add: pk_new_def pk_rest_def pk_inv_def)

end

text \<open>A seekable iterator jumps over the items before a key.  It may jump only forwards: to a key that is
  beyond everything it has returned.\<close>

locale seekable_iterator = lending_iterator inv rest nxt
  for inv :: "'s \<Rightarrow> bool" and rest :: "'s \<Rightarrow> 'i list" and nxt :: "'s \<Rightarrow> ('i option \<times> 's) option" +
  fixes key_of :: "'i \<Rightarrow> 'k::linorder"
    and passed :: "'s \<Rightarrow> 'k \<Rightarrow> bool"
    and seek :: "'k \<Rightarrow> 's \<Rightarrow> 's option"
  assumes next_passed: "inv s \<Longrightarrow> nxt s = Some (Some x, s') \<Longrightarrow> key_of x < k \<Longrightarrow> passed s' k"
    and seek_forward: "inv s \<Longrightarrow> passed s k \<Longrightarrow>
      \<exists>s'. seek k s = Some s' \<and> inv s' \<and> rest s' = dropWhile (\<lambda>x. key_of x < k) (rest s)"
begin

lemma pk_peek_at:
  "pk_inv inv p \<Longrightarrow> pk_at key_of passed p \<Longrightarrow> pk_peek nxt p = Some (x, p') \<Longrightarrow> pk_at key_of passed p'"
  by (auto simp: pk_peek_def pk_at_def pk_inv_def pk_get_peeked_def Let_def intro: next_passed split: option.splits)

lemma pk_next_at:
  "pk_inv inv p \<Longrightarrow> pk_at key_of passed p \<Longrightarrow> pk_next nxt p = Some (Some x, p') \<Longrightarrow>
   pk_item p' = None \<and> pk_at key_of passed p' \<and> (\<forall>k > key_of x. passed (pk_iter p') k)"
  by (auto simp: pk_next_def pk_at_def pk_inv_def intro: next_passed split: option.splits)

lemma pk_at_new [simp]: "pk_at key_of passed (pk_new s)"
  by (simp add: pk_at_def pk_new_def)

text \<open>A peekable iterator whose stored item has just been taken can seek to any later key without reaching
  the \<^verbatim>\<open>unreachable!\<close> branch.\<close>

lemma pk_seekE:
  assumes "pk_inv inv p" "pk_item p = None" "passed (pk_iter p) k"
  obtains p' where "pk_seek key_of seek k p = Some p'" "pk_inv inv p'" "pk_item p' = None"
    "pk_rest rest p' = dropWhile (\<lambda>x. key_of x < k) (pk_rest rest p)"
proof -
  obtain s' where "seek k (pk_iter p) = Some s'" "inv s'" "rest s' = dropWhile (\<lambda>x. key_of x < k) (rest (pk_iter p))"
    using seek_forward[of "pk_iter p" k] assms by (auto simp: pk_inv_def)
  then show ?thesis
    using that[of "\<lparr> pk_iter = s', pk_item = None \<rparr>"] assms(2) by (simp add: pk_seek_def pk_rest_def pk_inv_def)
qed

end

end
