(* ===== verification/Mvcc.thy ===== *)
theory Mvcc
  imports Keyspaces Iterators
begin

text \<open>
  Multi-version reads (\<^verbatim>\<open>MVCCRangeIterator\<close> of \<^verbatim>\<open>src/storage/iterator.rs\<close>, and \<^verbatim>\<open>get\<close>, \<^verbatim>\<open>get_mapped\<close> and
  \<^verbatim>\<open>iterate_range\<close> of \<^verbatim>\<open>src/storage/storage.rs\<close>): an iterator over the raw keys of a keyspace that keeps the
  newest version visible at an open sequence number of every key, and drops the deleted ones.  The in-memory
  iterators never yield an error item, so items carry no error.  \<open>mvcc_read\<close> is the meaning of a read.
\<close>

section \<open>The keyspace range iterator implements the iterator interface\<close>

definition ri_rest :: "range_iterator \<Rightarrow> (bytes \<times> bytes) list" where
  "ri_rest it =
     (if ri_is_finished it then []
      else takeWhile (\<lambda>e. accept_value (ri_continue_condition it) (fst e) = Some True)
        (drop (mi_position (ri_iterator it)) (mi_entries (ri_iterator it))))"

text \<open>The entries to come are sorted, no test of them panics, and the accepted ones come first.\<close>

definition scan_ok :: "(bytes \<Rightarrow> bool option) \<Rightarrow> (bytes \<times> bytes) list \<Rightarrow> bool" where
  "scan_ok acc es \<longleftrightarrow> (\<forall>e \<in> set es. acc (fst e) \<noteq> None) \<and>
     (\<forall>x \<in> set es. \<forall>y \<in> set es. fst x < fst y \<and> acc (fst y) = Some True \<longrightarrow> acc (fst x) = Some True)"

definition ri_inv :: "range_iterator \<Rightarrow> bool" where
  "ri_inv it \<longleftrightarrow> bt_wf (mi_entries (ri_iterator it)) \<and>
     scan_ok (accept_value (ri_continue_condition it)) (drop (mi_position (ri_iterator it)) (mi_entries (ri_iterator it)))"

lemma scan_ok_subset: "scan_ok acc es \<Longrightarrow> set es' \<subseteq> set es \<Longrightarrow> scan_ok acc es'"
  unfolding scan_ok_def by blast

definition ri_passed :: "range_iterator \<Rightarrow> bytes \<Rightarrow> bool" where
  "ri_passed it k \<longleftrightarrow> ri_is_finished it \<or>
     (\<forall>e \<in> set (take (mi_position (ri_iterator it)) (mi_entries (ri_iterator it))). fst e < k)"

lemma bt_wf_drop [simp]: "bt_wf es \<Longrightarrow> bt_wf (drop n es)"
  by (metis append_take_drop_id bt_wf_append)

lemma ri_inv_step:
  "ri_inv s \<Longrightarrow> ri_inv (s\<lparr> ri_iterator := (ri_iterator s)\<lparr> mi_position := Suc (mi_position (ri_iterator s)) \<rparr>, ri_is_finished := b \<rparr>)"
  using scan_ok_subset[OF _ set_drop_subset_set_drop[of "mi_position (ri_iterator s)" "Suc (mi_position (ri_iterator s))"]]
  by (simp add: ri_inv_def)

lemma ri_next_Nil:
  assumes "ri_inv s" "ri_rest s = []"
  shows "\<exists>s'. ri_next s = Some (None, s') \<and> ri_inv s' \<and> ri_rest s' = []"
proof (cases "ri_is_finished s \<or> length (mi_entries (ri_iterator s)) \<le> mi_position (ri_iterator s)")
  case True
  then show ?thesis using assms by (auto simp: ri_next_def mi_next_def ri_inv_def ri_rest_def)
next
  case False
  let ?es = "mi_entries (ri_iterator s)" and ?p = "mi_position (ri_iterator s)"
  have d: "drop ?p ?es = ?es ! ?p # drop (Suc ?p) ?es" using False by (simp add: Cons_nth_drop_Suc)
  have "accept_value (ri_continue_condition s) (fst (?es ! ?p)) \<noteq> None"
    using assms(1) unfolding ri_inv_def scan_ok_def d by simp
  moreover have "accept_value (ri_continue_condition s) (fst (?es ! ?p)) \<noteq> Some True"
    using assms(2) False unfolding ri_rest_def d by (auto split: if_splits)
  ultimately have "accept_value (ri_continue_condition s) (fst (?es ! ?p)) = Some False" by auto
  then have "ri_next s = Some (None, s\<lparr> ri_iterator := (ri_iterator s)\<lparr> mi_position := Suc ?p \<rparr>, ri_is_finished := True \<rparr>)"
    using False by (simp add: ri_next_def mi_next_def)
  then show ?thesis using ri_inv_step[OF assms(1), of True] by (simp add: ri_rest_def)
qed

lemma ri_next_Cons:
  assumes "ri_inv s" "ri_rest s = x # xs"
  shows "\<exists>s'. ri_next s = Some (Some x, s') \<and> ri_inv s' \<and> ri_rest s' = xs \<and> (\<forall>k > fst x. ri_passed s' k)"
proof -
  let ?es = "mi_entries (ri_iterator s)" and ?p = "mi_position (ri_iterator s)"
  let ?s' = "s\<lparr> ri_iterator := (ri_iterator s)\<lparr> mi_position := Suc ?p \<rparr> \<rparr>"
  have p: "\<not> ri_is_finished s" "?p < length ?es"
    using assms(2) by (auto simp: ri_rest_def intro: ccontr split: if_splits)
  have d: "drop ?p ?es = ?es ! ?p # drop (Suc ?p) ?es" using p by (simp add: Cons_nth_drop_Suc)
  have x: "x = ?es ! ?p" "accept_value (ri_continue_condition s) (fst x) = Some True" "ri_rest ?s' = xs"
    using assms(2) p unfolding ri_rest_def d by (auto split: if_splits)
  have wf: "bt_wf (take ?p ?es @ x # drop (Suc ?p) ?es)" 
    using assms(1) append_take_drop_id[of ?p ?es] unfolding d x(1)[symmetric] by (simp only: ri_inv_def)
  have "fst e \<le> fst x" if "e \<in> set (take (Suc ?p) ?es)" for e
  proof -
    have "e \<in> set (take ?p ?es) \<or> e = x" using that p x(1) by (auto simp: take_Suc_conv_app_nth)
    then show ?thesis using wf by (auto intro: less_imp_le)
  qed
  then have "\<forall>k > fst x. ri_passed ?s' k" unfolding ri_passed_def by (simp, blast intro: le_less_trans)
  moreover have "ri_next s = Some (Some x, ?s')" using p x by (simp add: ri_next_def mi_next_def)
  moreover have "ri_inv ?s'" using ri_inv_step[OF assms(1), of False] by (simp add: ri_inv_def)
  ultimately show ?thesis using x(3) by blast
qed

lemma ri_seek_forward:
  assumes "ri_inv s" "ri_passed s k"
  shows "\<exists>s'. (Some \<circ> ri_seek k) s = Some s' \<and> ri_inv s' \<and> ri_rest s' = dropWhile (\<lambda>x. fst x < k) (ri_rest s)"
proof (cases "ri_is_finished s")
  case True
  then show ?thesis using assms by (simp add: ri_seek_def ri_rest_def)
next
  case False
  let ?es = "mi_entries (ri_iterator s)" and ?p = "mi_position (ri_iterator s)"
  let ?A = "\<lambda>q. accept_value (ri_continue_condition s) q = Some True"
  let ?q = "length (takeWhile (\<lambda>(k', _). k' < k) ?es)"
  have wf: "bt_wf ?es" using assms(1) by (simp add: ri_inv_def)
  have tk: "\<forall>e \<in> set (take ?p ?es). fst e < k" using assms(2) False by (simp add: ri_passed_def)
  have "dropWhile (\<lambda>(k', _). k' < k) (take ?p ?es @ drop ?p ?es) = dropWhile (\<lambda>(k', _). k' < k) (drop ?p ?es)"
    using tk by (intro dropWhile_append2) auto
  then have dq: "drop ?q ?es = bt_filter (\<lambda>k'. k \<le> k') (drop ?p ?es)"
    using sorted_dropWhile_less[OF bt_wf_drop[OF wf], of k ?p] by (simp add: drop_takeWhile_length)
  have sub: "set (drop ?q ?es) \<subseteq> set (drop ?p ?es)" unfolding dq by (auto simp: bt_filter_def)
  have inv': "ri_inv (ri_seek k s)"
    using assms(1) sub False by (auto simp: ri_inv_def ri_seek_def mi_seek_def elim: scan_ok_subset)
  have tw: "takeWhile (\<lambda>e. ?A (fst e)) xs = bt_filter ?A xs" if "bt_wf xs" "set xs \<subseteq> set (drop ?p ?es)" for xs
    using that assms(1) by (intro takeWhile_down_closed) (auto simp: ri_inv_def scan_ok_def)
  have "ri_rest (ri_seek k s) = bt_filter ?A (bt_filter (\<lambda>k'. k \<le> k') (drop ?p ?es))"
    using False sub wf dq tw[of "drop ?q ?es"] by (simp add: ri_rest_def ri_seek_def mi_seek_def)
  also have "\<dots> = bt_filter (\<lambda>k'. k \<le> k') (ri_rest s)"
    using False wf tw[of "drop ?p ?es"] by (simp add: ri_rest_def) (simp add: bt_filter_def conj_commute)
  also have "\<dots> = dropWhile (\<lambda>x. fst x < k) (ri_rest s)"
    using sorted_dropWhile_less[of "ri_rest s" k] False wf tw[of "drop ?p ?es"]
    by (simp add: ri_rest_def case_prod_unfold)
  finally show ?thesis using inv' by simp
qed

interpretation ri: seekable_iterator ri_inv ri_rest ri_next fst ri_passed "\<lambda>k. Some \<circ> ri_seek k"
proof
  fix s s' and x :: "bytes \<times> bytes" and k
  assume "ri_inv s" "ri_next s = Some (Some x, s')" "fst x < k"
  then show "ri_passed s' k"
    using ri_next_Nil[of s] ri_next_Cons[of s] by (cases "ri_rest s") fastforce+
qed (use ri_next_Nil ri_next_Cons ri_seek_forward in blast)+

lemma ri_collect_it_collect: "ri_collect fuel s = it_collect ri_next fuel s"
  by (induction fuel arbitrary: s) (auto split: option.splits prod.splits)

section \<open>The multi-version iterator\<close>

record mvcc_iterator =
  mit_keyspace_id :: keyspace_id
  mit_iterator :: "(range_iterator, bytes \<times> bytes) peekable"
  mit_open_sequence_number :: seq
  mit_last_visible_key :: "bytes option"
  mit_item :: "(storage_key \<times> bytes) option"

definition mit_new :: "keyspaces \<Rightarrow> storage_key key_range \<Rightarrow> seq \<Rightarrow> mvcc_iterator option" where
  "mit_new storage rng open_sequence_number = do {
     keyspace \<leftarrow> kss_get storage (fst (start_value (kr_start rng)));
     let mapped_range = key_range_map snd id rng;
     iterator \<leftarrow> ksp_iterate_range keyspace mapped_range;
     Some \<lparr> mit_keyspace_id = ksp_id keyspace, mit_iterator = pk_new iterator,
            mit_open_sequence_number = open_sequence_number, mit_last_visible_key = None, mit_item = None \<rparr> }"

definition pk_size :: "(range_iterator, bytes \<times> bytes) peekable \<Rightarrow> nat" where
  "pk_size p = length (mi_entries (ri_iterator (pk_iter p))) - mi_position (ri_iterator (pk_iter p))
     + (if pk_item p = None then 0 else 1)"

lemma ri_next_size:
  assumes "ri_next s = Some (Some x, s')"
  shows "length (mi_entries (ri_iterator s')) - mi_position (ri_iterator s')
    < length (mi_entries (ri_iterator s)) - mi_position (ri_iterator s)"
  using assms by (auto simp: ri_next_def mi_next_def bind_eq_Some_conv split: if_splits option.splits)

lemma pk_peek_size: "pk_peek ri_next p = Some (Some x, p') \<Longrightarrow> pk_size p' \<le> pk_size p \<and> pk_item p' = Some x"
  by (auto simp: pk_peek_def pk_size_def pk_get_peeked_def Let_def dest!: ri_next_size split: option.splits)

lemma pk_next_item_size: "pk_item p = Some x \<Longrightarrow> pk_next ri_next p = Some (y, p') \<Longrightarrow> pk_size p' < pk_size p"
  by (auto simp: pk_next_def pk_size_def)

text \<open>The loop of \<^verbatim>\<open>find_next_state\<close>.  Every turn takes an item from the keyspace iterator.\<close>

function mit_find_next_state :: "mvcc_iterator \<Rightarrow> (bool \<times> mvcc_iterator) option" where
  "mit_find_next_state self =
     (case pk_peek ri_next (mit_iterator self) of
        None \<Rightarrow> None
      | Some (None, iterator) \<Rightarrow> Some (False, self\<lparr> mit_iterator := iterator \<rparr>)
      | Some (Some (key, value), iterator) \<Rightarrow>
          (case (mvcc_is_visible_to key (mit_open_sequence_number self), mvcc_key key) of
             (Some visible, Some user_key) \<Rightarrow>
               if visible \<and> mit_last_visible_key self \<noteq> Some user_key then
                 let self = self\<lparr> mit_iterator := iterator, mit_last_visible_key := Some user_key \<rparr> in
                 (case mvcc_operation key of
                    None \<Rightarrow> None
                  | Some OpInsert \<Rightarrow> Some (True, self)
                  | Some OpDelete \<Rightarrow>
                      (case pk_next ri_next iterator of
                         None \<Rightarrow> None
                       | Some (_, iterator') \<Rightarrow> mit_find_next_state (self\<lparr> mit_iterator := iterator' \<rparr>)))
               else
                 (case pk_next ri_next iterator of
                    None \<Rightarrow> None
                  | Some (_, iterator') \<Rightarrow> mit_find_next_state (self\<lparr> mit_iterator := iterator' \<rparr>))
           | _ \<Rightarrow> None))"
  by auto
termination
  by (relation "measure (\<lambda>self. pk_size (mit_iterator self))")
    (auto dest!: pk_peek_size pk_next_item_size)

declare mit_find_next_state.simps [simp del]

definition mit_next :: "mvcc_iterator \<Rightarrow> ((storage_key \<times> bytes) option \<times> mvcc_iterator) option" where
  "mit_next self =
     (case mit_item self of
        Some item \<Rightarrow> Some (Some item, self\<lparr> mit_item := None \<rparr>)
      | None \<Rightarrow> do {
          (found, self) \<leftarrow> mit_find_next_state self;
          if found then do {
            (kv, iterator) \<leftarrow> pk_next ri_next (mit_iterator self);
            case kv of
              None \<Rightarrow> Some (None, self\<lparr> mit_iterator := iterator \<rparr>)
            | Some (key, value) \<Rightarrow> do {
                user_key \<leftarrow> mvcc_key key;
                Some (Some ((mit_keyspace_id self, user_key), value), self\<lparr> mit_iterator := iterator \<rparr>) } }
          else Some (None, self) })"

definition mit_peek :: "mvcc_iterator \<Rightarrow> ((storage_key \<times> bytes) option \<times> mvcc_iterator) option" where
  "mit_peek self =
     (case mit_item self of
        Some item \<Rightarrow> Some (Some item, self)
      | None \<Rightarrow> do {
          (item, self) \<leftarrow> mit_next self;
          Some (item, self\<lparr> mit_item := item \<rparr>) })"

definition mit_seek :: "bytes \<Rightarrow> mvcc_iterator \<Rightarrow> mvcc_iterator option" where
  "mit_seek key self = do {
     (peeked, self) \<leftarrow> mit_peek self;
     case peeked of
       Some ((_, peek), _) \<Rightarrow>
         if peek < key then do {
           iterator \<leftarrow> pk_seek fst (\<lambda>k. Some \<circ> ri_seek k) key (mit_iterator self);
           Some (self\<lparr> mit_item := None, mit_iterator := iterator \<rparr>) }
         else Some self
     | None \<Rightarrow> Some self }"

section \<open>Reading through the iterator\<close>

definition mit_size :: "mvcc_iterator \<Rightarrow> nat" where
  "mit_size self = pk_size (mit_iterator self) + (if mit_item self = None then 0 else 1)"

lemma mit_find_next_state_size:
  "mit_find_next_state self = Some (found, self') \<Longrightarrow>
   mit_item self' = mit_item self \<and>
   (found \<longrightarrow> pk_size (mit_iterator self') \<le> pk_size (mit_iterator self) \<and> pk_item (mit_iterator self') \<noteq> None)"
proof (induction "pk_size (mit_iterator self)" arbitrary: self rule: less_induct)
  case less
  obtain item it where peek: "pk_peek ri_next (mit_iterator self) = Some (item, it)"
    using less.prems by (cases "pk_peek ri_next (mit_iterator self)") (auto simp: mit_find_next_state.simps)
  show ?case
  proof (cases item)
    case None
    then show ?thesis using less.prems peek by (auto simp: mit_find_next_state.simps)
  next
    case (Some e)
    obtain key val where e: "e = (key, val)" by (cases e)
    have size: "pk_size it \<le> pk_size (mit_iterator self)" "pk_item it = Some e"
      using pk_peek_size[of "mit_iterator self" e it] peek Some by auto
    have rec: ?thesis
      if "pk_next ri_next it = Some (y, it')"
        and "mit_find_next_state (self\<lparr> mit_last_visible_key := l, mit_iterator := it' \<rparr>) = Some (found, self')" for y it' l
      using less.hyps[of "self\<lparr> mit_last_visible_key := l, mit_iterator := it' \<rparr>"] that size
        pk_next_item_size[OF size(2) that(1)] by auto
    show ?thesis
      using less.prems peek Some size rec[where l = "mit_last_visible_key self"]
      by (subst (asm) mit_find_next_state.simps)
        (auto simp: e Let_def split: option.splits if_splits storage_operation.splits dest: rec)
  qed
qed

lemma mit_next_size: "mit_next self = Some (Some x, self') \<Longrightarrow> mit_size self' < mit_size self"
  by (auto simp: mit_next_def mit_size_def bind_eq_Some_conv split: option.splits if_splits
      dest!: mit_find_next_state_size pk_next_item_size)

text \<open>The loop of \<^verbatim>\<open>get_mapped\<close>.\<close>

function get_loop :: "bytes \<Rightarrow> mvcc_iterator \<Rightarrow> bytes option option" where
  "get_loop key iterator =
     (case mit_next iterator of
        None \<Rightarrow> None
      | Some (None, _) \<Rightarrow> Some None
      | Some (Some ((_, k), v), iterator') \<Rightarrow> if k = key then Some (Some v) else get_loop key iterator')"
  by auto
termination
  by (relation "measure (\<lambda>(_, it). mit_size it)") (auto dest: mit_next_size)

declare get_loop.simps [simp del]

definition storage_iterate_range :: "keyspaces \<Rightarrow> storage_key key_range \<Rightarrow> seq \<Rightarrow> mvcc_iterator option" where
  "storage_iterate_range storage rng open_sequence_number = mit_new storage rng open_sequence_number"

definition get_mapped :: "(bytes \<Rightarrow> 'v) \<Rightarrow> keyspaces \<Rightarrow> storage_key \<Rightarrow> seq \<Rightarrow> 'v option option" where
  "get_mapped mapper storage key open_sequence_number = do {
     iterator \<leftarrow> storage_iterate_range storage (new_within key False) open_sequence_number;
     map_option (map_option mapper) (get_loop (snd key) iterator) }"

definition storage_get :: "keyspaces \<Rightarrow> storage_key \<Rightarrow> seq \<Rightarrow> bytes option option" where
  "storage_get storage key open_sequence_number = get_mapped (\<lambda>bytes. bytes) storage key open_sequence_number"

section \<open>What a read returns\<close>

definition mvcc_decodes :: "bytes \<Rightarrow> bool" where
  "mvcc_decodes raw \<longleftrightarrow> (\<exists>k s op. seq_ok s \<and> raw = mvcc_build k s op)"

text \<open>The visible entries of a list of raw entries, in the order of the list.\<close>

fun visible :: "seq \<Rightarrow> bytes option \<Rightarrow> (bytes \<times> bytes) list \<Rightarrow> (bytes \<times> bytes) list" where
  "visible n l [] = []"
| "visible n l ((raw, v) # es) =
     (case (mvcc_key raw, mvcc_is_visible_to raw n, mvcc_operation raw) of
        (Some k, Some vis, Some op) \<Rightarrow>
          if vis \<and> l \<noteq> Some k
          then (if op = OpInsert then (k, v) # visible n (Some k) es else visible n (Some k) es)
          else visible n l es
      | _ \<Rightarrow> [])"

lemma visible_build [simp]:
  "seq_ok s \<Longrightarrow> visible n l ((mvcc_build k s op, v) # es) =
     (if s \<le> n \<and> l \<noteq> Some k
      then (if op = OpInsert then (k, v) # visible n (Some k) es else visible n (Some k) es)
      else visible n l es)"
  by simp

declare visible.simps(2) [simp del]

text \<open>The versions of a key that a reader at \<open>n\<close> may see, and the value it reads: that of the newest of
  them, if it is not a deletion.\<close>

definition versions :: "(bytes \<rightharpoonup> bytes) \<Rightarrow> seq \<Rightarrow> bytes \<Rightarrow> seq set" where
  "versions m n k = {s. s \<le> n \<and> seq_ok s \<and> (\<exists>op. m (mvcc_build k s op) \<noteq> None)}"

definition mvcc_read :: "(bytes \<rightharpoonup> bytes) \<Rightarrow> seq \<Rightarrow> bytes \<rightharpoonup> bytes" where
  "mvcc_read m n k = (if versions m n k = {} then None else m (mvcc_build k (Max (versions m n k)) OpInsert))"

definition ukey :: "bytes \<Rightarrow> bytes" where
  "ukey raw = the (mvcc_key raw)"

definition mvcc_wf :: "(bytes \<times> bytes) list \<Rightarrow> bool" where
  "mvcc_wf es \<longleftrightarrow> bt_wf es \<and> (\<forall>e \<in> set es. mvcc_decodes (fst e)) \<and>
     (\<forall>e \<in> set es. \<forall>e' \<in> set es. keys_apart (ukey (fst e)) (ukey (fst e')))"

lemma finite_versions [simp]: "finite (versions m n k)"
  by (rule finite_subset[of _ "{..n}"]) (auto simp: versions_def)

lemma ukey_build [simp]: "ukey (mvcc_build k s op) = k"
  by (simp add: ukey_def)

lemma mvcc_wf_tail: "mvcc_wf (e # es) \<Longrightarrow> mvcc_wf es"
  by (simp add: mvcc_wf_def)

lemma mvcc_wf_subset: "mvcc_wf es \<Longrightarrow> bt_wf es' \<Longrightarrow> set es' \<subseteq> set es \<Longrightarrow> mvcc_wf es'"
  unfolding mvcc_wf_def by blast

lemma mvcc_wf_ConsE:
  assumes "mvcc_wf (e # es)"
  obtains k s op v where "e = (mvcc_build k s op, v)" "seq_ok s"
    "\<And>k' s' op' v'. (mvcc_build k' s' op', v') \<in> set es \<Longrightarrow> seq_ok s' \<Longrightarrow>
      k < k' \<or> k = k' \<and> (s' < s \<or> s' = s \<and> op = OpInsert \<and> op' = OpDelete)"
proof -
  obtain k s op v where e: "e = (mvcc_build k s op, v)" "seq_ok s"
    using assms by (cases e) (auto simp: mvcc_wf_def mvcc_decodes_def)
  have "k < k' \<or> k = k' \<and> (s' < s \<or> s' = s \<and> op = OpInsert \<and> op' = OpDelete)"
    if "(mvcc_build k' s' op', v') \<in> set es" "seq_ok s'" for k' s' op' v'
  proof -
    have "keys_apart k k'" using assms that e unfolding mvcc_wf_def by force
    moreover have "mvcc_build k s op < mvcc_build k' s' op'" using assms that e unfolding mvcc_wf_def by force
    ultimately show ?thesis using mvcc_build_less_iff e(2) that(2) by blast
  qed
  then show ?thesis using that e by blast
qed

lemma mvcc_read_cong:
  assumes "\<And>s op. seq_ok s \<Longrightarrow> s \<le> n \<Longrightarrow> m (mvcc_build k s op) = m' (mvcc_build k s op)"
  shows "mvcc_read m n k = mvcc_read m' n k"
proof -
  have v: "versions m n k = versions m' n k" 
    unfolding versions_def using assms by (metis (no_types, lifting))
  have "Max (versions m n k) \<in> versions m n k" if "versions m n k \<noteq> {}" using that by (intro Max_in) auto
  then show ?thesis unfolding mvcc_read_def v[symmetric] using assms by (auto simp: versions_def)
qed

lemma mvcc_read_newest:
  assumes "seq_ok s" "s \<le> n" "m (mvcc_build k s op) \<noteq> None"
    and "\<And>s' op'. seq_ok s' \<Longrightarrow> m (mvcc_build k s' op') \<noteq> None \<Longrightarrow> s' \<le> s"
  shows "mvcc_read m n k = m (mvcc_build k s OpInsert)"
proof -
  have "s \<in> versions m n k" using assms by (auto simp: versions_def)
  moreover have "s' \<le> s" if "s' \<in> versions m n k" for s' using that assms(4) by (auto simp: versions_def)
  ultimately have "Max (versions m n k) = s" by (intro Max_eqI) auto
  then show ?thesis using \<open>s \<in> versions m n k\<close> by (auto simp: mvcc_read_def)
qed

lemma mvcc_read_None: "(\<And>s op. seq_ok s \<Longrightarrow> m (mvcc_build k s op) = None) \<Longrightarrow> mvcc_read m n k = None"
  by (simp add: mvcc_read_def versions_def)

definition after_last :: "bytes option \<Rightarrow> (bytes \<times> bytes) list \<Rightarrow> bool" where
  "after_last l es \<longleftrightarrow> (\<forall>k. l = Some k \<longrightarrow> (\<forall>e \<in> set es. k \<le> ukey (fst e)))"

lemma after_last_head:
  assumes "mvcc_wf ((mvcc_build k s op, v) # es)" "seq_ok s"
  shows "after_last (Some k) es"
proof -
  have "k \<le> ukey (fst x)" if x: "x \<in> set es" for x
  proof -
    obtain k' s' op' where x': "fst x = mvcc_build k' s' op'" "seq_ok s'"
      using assms(1) x unfolding mvcc_wf_def mvcc_decodes_def by (meson list.set_intros(2))
    have "keys_apart k k'" "mvcc_build k s op < mvcc_build k' s' op'"
      using assms(1) x x' unfolding mvcc_wf_def by force+
    then show ?thesis using mvcc_build_less_iff[of k k' s s' op op'] assms(2) x' by auto
  qed
  then show ?thesis by (simp add: after_last_def)
qed

lemma after_last_tail: "after_last l (e # es) \<Longrightarrow> after_last l es"
  by (auto simp: after_last_def)

lemma bt_get_build_Cons:
  "bt_get ((mvcc_build k s op, v) # es) (mvcc_build k' s' op') =
     (if mvcc_build k' s' op' = mvcc_build k s op then Some v else bt_get es (mvcc_build k' s' op'))"
  by (simp add: bt_get_Cons)

text \<open>The key lemma: scanning sorted versions for the first visible one of each key reads the newest.\<close>

lemma visible_read:
  assumes "mvcc_wf es" "after_last l es"
  shows "bt_get (visible n l es) k = (if l = Some k then None else mvcc_read (bt_get es) n k)"
  using assms
proof (induction es arbitrary: l)
  case Nil
  then show ?case by (simp add: mvcc_read_None)
next
  case (Cons e es)
  obtain k0 s0 op0 v0 where e: "e = (mvcc_build k0 s0 op0, v0)" "seq_ok s0"
    and later: "\<And>k' s' op' v'. (mvcc_build k' s' op', v') \<in> set es \<Longrightarrow> seq_ok s' \<Longrightarrow>
      k0 < k' \<or> k0 = k' \<and> (s' < s0 \<or> s' = s0 \<and> op0 = OpInsert \<and> op' = OpDelete)"
    using mvcc_wf_ConsE[OF Cons.prems(1)] by metis
  let ?m = "bt_get (e # es)" and ?m' = "bt_get es"
  note wf' = mvcc_wf_tail[OF Cons.prems(1)]
  have m: "?m (mvcc_build k' s' op') = (if k' = k0 \<and> s' = s0 \<and> op' = op0 then Some v0 else ?m' (mvcc_build k' s' op'))"
    if "seq_ok s'" for k' s' op'
    unfolding e(1) bt_get_build_Cons mvcc_build_inj[OF that e(2)] ..
  have later': "k0 < k' \<or> k0 = k' \<and> (s' < s0 \<or> s' = s0 \<and> op0 = OpInsert \<and> op' = OpDelete)"
    if "seq_ok s'" "?m' (mvcc_build k' s' op') \<noteq> None" for k' s' op'
    using later[OF _ that(1)] that(2) bt_get_SomeD by fast
  have al0: "after_last (Some k0) es" using after_last_head Cons.prems(1) e by blast
  note al = after_last_tail[OF Cons.prems(2)]
  note IH0 = Cons.IH[OF wf' al0] and IH = Cons.IH[OF wf' al]
  consider (hit) "s0 \<le> n" "l \<noteq> Some k0" | (skip) "\<not> (s0 \<le> n \<and> l \<noteq> Some k0)" by blast
  then show ?case
  proof cases
    case hit
    have other: "mvcc_read ?m n k = mvcc_read ?m' n k" if "k \<noteq> k0"
      using that by (intro mvcc_read_cong) (simp add: m)
    have past: "mvcc_read ?m' n k = None" if "l = Some k"
    proof (rule mvcc_read_None)
      fix s' op' assume s': "seq_ok s'"
      have "k < k0" using that hit Cons.prems(2) e by (auto simp: after_last_def)
      then show "?m' (mvcc_build k s' op') = None"
        using later'[OF s', of k op'] by (metis less_asym less_irrefl)
    qed
    have same: "mvcc_read ?m n k0 = ?m (mvcc_build k0 s0 OpInsert)"
    proof (rule mvcc_read_newest[OF e(2) hit(1), where op = op0])
      fix s' op' assume "seq_ok s'" "?m (mvcc_build k0 s' op') \<noteq> None"
      then show "s' \<le> s0" using later'[of s' k0 op'] by (auto simp: m split: if_splits)
    qed (simp add: m e(2))
    have none: "?m' (mvcc_build k0 s0 OpInsert) = None" if "op0 = OpDelete"
      using later'[OF e(2), of k0 OpInsert] that by (metis less_irrefl storage_operation.distinct(1))
    show ?thesis
      using hit e IH0 other past same none m[OF e(2), of k0 OpInsert]
      by (cases "k = k0"; cases op0) (auto simp: bt_get_Cons)
  next
    case skip
    have "mvcc_read ?m n k = mvcc_read ?m' n k" if "l \<noteq> Some k"
      using skip that by (intro mvcc_read_cong) (auto simp: m)
    then show ?thesis using skip e IH by auto
  qed
qed

lemma visible_keys: "(k, v) \<in> set (visible n l es) \<Longrightarrow> \<forall>e \<in> set es. mvcc_decodes (fst e) \<Longrightarrow> k \<in> (ukey \<circ> fst) ` set es"
proof (induction es arbitrary: l)
  case (Cons e es)
  then obtain k0 s0 op0 v0 where "e = (mvcc_build k0 s0 op0, v0)" "seq_ok s0"
    by (cases e) (auto simp: mvcc_decodes_def)
  then show ?case using Cons by (auto split: if_splits)
qed simp

lemma visible_sorted:
  assumes "mvcc_wf es" "after_last l es"
  shows "bt_wf (visible n l es)"
  using assms
proof (induction es arbitrary: l)
  case (Cons e es)
  obtain k0 s0 op0 v0 where e: "e = (mvcc_build k0 s0 op0, v0)" "seq_ok s0"
    using mvcc_wf_ConsE[OF Cons.prems(1)] by metis
  note wf' = mvcc_wf_tail[OF Cons.prems(1)]
  have al0: "after_last (Some k0) es" using after_last_head Cons.prems(1) e by blast
  have ge: "k0 \<le> ukey (fst x)" if "x \<in> set es" for x using al0 that by (simp add: after_last_def)
  note IH = Cons.IH[OF wf' al0] Cons.IH[OF wf' after_last_tail[OF Cons.prems(2)]]
  have "k0 < k" if kv: "(k, v) \<in> set (visible n (Some k0) es)" for k v
  proof -
    have "k0 \<le> k" using visible_keys[OF kv] wf' ge by (auto simp: mvcc_wf_def)
    moreover have "k \<noteq> k0" using visible_read[OF wf' al0, of n k0] kv bt_get_eq_Some_iff[OF IH(1)]
      by (metis option.distinct(1))
    ultimately show ?thesis by simp
  qed
  then show ?case using e IH by auto
qed simp


section \<open>The multi-version iterator implements the iterator interface\<close>

text \<open>A stored item is the newest visible version of its key, and the keyspace iterator stands right after it.\<close>

definition mit_at :: "mvcc_iterator \<Rightarrow> bool" where
  "mit_at self \<longleftrightarrow> (\<forall>ks k v. mit_item self = Some ((ks, k), v) \<longrightarrow> pk_item (mit_iterator self) = None \<and>
     (\<exists>s op. \<forall>q > mvcc_build k s op. ri_passed (pk_iter (mit_iterator self)) q))"

definition mit_inv :: "mvcc_iterator \<Rightarrow> bool" where
  "mit_inv self \<longleftrightarrow> pk_inv ri_inv (mit_iterator self) \<and> pk_at fst ri_passed (mit_iterator self) \<and> mit_at self \<and>
     mvcc_wf (pk_rest ri_rest (mit_iterator self)) \<and>
     after_last (mit_last_visible_key self) (pk_rest ri_rest (mit_iterator self))"

definition mit_tail :: "mvcc_iterator \<Rightarrow> (bytes \<times> bytes) list" where
  "mit_tail self = visible (mit_open_sequence_number self) (mit_last_visible_key self) (pk_rest ri_rest (mit_iterator self))"

definition mit_rest :: "mvcc_iterator \<Rightarrow> (storage_key \<times> bytes) list" where
  "mit_rest self = (case mit_item self of None \<Rightarrow> [] | Some x \<Rightarrow> [x])
     @ map (\<lambda>(k, v). ((mit_keyspace_id self, k), v)) (mit_tail self)"

text \<open>The keys an iterator still holds, visible or not.\<close>

definition mit_keys :: "mvcc_iterator \<Rightarrow> bytes set" where
  "mit_keys self = (ukey \<circ> fst) ` set (pk_rest ri_rest (mit_iterator self)) \<union> (snd \<circ> fst) ` set_option (mit_item self)"

definition found_spec :: "mvcc_iterator \<Rightarrow> bool \<Rightarrow> mvcc_iterator \<Rightarrow> bool" where
  "found_spec self found self' \<longleftrightarrow> mit_inv self' \<and> mit_item self' = mit_item self \<and>
     mit_keyspace_id self' = mit_keyspace_id self \<and> mit_open_sequence_number self' = mit_open_sequence_number self \<and>
     set (pk_rest ri_rest (mit_iterator self')) \<subseteq> set (pk_rest ri_rest (mit_iterator self)) \<and>
     (case mit_tail self of
        [] \<Rightarrow> \<not> found \<and> pk_rest ri_rest (mit_iterator self') = []
      | (k, v) # vs \<Rightarrow> found \<and> mit_last_visible_key self' = Some k \<and>
          (\<exists>raw es. pk_rest ri_rest (mit_iterator self') = (raw, v) # es \<and> (\<exists>s op. raw = mvcc_build k s op) \<and>
             visible (mit_open_sequence_number self) (Some k) es = vs))"

lemma mit_find_next_state_spec:
  "mit_inv self \<Longrightarrow> mit_item self = None \<Longrightarrow> \<exists>found self'. mit_find_next_state self = Some (found, self') \<and> found_spec self found self'"
proof (induction "length (pk_rest ri_rest (mit_iterator self))" arbitrary: self rule: less_induct)
  case less
  let ?p = "mit_iterator self" and ?n = "mit_open_sequence_number self" and ?l = "mit_last_visible_key self"
  have inv: "pk_inv ri_inv ?p" "pk_at fst ri_passed ?p" "mvcc_wf (pk_rest ri_rest ?p)" "after_last ?l (pk_rest ri_rest ?p)"
    using less.prems(1) by (simp_all add: mit_inv_def)
  obtain p1 where p1: "pk_peek ri_next ?p = Some (case pk_rest ri_rest ?p of [] \<Rightarrow> None | x # _ \<Rightarrow> Some x, p1)"
      "pk_inv ri_inv p1" "pk_rest ri_rest p1 = pk_rest ri_rest ?p"
    using ri.peekE[OF inv(1)] by metis
  have at1: "pk_at fst ri_passed p1" using ri.pk_peek_at[OF inv(1,2) p1(1)] .
  show ?case
  proof (cases "pk_rest ri_rest ?p")
    case Nil
    then show ?thesis using p1 at1 inv less.prems(2)
      by (auto simp: mit_find_next_state.simps[of self] found_spec_def mit_inv_def mit_tail_def mit_at_def)
  next
    case (Cons e es)
    then obtain k s op v where e: "e = (mvcc_build k s op, v)" "seq_ok s"
      using inv(3) by (cases e) (auto simp: mvcc_wf_def mvcc_decodes_def)
    obtain p2 where p2: "pk_next ri_next p1 = Some (Some e, p2)" "pk_inv ri_inv p2" "pk_rest ri_rest p2 = es"
      using ri.pk_nextE[OF p1(2)] p1(3) Cons by (metis list.sel(3) list.simps(5))
    have at2: "pk_at fst ri_passed p2" using ri.pk_next_at[OF p1(2) at1 p2(1)] by simp
    have al: "after_last (Some k) es" using after_last_head inv(3) Cons e by simp
    show ?thesis
    proof (cases "s \<le> ?n \<and> ?l \<noteq> Some k \<and> op = OpInsert")
      case True
      let ?self' = "self\<lparr> mit_iterator := p1, mit_last_visible_key := Some k \<rparr>"
      have "mit_find_next_state self = Some (True, ?self')"
        using True p1 Cons e by (simp add: mit_find_next_state.simps[of self])
      moreover have "found_spec self True ?self'"
        using True p1 at1 al inv Cons e less.prems(2)
        by (auto simp: found_spec_def mit_inv_def mit_tail_def mit_at_def after_last_def)
      ultimately show ?thesis by blast
    next
      case False
      define l where "l = (if s \<le> ?n \<and> ?l \<noteq> Some k then Some k else ?l)"
      define self2 where "self2 = self\<lparr> mit_last_visible_key := l, mit_iterator := p2 \<rparr>"
      have t: "mit_tail self2 = mit_tail self"
        using False Cons e p2 by (auto simp: mit_tail_def self2_def l_def)
      have same: "mit_open_sequence_number self2 = ?n" "mit_item self2 = mit_item self" "mit_keyspace_id self2 = mit_keyspace_id self"
        by (simp_all add: self2_def)
      have "mit_find_next_state self = mit_find_next_state self2"
        using False p1 p2 Cons e
        by (cases op) (auto simp: mit_find_next_state.simps[of self] self2_def l_def)
      moreover have "mit_inv self2" 
        using p2 at2 al inv Cons less.prems(2) mvcc_wf_tail[of e es] after_last_tail[of ?l e es]
        by (auto simp: mit_inv_def self2_def mit_at_def l_def)
      moreover have "found_spec self2 f s' \<Longrightarrow> found_spec self f s'" for f s'
        using p2(3) Cons unfolding found_spec_def t same by (auto simp: self2_def)
      moreover have "length (pk_rest ri_rest (mit_iterator self2)) < length (pk_rest ri_rest ?p)"
        using p2 Cons by (simp add: self2_def)
      ultimately show ?thesis using less.hyps[of self2] less.prems(2) same(2) by metis
    qed
  qed
qed

lemma mit_next_spec:
  assumes "mit_inv self"
  shows "\<exists>self'. mit_next self = Some (case mit_rest self of [] \<Rightarrow> None | x # _ \<Rightarrow> Some x, self') \<and> mit_inv self' \<and>
    mit_rest self' = tl (mit_rest self) \<and> mit_item self' = None \<and>
    mit_keyspace_id self' = mit_keyspace_id self \<and>
    (mit_item self = None \<longrightarrow> mit_at (self'\<lparr> mit_item := (case mit_rest self of [] \<Rightarrow> None | x # _ \<Rightarrow> Some x) \<rparr>) \<and>
       mit_keys (self'\<lparr> mit_item := (case mit_rest self of [] \<Rightarrow> None | x # _ \<Rightarrow> Some x) \<rparr>) \<subseteq> mit_keys self)"
proof (cases "mit_item self")
  case (Some x)
  then show ?thesis using assms by (simp add: mit_next_def mit_inv_def mit_rest_def mit_tail_def mit_at_def)
next
  case None
  obtain found self1 where s1: "mit_find_next_state self = Some (found, self1)" "found_spec self found self1"
    using mit_find_next_state_spec[OF assms None] by blast
  have inv1: "pk_inv ri_inv (mit_iterator self1)" "pk_at fst ri_passed (mit_iterator self1)"
      "mvcc_wf (pk_rest ri_rest (mit_iterator self1))"
      "after_last (mit_last_visible_key self1) (pk_rest ri_rest (mit_iterator self1))"
    using s1(2) by (simp_all add: found_spec_def mit_inv_def)
  show ?thesis
  proof (cases "mit_tail self")
    case Nil
    then show ?thesis using s1 None
      by (auto simp: mit_next_def found_spec_def mit_rest_def mit_tail_def mit_at_def mit_keys_def)
  next
    case (Cons kv vs)
    obtain k v where kv: "kv = (k, v)" by (cases kv)
    obtain raw es s op where r: "pk_rest ri_rest (mit_iterator self1) = (raw, v) # es" "raw = mvcc_build k s op"
        "visible (mit_open_sequence_number self) (Some k) es = vs" "mit_last_visible_key self1 = Some k" found
      using s1(2) Cons kv by (auto simp: found_spec_def)
    obtain p2 where p2: "pk_next ri_next (mit_iterator self1) = Some (Some (raw, v), p2)" "pk_inv ri_inv p2" "pk_rest ri_rest p2 = es"
      using ri.pk_nextE[OF inv1(1)] r(1) by (metis list.sel(3) list.simps(5))
    have "mit_next self = Some (Some ((mit_keyspace_id self1, k), v), self1\<lparr> mit_iterator := p2 \<rparr>)"
      using None s1(1) r p2 by (simp add: mit_next_def)
    moreover have at2: "pk_item p2 = None" "pk_at fst ri_passed p2" "\<forall>q > raw. ri_passed (pk_iter p2) q"
      using ri.pk_next_at[OF inv1(1,2) p2(1)] by auto
    moreover have "mvcc_wf es" "after_last (Some k) es"
      using inv1(3,4) r mvcc_wf_tail after_last_tail by metis+
    moreover have "set ((raw, v) # es) \<subseteq> set (pk_rest ri_rest (mit_iterator self))"
      using s1(2) r(1) by (simp add: found_spec_def)
    then have "insert k ((ukey \<circ> fst) ` set es) \<subseteq> (ukey \<circ> fst) ` set (pk_rest ri_rest (mit_iterator self))"
      using r(2) by force
    ultimately show ?thesis using s1(2) r p2 None Cons kv
      by (auto simp: found_spec_def mit_inv_def mit_rest_def mit_tail_def mit_at_def mit_keys_def)
  qed
qed

interpretation mit: lending_iterator mit_inv mit_rest mit_next
  by unfold_locales (use mit_next_spec in force)+

section \<open>Opening an iterator\<close>

text \<open>A range that cannot mistake the version of a stored key for a part of the key.\<close>

definition separates :: "bytes key_range \<Rightarrow> bytes \<Rightarrow> bool" where
  "separates rng k \<longleftrightarrow> scannable rng k \<and> (\<forall>p. kr_start rng = Inclusive p \<longrightarrow> \<not> strict_prefix k p)
     \<and> (\<forall>p. kr_start rng \<noteq> ExcludeFirstWithPrefix p)
     \<and> (kr_end rng = WithinStartAsPrefix \<longrightarrow> (\<exists>p. kr_start rng = Inclusive p))"

lemma append_le_iff:
  assumes "\<not> strict_prefix k (p::bytes)"
  shows "p \<le> k @ x \<longleftrightarrow> p \<le> k"
proof (cases "prefix k p")
  case True
  then show ?thesis using assms by (cases "k = p") (auto simp: strict_prefix_def)
next
  case False
  then show ?thesis
  proof (cases "prefix p k")
    case True
    then show ?thesis using prefix_lex_le[of p k] prefix_lex_le[of p "k @ x"] by auto
  next
    case f: False
    then show ?thesis using False lex_prefix_free[of k p x "[]"] by (metis append_Nil2 linorder_not_less)
  qed
qed

lemma append_starts_with:
  "\<not> strict_prefix k p \<Longrightarrow> starts_with (k @ x) p = starts_with k p"
  unfolding starts_with_prefix by (auto simp: prefix_append strict_prefix_def dest: append_eq_appendI)

lemma range_contains_raw:
  assumes "separates rng k"
  shows "range_contains rng (mvcc_build k s op) = range_contains rng k" and "scannable rng (mvcc_build k s op)"
proof -
  have tk: "take i (mvcc_build k s op) = take i k" if "i \<le> length k" for i
    using that by (simp add: mvcc_build_eq)
  show "scannable rng (mvcc_build k s op)"
    using assms by (fastforce simp: separates_def scannable_def)
  have st: "start_admits (kr_start rng) (mvcc_build k s op) = start_admits (kr_start rng) k"
    using assms append_le_iff tk by (cases "kr_start rng") (auto simp: separates_def scannable_def mvcc_build_eq)
  show "range_contains rng (mvcc_build k s op) = range_contains rng k"
  proof (cases "kr_end rng = WithinStartAsPrefix")
    case True
    then obtain p where p: "kr_start rng = Inclusive p" "\<not> strict_prefix k p" using assms by (auto simp: separates_def)
    have "range_contains rng x = starts_with x p" for x
      using True p(1) within_prefix[of p x] prefix_lex_le[of p x]
      by (auto simp: range_contains_def starts_with_prefix)
    then show ?thesis using append_starts_with[OF p(2)] by (simp add: mvcc_build_eq)
  next
    case False
    then have "end_admits (kr_start rng) (kr_end rng) (mvcc_build k s op) = end_admits (kr_start rng) (kr_end rng) k"
      using assms tk by (cases "kr_end rng") (auto simp: separates_def scannable_def)
    then show ?thesis using st by (simp add: range_contains_def)
  qed
qed

lemma ri_new_spec:
  assumes "bt_wf es" "\<And>k. k \<in> fst ` set es \<Longrightarrow> scannable rng k" "range_start_prefix (kr_start rng) = Some s"
    and "\<And>v. kr_start rng \<noteq> ExcludeFirstWithPrefix v"
  shows "\<exists>it. range_iterator_new \<lparr> mi_entries = es, mi_position = p \<rparr> rng = Some it \<and> ri_inv it \<and>
    ri_rest it = bt_filter (range_contains rng) es"
proof -
  let ?cond = "continue_condition_of (kr_start rng) (kr_end rng)"
  let ?p = "length (takeWhile (\<lambda>(k, _). k < s) es)"
  let ?it = "\<lparr> ri_iterator = \<lparr> mi_entries = es, mi_position = ?p \<rparr>, ri_continue_condition = ?cond, ri_is_finished = False \<rparr>"
  have it: "range_iterator_new \<lparr> mi_entries = es, mi_position = p \<rparr> rng = Some ?it"
    using assms(3,4) by (cases "kr_start rng") (auto simp: range_iterator_new_def mi_seek_def may_skip_start_def Let_def)
  have d: "drop ?p es = bt_filter (\<lambda>k. s \<le> k) es"
    by (simp add: drop_takeWhile_length sorted_dropWhile_less[OF assms(1)])
  have acc: "accept_value ?cond (fst e) = Some (scan_admits rng (fst e))" if "e \<in> set es" for e
    using assms(2) that by (intro accept_value_scan) force
  have "start_value (kr_start rng) \<le> s"
    using assms(3) increment_greater by (cases "kr_start rng") (auto simp: increment_unwrap_Some le_less)
  then have dc: "scan_admits rng (fst x)"
    if "x \<in> set (bt_filter (\<lambda>k. s \<le> k) es)" "fst x < fst y" "scan_admits rng (fst y)" for x y :: "bytes \<times> bytes"
    using that scan_admits_down_closed[of rng "fst x" "fst y"] by (auto simp: bt_filter_def)
  have "scan_ok (accept_value ?cond) (bt_filter (\<lambda>k. s \<le> k) es)"
    unfolding scan_ok_def
  proof (intro conjI ballI impI)
    fix e assume "e \<in> set (bt_filter (\<lambda>k. s \<le> k) es)"
    then show "accept_value ?cond (fst e) \<noteq> None" using acc[of e] by (simp add: bt_filter_def)
  next
    fix x y assume xy: "x \<in> set (bt_filter (\<lambda>k. s \<le> k) es)" "y \<in> set (bt_filter (\<lambda>k. s \<le> k) es)"
      "fst x < fst y \<and> accept_value ?cond (fst y) = Some True"
    then show "accept_value ?cond (fst x) = Some True"
      using acc[of x] acc[of y] dc[of x y] by (simp add: bt_filter_def)
  qed
  then have inv: "ri_inv ?it" using assms(1) by (simp add: ri_inv_def d)
  have "length (ri_rest ?it) \<le> length (drop ?p es)" 
    unfolding ri_rest_def by (simp del: length_drop add: length_takeWhile_le)
  then have "length (ri_rest ?it) < Suc (length es)" by simp
  then have "ri_rest ?it = bt_filter (range_contains rng) es"
    using ri.collect_rest[OF inv] range_scan_spec[OF assms(1,2) it assms(4)] unfolding ri_collect_it_collect
    by (simp only: option.inject)
  then show ?thesis using it inv by blast
qed

lemma range_contains_start: "range_contains rng k \<Longrightarrow> start_value (kr_start rng) \<le> k"
  using take_le_self[of _ k] by (cases "kr_start rng") (auto simp: range_contains_def intro: less_imp_le order.trans)

text \<open>A storage whose keyspaces hold well-formed versions.\<close>

definition storage_wf :: "keyspaces \<Rightarrow> bool" where
  "storage_wf s \<longleftrightarrow> kss_wf s \<and> (\<forall>k \<in> set (kss_keyspaces s). mvcc_wf (mb_data (ksp_backend k)))"

text \<open>The ranges an iterator can be opened on: the keyspace exists, the range tells the stored keys apart from
  their versions, and an excluded prefix has a successor.\<close>

definition range_ok :: "keyspaces \<Rightarrow> storage_key key_range \<Rightarrow> bool" where
  "range_ok s rng \<longleftrightarrow> fst (start_value (kr_start rng)) \<in> kss_ids s
     \<and> (\<forall>p. kr_start rng = ExcludePrefix p \<longrightarrow> (\<exists>x \<in> set (snd p). x \<noteq> 0xFF))
     \<and> (\<forall>p. kr_start rng \<noteq> ExcludeFirstWithPrefix p)
     \<and> (\<forall>k. kss_get s (fst (start_value (kr_start rng))) = Some k \<longrightarrow>
          (\<forall>e \<in> set (mb_data (ksp_backend k)). separates (key_range_map snd id rng) (ukey (fst e))))"

lemma key_range_map_fields [simp]:
  "kr_start (key_range_map f g rng) = start_map f (kr_start rng)" "kr_end (key_range_map f g rng) = end_map f (kr_end rng)"
  by (simp_all add: key_range_map_def new_fixed_width_def new_variable_width_def Let_def)

lemma start_value_map [simp]: "start_value (start_map f st) = f (start_value st)"
  by (cases st) auto

lemma bt_filter_build:
  assumes "\<forall>e \<in> set es. separates rng (ukey (fst e))"
  shows "mvcc_read (bt_get (bt_filter (range_contains rng) es)) n k = (if range_contains rng k then mvcc_read (bt_get es) n k else None)"
proof -
  have eq: "bt_get (bt_filter (range_contains rng) es) (mvcc_build k s op) =
      (if range_contains rng k then bt_get es (mvcc_build k s op) else None)" for s op
  proof (cases "bt_get es (mvcc_build k s op)")
    case (Some v)
    then have "separates rng k" using assms bt_get_SomeD[OF Some] by fastforce
    then show ?thesis using range_contains_raw by simp
  qed simp
  show ?thesis
  proof (cases "range_contains rng k")
    case True
    then show ?thesis unfolding if_P[OF True] by (intro mvcc_read_cong) (simp only: eq if_True)
  next
    case False
    then show ?thesis unfolding if_not_P[OF False] by (intro mvcc_read_None) (simp only: eq if_False)
  qed
qed

lemma mit_new_spec:
  assumes "storage_wf s" "range_ok s rng"
  defines "ks \<equiv> fst (start_value (kr_start rng))" and "r \<equiv> key_range_map snd id rng"
  shows "\<exists>it kvs. mit_new s rng n = Some it \<and> mit_inv it \<and> mit_rest it = map (\<lambda>(k, v). ((ks, k), v)) kvs \<and> bt_wf kvs \<and>
    bt_get kvs = (\<lambda>k. if range_contains r k then mvcc_read (kss_contents s ks) n k else None)"
proof -
  have wf: "kss_wf s" using assms(1) by (simp add: storage_wf_def)
  have "ks \<in> kss_ids s" using assms(2) by (simp add: range_ok_def ks_def)
  then obtain k where k: "kss_get s ks = Some k" "ksp_id k = ks" "k \<in> set (kss_keyspaces s)"
    using kss_get_None_iff[OF wf, of ks] kss_get_iff[OF wf, of ks] by (cases "kss_get s ks") auto
  let ?es = "mb_data (ksp_backend k)"
  have es: "mvcc_wf ?es" "\<forall>e \<in> set ?es. separates r (ukey (fst e))"
    using assms(1,2) k unfolding storage_wf_def range_ok_def ks_def r_def by auto
  have np: "\<not> mb_poisoned (ksp_backend k)" using kss_wfD(5)[OF wf k(3)] by (simp add: mb_inv_def)
  have ne: "kr_start r \<noteq> ExcludeFirstWithPrefix v" for v
    using assms(2) by (cases "kr_start rng") (auto simp: range_ok_def r_def)
  obtain p where p: "range_start_prefix (kr_start r) = Some p"
    using assms(2) ne increment_unwrap_defined by (cases "kr_start rng") (fastforce simp: range_ok_def r_def)+
  let ?es' = "bt_filter (\<lambda>k. start_value (kr_start r) \<le> k) ?es"
  have wf': "bt_wf ?es'" using es(1) by (simp add: mvcc_wf_def)
  have sc: "scannable r x" if x: "x \<in> fst ` set ?es'" for x
  proof -
    obtain e where e: "e \<in> set ?es" "x = fst e" using x by (auto simp: bt_filter_def)
    then obtain k' s' op' where "x = mvcc_build k' s' op'" "separates r k'"
      using es unfolding mvcc_wf_def mvcc_decodes_def by (metis ukey_build)
    then show ?thesis using range_contains_raw(2) by simp
  qed
  obtain it where it: "range_iterator_new \<lparr> mi_entries = ?es', mi_position = 0 \<rparr> r = Some it" "ri_inv it"
      "ri_rest it = bt_filter (range_contains r) ?es'"
    using ri_new_spec[OF wf' sc p ne] by blast
  have rest: "ri_rest it = bt_filter (range_contains r) ?es"
    unfolding it(3) using range_contains_start by (auto simp: bt_filter_def intro!: filter_cong)
  let ?fs = "bt_filter (range_contains r) ?es"
  let ?mit = "\<lparr> mit_keyspace_id = ks, mit_iterator = pk_new it, mit_open_sequence_number = n, mit_last_visible_key = None, mit_item = None \<rparr>"
  have fs: "mvcc_wf ?fs" using mvcc_wf_subset[OF es(1), of ?fs] es(1) by (auto simp: bt_filter_def mvcc_wf_def)
  have "mit_new s rng n = Some ?mit"
    using k np it(1) by (simp add: mit_new_def ksp_iterate_range_def create_iterator_def ks_def r_def)
  moreover have "mit_inv ?mit" using it(2) fs rest by (simp add: mit_inv_def mit_at_def after_last_def)
  moreover have "mit_rest ?mit = map (\<lambda>(k, v). ((ks, k), v)) (visible n None ?fs)"
    using rest by (simp add: mit_rest_def mit_tail_def)
  moreover have "bt_wf (visible n None ?fs)" using visible_sorted[OF fs] by (simp add: after_last_def)
  moreover have "bt_get (visible n None ?fs) x = (if range_contains r x then mvcc_read (kss_contents s ks) n x else None)" for x
    using visible_read[OF fs, of None n x] bt_filter_build[OF es(2)] k
    by (simp add: after_last_def kss_contents_def mb_contents_def[abs_def])
  ultimately show ?thesis by blast
qed

section \<open>Seeking\<close>

lemma mit_peek_spec:
  assumes "mit_inv self"
  shows "\<exists>self'. mit_peek self = Some (case mit_rest self of [] \<Rightarrow> None | x # _ \<Rightarrow> Some x, self') \<and> mit_inv self' \<and>
    mit_rest self' = mit_rest self \<and> mit_keyspace_id self' = mit_keyspace_id self \<and>
    mit_item self' = (case mit_rest self of [] \<Rightarrow> None | x # _ \<Rightarrow> Some x) \<and> mit_keys self' \<subseteq> mit_keys self"
proof (cases "mit_item self")
  case (Some x)
  then show ?thesis using assms by (auto simp: mit_peek_def mit_rest_def)
next
  case None
  obtain self1 where s1: "mit_next self = Some (case mit_rest self of [] \<Rightarrow> None | x # _ \<Rightarrow> Some x, self1)" "mit_inv self1"
      "mit_rest self1 = tl (mit_rest self)" "mit_item self1 = None" "mit_keyspace_id self1 = mit_keyspace_id self"
      "mit_at (self1\<lparr> mit_item := (case mit_rest self of [] \<Rightarrow> None | x # _ \<Rightarrow> Some x) \<rparr>)"
      "mit_keys (self1\<lparr> mit_item := (case mit_rest self of [] \<Rightarrow> None | x # _ \<Rightarrow> Some x) \<rparr>) \<subseteq> mit_keys self"
    using mit_next_spec[OF assms] None by blast
  let ?self' = "self1\<lparr> mit_item := (case mit_rest self of [] \<Rightarrow> None | x # _ \<Rightarrow> Some x) \<rparr>"
  have "mit_tail ?self' = mit_tail self1" by (simp add: mit_tail_def)
  then have "mit_rest ?self' = mit_rest self"
    using s1(3,4) by (cases "mit_rest self") (auto simp: mit_rest_def)
  moreover have "mit_inv ?self'" using s1(2,6) by (simp add: mit_inv_def)
  ultimately show ?thesis using None s1(1,5,7) by (simp add: mit_peek_def)
qed

lemma append_less_iff: "\<not> strict_prefix k (p::bytes) \<Longrightarrow> k @ x < p \<longleftrightarrow> k < p"
  using append_le_iff[of k p x] by (simp add: linorder_not_le[symmetric])

lemma visible_dropWhile:
  assumes "mvcc_wf es" "after_last l es" "\<forall>e \<in> set es. \<not> strict_prefix (ukey (fst e)) q"
  shows "visible n l (dropWhile (\<lambda>e. fst e < q) es) = dropWhile (\<lambda>e. fst e < q) (visible n l es)"
proof -
  let ?es = "bt_filter (\<lambda>k. q \<le> k) es"
  have wf: "bt_wf es" using assms(1) by (simp add: mvcc_wf_def)
  have wf': "mvcc_wf ?es" using mvcc_wf_subset[OF assms(1), of ?es] wf by (auto simp: bt_filter_def)
  have al': "after_last l ?es" using assms(2) by (auto simp: after_last_def bt_filter_def)
  have eq: "bt_get ?es (mvcc_build k s op) = (if q \<le> k then bt_get es (mvcc_build k s op) else None)" for k s op
  proof (cases "bt_get es (mvcc_build k s op)")
    case (Some v)
    then have "\<not> strict_prefix k q" using assms(3) bt_get_SomeD[OF Some] by fastforce
    then show ?thesis using Some append_le_iff by (simp add: mvcc_build_eq)
  qed simp
  have rd: "mvcc_read (bt_get ?es) n k = (if q \<le> k then mvcc_read (bt_get es) n k else None)" for k
  proof (cases "q \<le> k")
    case True
    then show ?thesis unfolding if_P[OF True] by (intro mvcc_read_cong) (simp only: eq if_True)
  next
    case False
    then show ?thesis unfolding if_not_P[OF False] by (intro mvcc_read_None) (simp only: eq if_False)
  qed
  have "visible n l ?es = bt_filter (\<lambda>k. q \<le> k) (visible n l es)"
    using visible_sorted[OF wf' al'] visible_sorted[OF assms(1,2)] visible_read[OF wf' al'] visible_read[OF assms(1,2)]
    by (intro bt_ext) (auto simp: rd)
  then show ?thesis
    using sorted_dropWhile_less[OF wf, of q] sorted_dropWhile_less[OF visible_sorted[OF assms(1,2), of n], of q]
    by (simp add: case_prod_unfold)
qed

lemma mit_seek_peeked:
  assumes "mit_inv self" "mit_item self = Some ((ks, k), v)" "k < q" "\<forall>k' \<in> mit_keys self. \<not> strict_prefix k' q"
  shows "\<exists>self'. mit_seek q self = Some self' \<and> mit_inv self' \<and>
    mit_rest self' = dropWhile (\<lambda>x. snd (fst x) < q) (mit_rest self)"
proof -
  let ?p = "mit_iterator self"
  have inv: "pk_inv ri_inv ?p" "mvcc_wf (pk_rest ri_rest ?p)" "after_last (mit_last_visible_key self) (pk_rest ri_rest ?p)"
    using assms(1) by (simp_all add: mit_inv_def)
  obtain s op where at: "pk_item ?p = None" "\<forall>q > mvcc_build k s op. ri_passed (pk_iter ?p) q"
    using assms(1,2) by (auto simp: mit_inv_def mit_at_def)
  have "mvcc_build k s op < q"
    using assms(2-4) append_less_iff[of k q] by (simp add: mvcc_build_eq mit_keys_def)
  then have "ri_passed (pk_iter ?p) q" using at(2) by blast
  then obtain p' where p': "pk_seek fst (\<lambda>k. Some \<circ> ri_seek k) q ?p = Some p'" "pk_inv ri_inv p'" "pk_item p' = None"
      "pk_rest ri_rest p' = dropWhile (\<lambda>x. fst x < q) (pk_rest ri_rest ?p)"
    using ri.pk_seekE[OF inv(1) at(1)] by metis
  let ?self' = "self\<lparr> mit_item := None, mit_iterator := p' \<rparr>"
  have sub: "set (pk_rest ri_rest p') \<subseteq> set (pk_rest ri_rest ?p)"
    unfolding p'(4) by (auto dest: set_dropWhileD)
  have "bt_wf (pk_rest ri_rest p')"
    unfolding p'(4) using inv(2) sorted_dropWhile_less[of "pk_rest ri_rest ?p" q] by (simp add: mvcc_wf_def case_prod_unfold)
  then have "mvcc_wf (pk_rest ri_rest p')" using mvcc_wf_subset[OF inv(2) _ sub] by blast
  moreover have "after_last (mit_last_visible_key self) (pk_rest ri_rest p')"
    using inv(3) sub by (auto simp: after_last_def)
  ultimately have "mit_inv ?self'" using p' by (simp add: mit_inv_def mit_at_def pk_at_def)
  moreover have "mit_tail ?self' = dropWhile (\<lambda>e. fst e < q) (mit_tail self)"
    using visible_dropWhile[OF inv(2,3), of q] assms(4) p'(4) by (simp add: mit_tail_def mit_keys_def)
  then have "mit_rest ?self' = dropWhile (\<lambda>x. snd (fst x) < q) (mit_rest self)"
    using assms(2,3) by (simp add: mit_rest_def dropWhile_map case_prod_unfold comp_def)
  moreover have "mit_seek q self = Some ?self'"
    using assms(2,3) p'(1) by (simp add: mit_seek_def mit_peek_def)
  ultimately show ?thesis by blast
qed

text \<open>Seeking drops exactly the items before the key and never reaches the \<^verbatim>\<open>unreachable!\<close> of \<^verbatim>\<open>Peekable\<close>, for a
  key that extends none of the keys the iterator holds.\<close>

lemma mit_seek_spec:
  assumes "mit_inv self" "\<forall>k \<in> mit_keys self. \<not> strict_prefix k q"
  shows "\<exists>self'. mit_seek q self = Some self' \<and> mit_inv self' \<and> mit_rest self' = dropWhile (\<lambda>x. snd (fst x) < q) (mit_rest self)"
proof -
  obtain self1 where s1: "mit_peek self = Some (case mit_rest self of [] \<Rightarrow> None | x # _ \<Rightarrow> Some x, self1)" "mit_inv self1"
      "mit_rest self1 = mit_rest self" "mit_item self1 = (case mit_rest self of [] \<Rightarrow> None | x # _ \<Rightarrow> Some x)"
      "mit_keys self1 \<subseteq> mit_keys self"
    using mit_peek_spec[OF assms(1)] by blast
  show ?thesis
  proof (cases "mit_rest self")
    case Nil
    then show ?thesis using s1 by (simp add: mit_seek_def)
  next
    case (Cons x xs)
    obtain ks k v where x: "x = ((ks, k), v)" by (metis surj_pair)
    show ?thesis
    proof (cases "k < q")
      case True
      have "mit_seek q self = mit_seek q self1" using s1 Cons x by (simp add: mit_seek_def mit_peek_def)
      then show ?thesis using mit_seek_peeked[OF s1(2), of ks k v q] True s1(3-5) assms(2) Cons x by auto
    next
      case False
      then show ?thesis using s1 Cons x by (auto simp: mit_seek_def)
    qed
  qed
qed

lemma get_loop_spec:
  "mit_inv it \<Longrightarrow> get_loop key it = Some (map_option snd (find (\<lambda>x. snd (fst x) = key) (mit_rest it)))"
proof (induction "length (mit_rest it)" arbitrary: it)
  case 0
  then show ?case using mit.next_Nil[of it] by (subst get_loop.simps) auto
next
  case (Suc n)
  obtain x xs where r: "mit_rest it = x # xs" using Suc.hyps(2) by (cases "mit_rest it") auto
  then obtain it' where it': "mit_next it = Some (Some x, it')" "mit_inv it'" "mit_rest it' = xs"
    using mit.next_Cons[OF Suc.prems] by blast
  obtain ks k v where x: "x = ((ks, k), v)" by (metis surj_pair)
  show ?case using Suc.hyps(1)[of it'] Suc.hyps(2) it' r x by (subst get_loop.simps) simp
qed

lemma find_bt_get: "map_option snd (find (\<lambda>x. snd (fst x) = key) (map (\<lambda>(k, v). ((ks, k), v)) kvs)) = bt_get kvs key"
  by (induction kvs) (auto simp: bt_get_Cons)

lemma storage_get_spec:
  assumes "storage_wf s" and "fst key \<in> kss_ids s"
    and "\<forall>k. kss_get s (fst key) = Some k \<longrightarrow> (\<forall>e \<in> set (mb_data (ksp_backend k)). \<not> strict_prefix (ukey (fst e)) (snd key))"
  shows "storage_get s key n = Some (mvcc_read (kss_contents s (fst key)) n (snd key))"
proof -
  have st: "fst (start_value (kr_start (new_within key False))) = fst key" by (simp add: new_within_def)
  have rng: "range_ok s (new_within key False)"
    using assms(2,3) by (auto simp: range_ok_def new_within_def separates_def scannable_def)
  obtain it kvs where it: "mit_new s (new_within key False) n = Some it" "mit_inv it"
      "mit_rest it = map (\<lambda>(k, v). ((fst key, k), v)) kvs"
      "bt_get kvs = (\<lambda>k. if range_contains (key_range_map snd id (new_within key False)) k
        then mvcc_read (kss_contents s (fst key)) n k else None)"
    using mit_new_spec[OF assms(1) rng, of n] unfolding st by blast
  have "range_contains (key_range_map snd id (new_within key False)) (snd key)"
    by (simp add: range_contains_def new_within_def)
  then have "get_loop (snd key) it = Some (mvcc_read (kss_contents s (fst key)) n (snd key))"
    using get_loop_spec[OF it(2), of "snd key"] find_bt_get[of "snd key" "fst key" kvs] it(3,4) by simp
  then show ?thesis
    using it(1) by (simp add: storage_get_def get_mapped_def storage_iterate_range_def option.map_ident)
qed

section \<open>Properties\<close>

text \<open>C3: an iterator opened on a range at a sequence number terminates and yields, in key order, exactly the
  keys of the range that have a value at that sequence number, each once and with the value of its newest
  visible version: older versions, newer versions and deleted keys do not appear.\<close>

theorem mvcc_scan_correct:
  assumes "storage_wf s" and "range_ok s rng"
  shows "\<exists>it kvs fuel. storage_iterate_range s rng n = Some it \<and>
    it_collect mit_next fuel it = Some (map (\<lambda>(k, v). ((fst (start_value (kr_start rng)), k), v)) kvs) \<and> bt_wf kvs \<and>
    (\<forall>k. bt_get kvs k =
      (if range_contains (key_range_map snd id rng) k
       then mvcc_read (kss_contents s (fst (start_value (kr_start rng)))) n k else None))"
proof -
  let ?ks = "fst (start_value (kr_start rng))"
  obtain it kvs where it: "mit_new s rng n = Some it" "mit_inv it" "mit_rest it = map (\<lambda>(k, v). ((?ks, k), v)) kvs" "bt_wf kvs"
      "bt_get kvs = (\<lambda>k. if range_contains (key_range_map snd id rng) k then mvcc_read (kss_contents s ?ks) n k else None)"
    using mit_new_spec[OF assms, of n] by blast
  then have "it_collect mit_next (Suc (length kvs)) it = Some (mit_rest it)" by (intro mit.collect_rest) auto
  then show ?thesis using it unfolding storage_iterate_range_def by (metis (no_types, lifting))
qed

definition example_storage :: keyspaces where
  "example_storage = \<lparr> kss_keyspaces =
       [\<lparr> ksp_backend = \<lparr> mb_data =
            [(mvcc_build [1] 5 OpInsert, [50]), (mvcc_build [1] 2 OpInsert, [20]),
             (mvcc_build [2] 3 OpDelete, []), (mvcc_build [2] 1 OpInsert, [10])], mb_poisoned = False \<rparr>,
          ksp_name = [65], ksp_id = 0, ksp_prefix_length = None \<rparr>],
     kss_index = Some 0 # replicate 9 None \<rparr>"

lemma example_storage_wf [simp]: "storage_wf example_storage"
proof -
  have ok: "seq_ok 1" "seq_ok 2" "seq_ok 3" "seq_ok 5" by (simp_all add: seq_ok_def)
  have "mvcc_wf [(mvcc_build [1] 5 OpInsert, [50]), (mvcc_build [1] 2 OpInsert, [20]),
      (mvcc_build [2] 3 OpDelete, []), (mvcc_build [2] 1 OpInsert, [10])]"
    using ok by (auto simp: mvcc_wf_def mvcc_decodes_def mvcc_build_less_iff keys_apart_def)
  then show ?thesis
    by (auto simp: storage_wf_def kss_wf_def example_storage_def KEYSPACE_MAXIMUM_COUNT_def mb_inv_def mvcc_wf_def
        nth_Cons' less_Suc_eq numeral_eq_Suc)
qed

lemma example_storage_keyspace:
  "kss_get example_storage 0 = Some (hd (kss_keyspaces example_storage))" "kss_ids example_storage = {0}"
  by (simp_all add: kss_get_def kss_position_def nth_opt_def example_storage_def kss_ids_def)

lemma example_read:
  "mvcc_read (kss_contents example_storage 0) 3 [1] = Some [20]" "mvcc_read (kss_contents example_storage 0) 3 [2] = None"
proof -
  have ok: "seq_ok 1" "seq_ok 2" "seq_ok 3" "seq_ok 5" by (simp_all add: seq_ok_def)
  let ?m = "kss_contents example_storage 0"
  have m: "?m (mvcc_build k s op) =
      (if k = [1] \<and> s = 5 \<and> op = OpInsert then Some [50] else if k = [1] \<and> s = 2 \<and> op = OpInsert then Some [20]
       else if k = [2] \<and> s = 3 \<and> op = OpDelete then Some [] else if k = [2] \<and> s = 1 \<and> op = OpInsert then Some [10] else None)"
    if "seq_ok s" for k s op
    using ok that unfolding kss_contents_def example_storage_keyspace(1)
    by (simp add: example_storage_def mb_contents_def bt_get_Cons mvcc_build_inj)
  have "versions ?m 3 [1] = {2}" "versions ?m 3 [2] = {1, 3}"
    using ok by (auto simp: versions_def m split: if_splits)
  then show "mvcc_read ?m 3 [1] = Some [20]" "mvcc_read ?m 3 [2] = None"
    using ok by (simp_all add: mvcc_read_def m)
qed

theorem mvcc_scan_correct_witness:
  "\<exists>it kvs fuel. storage_iterate_range example_storage (new_within (0, []) False) 3 = Some it \<and>
     it_collect mit_next fuel it = Some (map (\<lambda>(k, v). ((0, k), v)) kvs) \<and> bt_get kvs [1] = Some [20] \<and> bt_get kvs [2] = None"
proof -
  have "range_ok example_storage (new_within (0, []) False)"
    by (simp add: range_ok_def example_storage_keyspace new_within_def separates_def scannable_def)
  from mvcc_scan_correct[OF example_storage_wf this, of 3] obtain it kvs fuel where
      "storage_iterate_range example_storage (new_within (0, []) False) 3 = Some it"
      "it_collect mit_next fuel it = Some (map (\<lambda>(k, v). ((0, k), v)) kvs)"
      "\<forall>k. bt_get kvs k = mvcc_read (kss_contents example_storage 0) 3 k"
    by (auto simp: new_within_def range_contains_def)
  then show ?thesis by (metis example_read)
qed

text \<open>C5: \<^verbatim>\<open>get\<close> returns the value of the newest version of the key that is visible at the sequence number, and
  nothing when there is none or it is a deletion; it returns on every storage whose stored keys are not
  extended by the key.\<close>

theorem storage_get_correct:
  assumes "storage_wf s" and "fst key \<in> kss_ids s"
    and "\<forall>k. kss_get s (fst key) = Some k \<longrightarrow> (\<forall>e \<in> set (mb_data (ksp_backend k)). \<not> strict_prefix (ukey (fst e)) (snd key))"
  shows "storage_get s key n = Some (mvcc_read (kss_contents s (fst key)) n (snd key))"
  by (rule storage_get_spec[OF assms])

theorem storage_get_correct_witness:
  "storage_get example_storage (0, [1]) 3 = Some (Some [20]) \<and> storage_get example_storage (0, [2]) 3 = Some None"
proof -
  have "\<forall>k. kss_get example_storage 0 = Some k \<longrightarrow> (\<forall>e \<in> set (mb_data (ksp_backend k)). \<not> strict_prefix (ukey (fst e)) q)"
    if "q = [1] \<or> q = [2]" for q
    using that unfolding example_storage_keyspace by (auto simp: example_storage_def strict_prefix_def)
  then show ?thesis
    using storage_get_correct[OF example_storage_wf, of "(0, [1])" 3] storage_get_correct[OF example_storage_wf, of "(0, [2])" 3]
    by (simp add: example_storage_keyspace(2) example_read)
qed

text \<open>C13: seeking an iterator drops exactly the items before the key and never reaches the unreachable branch
  of the peekable adaptor, however far the iterator has advanced.\<close>

theorem mvcc_seek_correct:
  assumes "mit_inv it" and "\<forall>k \<in> mit_keys it. \<not> strict_prefix k q"
  shows "\<exists>it' fuel. mit_seek q it = Some it' \<and> mit_inv it' \<and>
    it_collect mit_next fuel it' = Some (dropWhile (\<lambda>x. snd (fst x) < q) (mit_rest it))"
  using mit_seek_spec[OF assms] mit.collect_rest by (metis lessI)

theorem mvcc_seek_correct_witness:
  "\<exists>it it' fuel. storage_iterate_range example_storage (new_within (0, []) False) 1 = Some it \<and>
     mit_seek [2] it = Some it' \<and> it_collect mit_next fuel it' \<noteq> None"
proof -
  have rng: "range_ok example_storage (new_within (0, []) False)"
    by (simp add: range_ok_def example_storage_keyspace new_within_def separates_def scannable_def)
  obtain it where it: "mit_new example_storage (new_within (0, []) False) 1 = Some it" "mit_inv it"
    using mit_new_spec[OF example_storage_wf rng, of 1] by blast
  have "set (pk_rest ri_rest (mit_iterator it)) \<subseteq> set (mb_data (ksp_backend (hd (kss_keyspaces example_storage))))"
       "mit_item it = None"
    using it(1) by (auto simp: mit_new_def example_storage_keyspace ksp_iterate_range_def create_iterator_def new_within_def
        range_iterator_new_def bind_eq_Some_conv pk_new_def pk_rest_def ri_rest_def mi_seek_def bt_filter_def Let_def
        dest!: set_takeWhileD in_set_dropD split: if_splits)
  then have "mit_keys it \<subseteq> {[1], [2]}" by (fastforce simp: mit_keys_def example_storage_def)
  then have "\<forall>k \<in> mit_keys it. \<not> strict_prefix k [2]" by (auto simp: strict_prefix_def)
  from mvcc_seek_correct[OF it(2) this] show ?thesis using it(1) by (auto simp: storage_iterate_range_def)
qed

end
