(* ===== verification/SnapshotIterator.thy ===== *)
theory SnapshotIterator
  imports Mvcc "HOL-Library.Product_Lexorder"
begin

text \<open>
  The iterator of a snapshot (\<^verbatim>\<open>SnapshotRangeIterator\<close> of \<^verbatim>\<open>src/storage/snapshot/iterator.rs\<close>): it merges the
  committed entries that the snapshot sees with the snapshot's own buffered writes, a buffered write hiding
  the committed entry of the same key.  Storage keys are ordered by keyspace and then by bytes, as
  \<^verbatim>\<open>StorageKeyReference\<close> is.
\<close>

section \<open>The iterator\<close>

datatype ready_item_source = ReadyStorage | ReadyBuffered | ReadyBoth

record snapshot_iterator =
  si_storage_iterator :: "mvcc_iterator option"
  si_buffered_iterator :: "buffer_range_iterator option"
  si_ready_item_source :: "ready_item_source option"

definition si_new :: "mvcc_iterator \<Rightarrow> buffer_range_iterator option \<Rightarrow> snapshot_iterator" where
  "si_new mvcc_iterator buffered_iterator =
     \<lparr> si_storage_iterator = Some mvcc_iterator, si_buffered_iterator = buffered_iterator, si_ready_item_source = None \<rparr>"

definition si_new_empty :: snapshot_iterator where
  "si_new_empty = \<lparr> si_storage_iterator = None, si_buffered_iterator = None, si_ready_item_source = None \<rparr>"

text \<open>The loop that skips buffered deletions once the storage is exhausted.\<close>

fun skip_deleted :: "buffer_range_iterator \<Rightarrow> buffer_range_iterator" where
  "skip_deleted [] = []"
| "skip_deleted ((key, w) # b) = (if is_delete w then skip_deleted b else (key, w) # b)"

text \<open>One turn of \<^verbatim>\<open>find_next_state\<close> either decides the source of the next item or advances the buffered
  iterator, so the loop recurses on the buffered items.  The first argument is that list, the second the
  storage iterator.\<close>

fun si_merge_step :: "buffer_range_iterator \<Rightarrow> mvcc_iterator \<Rightarrow>
    (ready_item_source option \<times> buffer_range_iterator \<times> mvcc_iterator) option" where
  "si_merge_step [] storage =
     (case mit_peek storage of
        None \<Rightarrow> None
      | Some (None, storage) \<Rightarrow> Some (None, [], storage)
      | Some (Some _, storage) \<Rightarrow> Some (Some ReadyStorage, [], storage))"
| "si_merge_step ((buffered_key, buffered_write) # b) storage =
     (case mit_peek storage of
        None \<Rightarrow> None
      | Some (None, storage) \<Rightarrow>
          let b' = skip_deleted ((buffered_key, buffered_write) # b)
          in Some (if b' \<noteq> [] then Some ReadyBuffered else None, b', storage)
      | Some (Some (storage_key, _), storage) \<Rightarrow>
          if buffered_key < storage_key then
            if is_delete buffered_write then si_merge_step b storage
            else Some (Some ReadyBuffered, (buffered_key, buffered_write) # b, storage)
          else if buffered_key = storage_key then
            if is_delete buffered_write then
              (case mit_next storage of None \<Rightarrow> None | Some (_, storage) \<Rightarrow> si_merge_step b storage)
            else Some (Some ReadyBoth, (buffered_key, buffered_write) # b, storage)
          else Some (Some ReadyStorage, (buffered_key, buffered_write) # b, storage))"

text \<open>Without a buffered iterator the storage is the only source.\<close>

definition si_find_next_state :: "snapshot_iterator \<Rightarrow> snapshot_iterator option" where
  "si_find_next_state self =
     (case (si_ready_item_source self, si_storage_iterator self) of
        (None, Some storage) \<Rightarrow>
          (case si_buffered_iterator self of
             None \<Rightarrow> do {
               (item, storage) \<leftarrow> mit_peek storage;
               Some (self\<lparr> si_storage_iterator := Some storage,
                           si_ready_item_source := (if item = None then None else Some ReadyStorage) \<rparr>) }
           | Some b \<Rightarrow> do {
               (source, b, storage) \<leftarrow> si_merge_step b storage;
               Some \<lparr> si_storage_iterator = Some storage, si_buffered_iterator = Some b, si_ready_item_source = source \<rparr> })
      | _ \<Rightarrow> Some self)"

definition si_storage_next :: "snapshot_iterator \<Rightarrow> ((storage_key \<times> bytes) option \<times> snapshot_iterator) option" where
  "si_storage_next self = do {
     storage \<leftarrow> si_storage_iterator self;
     (item, storage) \<leftarrow> mit_next storage;
     Some (item, self\<lparr> si_storage_iterator := Some storage \<rparr>) }"

text \<open>A buffered deletion must not be returned.\<close>

definition si_buffered_next :: "snapshot_iterator \<Rightarrow> ((storage_key \<times> bytes) option \<times> snapshot_iterator) option" where
  "si_buffered_next self = do {
     b \<leftarrow> si_buffered_iterator self;
     let (item, b) = bri_next b;
     let self = self\<lparr> si_buffered_iterator := Some b \<rparr>;
     case item of
       None \<Rightarrow> Some (None, self)
     | Some (key, w) \<Rightarrow> do { value \<leftarrow> get_value w; Some (Some (key, value), self) } }"

definition si_buffered_peek :: "snapshot_iterator \<Rightarrow> (storage_key \<times> bytes) option option" where
  "si_buffered_peek self = do {
     b \<leftarrow> si_buffered_iterator self;
     case bri_peek b of
       None \<Rightarrow> Some None
     | Some (key, w) \<Rightarrow> do { value \<leftarrow> get_value w; Some (Some (key, value)) } }"

definition si_next :: "snapshot_iterator \<Rightarrow> ((storage_key \<times> bytes) option \<times> snapshot_iterator) option" where
  "si_next self = do {
     self \<leftarrow> si_find_next_state self;
     let source = si_ready_item_source self;
     let self = self\<lparr> si_ready_item_source := None \<rparr>;
     case source of
       Some ReadyBoth \<Rightarrow> do { (_, self) \<leftarrow> si_storage_next self; si_buffered_next self }
     | Some ReadyStorage \<Rightarrow> si_storage_next self
     | Some ReadyBuffered \<Rightarrow> si_buffered_next self
     | None \<Rightarrow> Some (None, self) }"

definition si_peek :: "snapshot_iterator \<Rightarrow> ((storage_key \<times> bytes) option \<times> snapshot_iterator) option" where
  "si_peek self = do {
     self \<leftarrow> si_find_next_state self;
     case si_ready_item_source self of
       None \<Rightarrow> Some (None, self)
     | Some ReadyStorage \<Rightarrow> do {
         storage \<leftarrow> si_storage_iterator self;
         (item, storage) \<leftarrow> mit_peek storage;
         Some (item, self\<lparr> si_storage_iterator := Some storage \<rparr>) }
     | Some _ \<Rightarrow> do { item \<leftarrow> si_buffered_peek self; Some (item, self) } }"

definition si_seek :: "storage_key \<Rightarrow> snapshot_iterator \<Rightarrow> snapshot_iterator option" where
  "si_seek key self = do {
     (item, self) \<leftarrow> si_peek self;
     case item of
       None \<Rightarrow> Some self
     | Some (peek, _) \<Rightarrow>
         if peek < key then do {
           let self = self\<lparr> si_ready_item_source := None,
             si_buffered_iterator := map_option (bri_seek (snd key)) (si_buffered_iterator self) \<rparr>;
           storage \<leftarrow> si_storage_iterator self;
           storage \<leftarrow> mit_seek (snd key) storage;
           si_find_next_state (self\<lparr> si_storage_iterator := Some storage \<rparr>) }
         else Some self }"

text \<open>\<^verbatim>\<open>first_cloned\<close> and the collecting methods drain the iterator.\<close>

definition si_first_cloned :: "snapshot_iterator \<Rightarrow> (storage_key \<times> bytes) option option" where
  "si_first_cloned self = map_option fst (si_next self)"

section \<open>The iterator implements the iterator interface\<close>

text \<open>What a snapshot iterates over: the committed entries overlaid with the buffered writes.\<close>

fun overlay :: "('k::linorder \<times> bytes) list \<Rightarrow> ('k \<times> buffered_write) list \<Rightarrow> ('k \<times> bytes) list" where
  "overlay st [] = st"
| "overlay [] ((k, w) # b) = (case get_value w of Some v \<Rightarrow> (k, v) # overlay [] b | None \<Rightarrow> overlay [] b)"
| "overlay ((sk, sv) # st) ((k, w) # b) =
     (if k < sk then (case get_value w of Some v \<Rightarrow> (k, v) # overlay ((sk, sv) # st) b | None \<Rightarrow> overlay ((sk, sv) # st) b)
      else if k = sk then (case get_value w of Some v \<Rightarrow> (k, v) # overlay st b | None \<Rightarrow> overlay st b)
      else (sk, sv) # overlay st ((k, w) # b))"

definition si_buffered :: "snapshot_iterator \<Rightarrow> buffer_range_iterator" where
  "si_buffered self = (case si_buffered_iterator self of None \<Rightarrow> [] | Some b \<Rightarrow> b)"

definition si_committed :: "snapshot_iterator \<Rightarrow> (storage_key \<times> bytes) list" where
  "si_committed self = (case si_storage_iterator self of None \<Rightarrow> [] | Some st \<Rightarrow> mit_rest st)"

definition si_rest :: "snapshot_iterator \<Rightarrow> (storage_key \<times> bytes) list" where
  "si_rest self = (case si_storage_iterator self of None \<Rightarrow> [] | Some st \<Rightarrow> overlay (mit_rest st) (si_buffered self))"

text \<open>The decision that \<^verbatim>\<open>find_next_state\<close> has stored agrees with the heads of the two lists.\<close>

fun ready_ok :: "ready_item_source option \<Rightarrow> buffer_range_iterator \<Rightarrow> (storage_key \<times> bytes) list \<Rightarrow> bool" where
  "ready_ok None b st = True"
| "ready_ok (Some ReadyStorage) b st = (st \<noteq> [] \<and> (b = [] \<or> fst (hd st) < fst (hd b)))"
| "ready_ok (Some ReadyBuffered) b st = (b \<noteq> [] \<and> \<not> is_delete (snd (hd b)) \<and> (st = [] \<or> fst (hd b) < fst (hd st)))"
| "ready_ok (Some ReadyBoth) b st = (b \<noteq> [] \<and> \<not> is_delete (snd (hd b)) \<and> st \<noteq> [] \<and> fst (hd b) = fst (hd st))"

definition si_inv :: "snapshot_iterator \<Rightarrow> bool" where
  "si_inv self \<longleftrightarrow> (\<forall>st. si_storage_iterator self = Some st \<longrightarrow> mit_inv st)
     \<and> (si_storage_iterator self = None \<longrightarrow> si_ready_item_source self = None)
     \<and> (si_buffered_iterator self = None \<longrightarrow> si_ready_item_source self \<in> {None, Some ReadyStorage})
     \<and> ready_ok (si_ready_item_source self) (si_buffered self) (si_committed self)"

lemma overlay_skip_deleted: "overlay [] (skip_deleted b) = overlay [] b"
  by (induction b rule: skip_deleted.induct) (auto simp: is_delete_get_value)

lemma skip_deleted_head: "skip_deleted b \<noteq> [] \<Longrightarrow> \<not> is_delete (snd (hd (skip_deleted b)))"
  by (induction b rule: skip_deleted.induct) auto

lemma si_merge_step_spec:
  assumes "mit_inv st"
  shows "\<exists>src b' st'. si_merge_step b st = Some (src, b', st') \<and> mit_inv st' \<and>
    overlay (mit_rest st') b' = overlay (mit_rest st) b \<and> ready_ok src b' (mit_rest st') \<and>
    (src = None \<longrightarrow> b' = [] \<and> mit_rest st' = [])"
  using assms
proof (induction b arbitrary: st)
  case Nil
  then show ?case using mit_peek_spec[of st] by (cases "mit_rest st") auto
next
  case (Cons e b)
  obtain k w where e: "e = (k, w)" by (cases e)
  obtain st1 where s1: "mit_peek st = Some (case mit_rest st of [] \<Rightarrow> None | x # _ \<Rightarrow> Some x, st1)" "mit_inv st1"
      "mit_rest st1 = mit_rest st"
    using mit_peek_spec[OF Cons.prems] by blast
  show ?case
  proof (cases "mit_rest st")
    case Nil
    then show ?thesis
      using s1 overlay_skip_deleted[of "(k, w) # b"] skip_deleted_head[of "(k, w) # b"]
      by (simp add: e Let_def split del: if_split) auto
  next
    case (Cons x xs)
    obtain sk sv where x: "x = (sk, sv)" by (cases x)
    obtain st2 where s2: "mit_next st1 = Some (Some x, st2)" "mit_inv st2" "mit_rest st2 = xs"
      using mit.next_Cons[OF s1(2)] s1(3) Cons by metis
    show ?thesis
      using Cons.IH[OF s1(2)] Cons.IH[OF s2(2)] s1 s2 Cons x e
      by (auto simp: is_delete_get_value not_less_iff_gr_or_eq)
  qed
qed

lemma si_find_next_state_spec:
  assumes "si_inv self"
  shows "\<exists>self'. si_find_next_state self = Some self' \<and> si_inv self' \<and> si_rest self' = si_rest self \<and>
    (si_ready_item_source self' = None \<longrightarrow> si_rest self' = [])"
proof (cases "(si_ready_item_source self, si_storage_iterator self)")
  case (Pair src st)
  show ?thesis
  proof (cases "src = None \<and> st \<noteq> None")
    case False
    then show ?thesis using Pair assms
      by (cases src; cases st) (auto simp: si_find_next_state_def si_inv_def si_rest_def)
  next
    case True
    then obtain st' where st: "si_storage_iterator self = Some st'" "si_ready_item_source self = None" "mit_inv st'"
      using Pair assms by (auto simp: si_inv_def)
    show ?thesis
    proof (cases "si_buffered_iterator self")
      case None
      then show ?thesis using st mit_peek_spec[OF st(3)]
        by (cases "mit_rest st'") (auto simp: si_find_next_state_def si_inv_def si_rest_def si_buffered_def si_committed_def)
    next
      case (Some b)
      then show ?thesis using st si_merge_step_spec[OF st(3), of b]
        by (auto simp: si_find_next_state_def si_inv_def si_rest_def si_buffered_def si_committed_def)
    qed
  qed
qed

lemma si_inv_undecided [simp]:
  "si_inv \<lparr> si_storage_iterator = Some st, si_buffered_iterator = b, si_ready_item_source = None \<rparr> = mit_inv st"
  by (simp add: si_inv_def)

lemma si_rest_storage [simp]:
  "si_rest \<lparr> si_storage_iterator = Some st, si_buffered_iterator = b, si_ready_item_source = src \<rparr> =
     overlay (mit_rest st) (case b of None \<Rightarrow> [] | Some b \<Rightarrow> b)"
  by (simp add: si_rest_def si_buffered_def)

lemma overlay_storage_first:
  "b = [] \<or> fst x < fst (hd b) \<Longrightarrow> overlay (x # xs) b = x # overlay xs b"
  by (cases b; cases x) auto

lemma overlay_buffered_first:
  "get_value w = Some v \<Longrightarrow> st = [] \<or> k < fst (hd st) \<Longrightarrow> overlay st ((k, w) # b) = (k, v) # overlay st b"
  by (cases st) auto

lemma overlay_both:
  "get_value w = Some v \<Longrightarrow> overlay ((k, sv) # st) ((k, w) # b) = (k, v) # overlay st b"
  by simp

lemma si_next_spec:
  assumes "si_inv self"
  shows "\<exists>self'. si_next self = Some (case si_rest self of [] \<Rightarrow> None | x # _ \<Rightarrow> Some x, self') \<and> si_inv self' \<and>
    si_rest self' = tl (si_rest self)"
proof -
  obtain self1 where s1: "si_find_next_state self = Some self1" "si_inv self1" "si_rest self1 = si_rest self"
      "si_ready_item_source self1 = None \<longrightarrow> si_rest self1 = []"
    using si_find_next_state_spec[OF assms] by (elim exE conjE)
  obtain ost ob src where f: "self1 = \<lparr> si_storage_iterator = ost, si_buffered_iterator = ob, si_ready_item_source = src \<rparr>"
    by (cases self1)
  show ?thesis
  proof (cases src)
    case None
    then show ?thesis using s1 f by (simp add: si_next_def)
  next
    case (Some src')
    then obtain st where st: "ost = Some st" "mit_inv st"
      using s1(2) unfolding f si_inv_def by (cases ost) auto
    obtain st' where st': "mit_next st = Some (case mit_rest st of [] \<Rightarrow> None | x # _ \<Rightarrow> Some x, st')" "mit_inv st'"
        "mit_rest st' = tl (mit_rest st)"
      using mit.nextE[OF st(2)] by metis
    define b where "b = (case ob of None \<Rightarrow> [] | Some b \<Rightarrow> b)"
    have ok: "ready_ok (Some src') b (mit_rest st)" "ob = None \<Longrightarrow> src' = ReadyStorage"
      using s1(2) unfolding f si_inv_def by (simp_all add: Some st si_committed_def si_buffered_def b_def)
    have r: "si_rest self = overlay (mit_rest st) b" using s1(3) by (simp add: f st b_def)
    show ?thesis
    proof (cases src')
      case ReadyStorage
      then obtain x xs where x: "mit_rest st = x # xs" "b = [] \<or> fst x < fst (hd b)" using ok by (cases "mit_rest st") auto
      have "si_next self = Some (Some x, \<lparr> si_storage_iterator = Some st', si_buffered_iterator = ob, si_ready_item_source = None \<rparr>)"
        using s1(1) st st' x by (simp add: si_next_def f Some ReadyStorage si_storage_next_def)
      then show ?thesis using st' x r overlay_storage_first[OF x(2)] by (simp add: b_def)
    next
      case ReadyBuffered
      then obtain k w b' where b: "b = (k, w) # b'" "\<not> is_delete w" "mit_rest st = [] \<or> k < fst (hd (mit_rest st))"
        using ok by (cases b) auto
      obtain v where v: "get_value w = Some v" using b(2) by (auto simp: is_delete_get_value)
      have ob: "ob = Some b" using ok(2) ReadyBuffered by (cases ob) (auto simp: b_def)
      have "si_next self = Some (Some (k, v), \<lparr> si_storage_iterator = Some st, si_buffered_iterator = Some b', si_ready_item_source = None \<rparr>)"
        using s1(1) st b v by (simp add: si_next_def f Some ReadyBuffered si_buffered_next_def bri_next_def ob)
      then show ?thesis using st r overlay_buffered_first[OF v b(3)] by (simp add: b)
    next
      case ReadyBoth
      then obtain k w b' sv xs where b: "b = (k, w) # b'" "\<not> is_delete w" "mit_rest st = (k, sv) # xs"
        using ok by (cases b; cases "mit_rest st") auto
      obtain v where v: "get_value w = Some v" using b(2) by (auto simp: is_delete_get_value)
      have ob: "ob = Some b" using ok(2) ReadyBoth by (cases ob) (auto simp: b_def)
      have "si_next self = Some (Some (k, v), \<lparr> si_storage_iterator = Some st', si_buffered_iterator = Some b', si_ready_item_source = None \<rparr>)"
        using s1(1) st st' b v by (simp add: si_next_def f Some ReadyBoth si_storage_next_def si_buffered_next_def bri_next_def ob)
      then show ?thesis using st' r b v by simp
    qed
  qed
qed

interpretation si: lending_iterator si_inv si_rest si_next
  by unfold_locales (use si_next_spec in force)+


section \<open>The overlay\<close>

text \<open>The meaning of a snapshot's view: its own write of a key if there is one, and the committed value
  otherwise.\<close>

definition view :: "('k \<rightharpoonup> bytes) \<Rightarrow> ('k \<rightharpoonup> buffered_write) \<Rightarrow> 'k \<rightharpoonup> bytes" where
  "view committed writes k = (case writes k of None \<Rightarrow> committed k | Some w \<Rightarrow> get_value w)"

lemma overlay_above: "\<forall>x \<in> set st. c < fst x \<Longrightarrow> \<forall>x \<in> set b. c < fst x \<Longrightarrow> x \<in> set (overlay st b) \<Longrightarrow> c < fst x"
  by (induction st b rule: overlay.induct) (auto split: if_splits option.splits)

lemma bt_get_outside: "k \<notin> fst ` set m \<Longrightarrow> bt_get m k = None"
  by (induction m) (auto simp: bt_get_Cons)

lemma bt_wf_overlay: "bt_wf st \<Longrightarrow> bt_wf b \<Longrightarrow> bt_wf (overlay st b)"
proof (induction st b rule: overlay.induct)
  case (2 k w b)
  then show ?case using overlay_above[of "[]" k b] by (auto split: option.splits)
next
  case (3 sk sv st k w b)
  show ?case
  proof (cases k sk rule: linorder_cases)
    case less
    then have "\<forall>x \<in> set ((sk, sv) # st). k < fst x" using "3.prems"(1) by auto
    then have "\<forall>x \<in> set (overlay ((sk, sv) # st) b). k < fst x"
      using overlay_above[of "(sk, sv) # st" k b] "3.prems"(2) by simp
    then show ?thesis using less "3.IH"(1,2) "3.prems" by (cases "get_value w") auto
  next
    case equal
    then have "\<forall>x \<in> set (overlay st b). k < fst x"
      using overlay_above[of st k b] "3.prems" by simp
    then show ?thesis using equal "3.IH"(3,4) "3.prems" by (cases "get_value w") auto
  next
    case greater
    then have "\<forall>x \<in> set ((k, w) # b). sk < fst x" using "3.prems"(2) by auto
    then have "\<forall>x \<in> set (overlay st ((k, w) # b)). sk < fst x"
      using overlay_above[of st sk "(k, w) # b"] "3.prems"(1) by simp
    then show ?thesis using greater "3.IH"(5) "3.prems" by auto
  qed
qed simp

lemma bt_get_overlay: "bt_wf st \<Longrightarrow> bt_wf b \<Longrightarrow> bt_get (overlay st b) k = view (bt_get st) (bt_get b) k"
proof (induction st b rule: overlay.induct)
  case (1 st)
  then show ?case by (simp add: view_def)
next
  case (2 k' w b)
  then have "bt_get b k' = None" by (intro bt_get_outside) auto
  then show ?case using 2 by (auto simp: view_def bt_get_Cons split: option.splits)
next
  case (3 sk sv st k' w b)
  have "bt_get b k' = None" "bt_get st sk = None" using "3.prems" by (auto intro!: bt_get_outside)
  moreover have "bt_get st k' = None" if "k' < sk" using "3.prems"(1) that by (intro bt_get_outside) auto
  moreover have "bt_get b sk = None" if "sk < k'" using "3.prems"(2) that by (intro bt_get_outside) auto
  ultimately show ?case using "3.IH" "3.prems"
    by (cases k' sk rule: linorder_cases; cases "get_value w") (auto simp: view_def bt_get_Cons)
qed

end
