(* ===== verification/Snapshot.thy ===== *)
theory Snapshot
  imports SnapshotIterator
begin

text \<open>
  Snapshots (\<^verbatim>\<open>src/storage/snapshot/snapshot.rs\<close>): a read snapshot is a sequence number, a writable snapshot
  (\<^verbatim>\<open>WriteSnapshot\<close> and \<^verbatim>\<open>SchemaSnapshot\<close>, whose code is the same but for the type of their commit records)
  adds an operations buffer.  The storage a snapshot reads from is the argument \<open>storage\<close>.  Reads in the
  in-memory storage raise no error, so the model of a read has a panic but no \<^verbatim>\<open>MVCCRead\<close> branch.

  The theorems show that writes to a snapshot are updates of its pending writes and locks, and that every
  read, point or range, sees the pending writes laid over the committed state at the opening sequence number.
\<close>

section \<open>Read snapshots\<close>

record read_snapshot =
  rs_open_sequence_number :: seq

definition rs_new :: "seq \<Rightarrow> read_snapshot" where
  "rs_new open_sequence_number = \<lparr> rs_open_sequence_number = open_sequence_number \<rparr>"

definition rs_get :: "keyspaces \<Rightarrow> read_snapshot \<Rightarrow> storage_key \<Rightarrow> bytes option option" where
  "rs_get storage self key = storage_get storage key (rs_open_sequence_number self)"

definition rs_get_last_existing :: "keyspaces \<Rightarrow> read_snapshot \<Rightarrow> storage_key \<Rightarrow> bytes option option" where
  "rs_get_last_existing storage self key = rs_get storage self key"

definition rs_iterate_range :: "keyspaces \<Rightarrow> read_snapshot \<Rightarrow> storage_key key_range \<Rightarrow> snapshot_iterator option" where
  "rs_iterate_range storage self rng = do {
     mvcc_iterator \<leftarrow> storage_iterate_range storage rng (rs_open_sequence_number self);
     Some (si_new mvcc_iterator None) }"

definition rs_any_in_range :: "keyspaces \<Rightarrow> read_snapshot \<Rightarrow> storage_key key_range \<Rightarrow> bool \<Rightarrow> bool option" where
  "rs_any_in_range storage self rng buffered_only =
     (if buffered_only then Some False
      else do {
        it \<leftarrow> storage_iterate_range storage rng (rs_open_sequence_number self);
        (item, _) \<leftarrow> mit_next it;
        Some (item \<noteq> None) })"

definition rs_iterate_storage_range ::
    "keyspaces \<Rightarrow> read_snapshot \<Rightarrow> storage_key key_range \<Rightarrow> snapshot_iterator option" where
  "rs_iterate_storage_range storage self rng = do {
     mvcc_iterator \<leftarrow> storage_iterate_range storage rng (rs_open_sequence_number self);
     Some (si_new mvcc_iterator None) }"

section \<open>Writable snapshots\<close>

record write_snapshot =
  ws_operations :: operations_buffer
  ws_open_sequence_number :: seq

definition ws_new_with_operations :: "seq \<Rightarrow> operations_buffer \<Rightarrow> write_snapshot" where
  "ws_new_with_operations open_sequence_number operations =
     \<lparr> ws_operations = operations, ws_open_sequence_number = open_sequence_number \<rparr>"

subsection \<open>Reads\<close>

definition ws_get_write :: "write_snapshot \<Rightarrow> storage_key \<Rightarrow> buffered_write option option" where
  "ws_get_write self key = do {
     writes \<leftarrow> ob_writes_in (fst key) (ws_operations self);
     Some (wb_get writes (snd key)) }"

definition ws_get :: "keyspaces \<Rightarrow> write_snapshot \<Rightarrow> storage_key \<Rightarrow> bytes option option" where
  "ws_get storage self key = do {
     buffered \<leftarrow> ws_get_write self key;
     case buffered of
       Some (Insert val) \<Rightarrow> Some (Some val)
     | Some (Put val _ _) \<Rightarrow> Some (Some val)
     | Some Delete \<Rightarrow> Some None
     | None \<Rightarrow> storage_get storage key (ws_open_sequence_number self) }"

definition ws_get_last_existing :: "keyspaces \<Rightarrow> write_snapshot \<Rightarrow> storage_key \<Rightarrow> bytes option option" where
  "ws_get_last_existing storage self key = do {
     buffered \<leftarrow> ws_get_write self key;
     case buffered of
       Some (Insert val) \<Rightarrow> Some (Some val)
     | Some (Put val _ _) \<Rightarrow> Some (Some val)
     | _ \<Rightarrow> storage_get storage key (ws_open_sequence_number self) }"

definition ws_contains :: "keyspaces \<Rightarrow> write_snapshot \<Rightarrow> storage_key \<Rightarrow> bool option" where
  "ws_contains storage self key = do {
     found \<leftarrow> ws_get storage self key;
     Some (found \<noteq> None) }"

definition ws_iterate_range :: "keyspaces \<Rightarrow> write_snapshot \<Rightarrow> storage_key key_range \<Rightarrow> snapshot_iterator option" where
  "ws_iterate_range storage self rng = do {
     writes \<leftarrow> ob_writes_in (fst (start_value (kr_start rng))) (ws_operations self);
     buffered_iterator \<leftarrow> wb_iterate_range (key_range_map snd id rng) writes;
     storage_iterator \<leftarrow> storage_iterate_range storage rng (ws_open_sequence_number self);
     Some (si_new storage_iterator (Some buffered_iterator)) }"

definition ws_any_in_range :: "keyspaces \<Rightarrow> write_snapshot \<Rightarrow> storage_key key_range \<Rightarrow> bool \<Rightarrow> bool option" where
  "ws_any_in_range storage self rng buffered_only = do {
     writes \<leftarrow> ob_writes_in (fst (start_value (kr_start rng))) (ws_operations self);
     buffered \<leftarrow> wb_any_not_deleted_in_range (key_range_map snd id rng) writes;
     if buffered then Some True
     else if buffered_only then Some False
     else do {
       it \<leftarrow> ws_iterate_range storage self rng;
       (item, _) \<leftarrow> si_next it;
       Some (item \<noteq> None) } }"

definition ws_iterate_writes :: "write_snapshot \<Rightarrow> (storage_key \<times> buffered_write) list option" where
  "ws_iterate_writes self = ob_iterate_writes (ws_operations self)"

definition ws_iterate_writes_range :: "write_snapshot \<Rightarrow> storage_key key_range \<Rightarrow> buffer_range_iterator option" where
  "ws_iterate_writes_range self rng = do {
     writes \<leftarrow> ob_writes_in (fst (start_value (kr_start rng))) (ws_operations self);
     wb_iterate_range (key_range_map snd id rng) writes }"

definition ws_iterate_storage_range ::
    "keyspaces \<Rightarrow> write_snapshot \<Rightarrow> storage_key key_range \<Rightarrow> snapshot_iterator option" where
  "ws_iterate_storage_range storage self rng = do {
     mvcc_iterator \<leftarrow> storage_iterate_range storage rng (ws_open_sequence_number self);
     Some (si_new mvcc_iterator None) }"

subsection \<open>Writes\<close>

text \<open>\<^verbatim>\<open>self.operations_mut().writes_in_mut(keyspace_id).method(..)\<close>, for a method that may panic.\<close>

definition ws_modify :: "keyspace_id \<Rightarrow> (write_buffer \<Rightarrow> write_buffer option) \<Rightarrow> write_snapshot \<Rightarrow> write_snapshot option" where
  "ws_modify keyspace_id method self = do {
     writes \<leftarrow> ob_writes_in keyspace_id (ws_operations self);
     writes \<leftarrow> method writes;
     operations \<leftarrow> ob_writes_in_mut keyspace_id (\<lambda>_. writes) (ws_operations self);
     Some (self\<lparr> ws_operations := operations \<rparr>) }"

definition ws_insert_val :: "storage_key \<Rightarrow> bytes \<Rightarrow> write_snapshot \<Rightarrow> write_snapshot option" where
  "ws_insert_val key val = ws_modify (fst key) (\<lambda>wb. Some (wb_insert (snd key) val wb))"

definition ws_insert :: "storage_key \<Rightarrow> write_snapshot \<Rightarrow> write_snapshot option" where
  "ws_insert key = ws_insert_val key []"

definition ws_uninsert_val :: "storage_key \<Rightarrow> bytes \<Rightarrow> write_snapshot \<Rightarrow> write_snapshot option" where
  "ws_uninsert_val key val = ws_modify (fst key) (wb_uninsert (snd key) val)"

definition ws_uninsert :: "storage_key \<Rightarrow> write_snapshot \<Rightarrow> write_snapshot option" where
  "ws_uninsert key = ws_uninsert_val key []"

definition ws_put_val :: "storage_key \<Rightarrow> bytes \<Rightarrow> write_snapshot \<Rightarrow> write_snapshot option" where
  "ws_put_val key val = ws_modify (fst key) (\<lambda>wb. Some (wb_put (snd key) val wb))"

definition ws_put :: "storage_key \<Rightarrow> write_snapshot \<Rightarrow> write_snapshot option" where
  "ws_put key = ws_put_val key []"

definition ws_unput_val :: "storage_key \<Rightarrow> bytes \<Rightarrow> write_snapshot \<Rightarrow> write_snapshot option" where
  "ws_unput_val key val = ws_modify (fst key) (wb_unput (snd key) val)"

definition ws_unput :: "storage_key \<Rightarrow> write_snapshot \<Rightarrow> write_snapshot option" where
  "ws_unput key = ws_unput_val key []"

definition ws_delete :: "storage_key \<Rightarrow> write_snapshot \<Rightarrow> write_snapshot option" where
  "ws_delete key = ws_modify (fst key) (\<lambda>wb. Some (wb_delete (snd key) wb))"

definition ws_unmodifiable_lock_add :: "storage_key \<Rightarrow> write_snapshot \<Rightarrow> write_snapshot" where
  "ws_unmodifiable_lock_add key self =
     self\<lparr> ws_operations := ob_lock_add (snd key) Unmodifiable (ws_operations self) \<rparr>"

definition ws_unmodifiable_lock_remove :: "storage_key \<Rightarrow> write_snapshot \<Rightarrow> write_snapshot" where
  "ws_unmodifiable_lock_remove key self = self\<lparr> ws_operations := ob_lock_remove (snd key) (ws_operations self) \<rparr>"

definition ws_exclusive_lock_add :: "bytes \<Rightarrow> write_snapshot \<Rightarrow> write_snapshot" where
  "ws_exclusive_lock_add key self = self\<lparr> ws_operations := ob_lock_add key Exclusive (ws_operations self) \<rparr>"

definition ws_clear :: "write_snapshot \<Rightarrow> write_snapshot" where
  "ws_clear self = self\<lparr> ws_operations := ob_clear (ws_operations self) \<rparr>"

datatype snapshot_get_error = ExpectedRequiredKeyToExist storage_key

definition ws_get_required ::
    "keyspaces \<Rightarrow> write_snapshot \<Rightarrow> storage_key \<Rightarrow> ((snapshot_get_error + bytes) \<times> write_snapshot) option" where
  "ws_get_required storage self key = do {
     writes \<leftarrow> ob_writes_in (fst key) (ws_operations self);
     case wb_get writes (snd key) of
       Some (Insert val) \<Rightarrow> Some (Inr val, self)
     | Some (Put val _ _) \<Rightarrow> Some (Inr val, self)
     | Some Delete \<Rightarrow> Some (Inl (ExpectedRequiredKeyToExist key), self)
     | None \<Rightarrow> do {
         storage_value \<leftarrow> ws_get storage self key;
         (case storage_value of
            Some val \<Rightarrow>
              Some (Inr val, self\<lparr> ws_operations := ob_lock_add (snd key) Unmodifiable (ws_operations self) \<rparr>)
          | None \<Rightarrow> Some (Inl (ExpectedRequiredKeyToExist key), self)) } }"

section \<open>The pending writes and locks\<close>

definition ws_wf :: "write_snapshot \<Rightarrow> bool" where
  "ws_wf self = ob_wf (ws_operations self)"

definition ws_writes :: "write_snapshot \<Rightarrow> storage_key \<rightharpoonup> buffered_write" where
  "ws_writes self key =
     (if fst key < KEYSPACE_MAXIMUM_COUNT then wb_get (ob_write_buffers (ws_operations self) ! fst key) (snd key) else None)"

definition ws_locks :: "write_snapshot \<Rightarrow> bytes \<rightharpoonup> lock_type" where
  "ws_locks self = bt_get (ob_locks (ws_operations self))"

text \<open>A write that returns leaves the snapshot well-formed, at its sequence number, with the given pending
  writes and locks.\<close>

definition ws_becomes ::
    "write_snapshot option \<Rightarrow> seq \<Rightarrow> (storage_key \<rightharpoonup> buffered_write) \<Rightarrow> (bytes \<rightharpoonup> lock_type) \<Rightarrow> bool" where
  "ws_becomes r n w l \<longleftrightarrow>
     (\<exists>s. r = Some s \<and> ws_wf s \<and> ws_open_sequence_number s = n \<and> ws_writes s = w \<and> ws_locks s = l)"

lemma ws_get_write_spec: "ws_wf s \<Longrightarrow> fst key < KEYSPACE_MAXIMUM_COUNT \<Longrightarrow> ws_get_write s key = Some (ws_writes s key)"
  by (simp add: ws_get_write_def ws_writes_def ws_wf_def ob_writes_in_def ob_wf_def)

lemma ob_writes_in_Some:
  "ob_wf ob \<Longrightarrow> ks < KEYSPACE_MAXIMUM_COUNT \<Longrightarrow> ob_writes_in ks ob = Some (ob_write_buffers ob ! ks)"
  by (simp add: ob_writes_in_def ob_wf_def)

lemma ws_modify_None:
  "ws_wf s \<Longrightarrow> ks < KEYSPACE_MAXIMUM_COUNT \<Longrightarrow> f (ob_write_buffers (ws_operations s) ! ks) = None \<Longrightarrow> ws_modify ks f s = None"
  by (simp add: ws_modify_def ws_wf_def ob_writes_in_Some)

lemma ws_modify_unknown: "ws_wf s \<Longrightarrow> \<not> ks < KEYSPACE_MAXIMUM_COUNT \<Longrightarrow> ws_modify ks f s = None"
  by (simp add: ws_modify_def ws_wf_def ob_wf_def ob_writes_in_def)

lemma ws_modify_Some:
  assumes "ws_wf s" "ks < KEYSPACE_MAXIMUM_COUNT" "f (ob_write_buffers (ws_operations s) ! ks) = Some wb"
    and "wb_wf wb" "wb_keyspace_id wb = ks" "wb_get wb = (\<lambda>k. if k = key then w else wb_get (ob_write_buffers (ws_operations s) ! ks) k)"
  shows "ws_becomes (ws_modify ks f s) (ws_open_sequence_number s) ((ws_writes s)((ks, key) := w)) (ws_locks s)"
proof -
  let ?ob = "(ws_operations s)\<lparr> ob_write_buffers := (ob_write_buffers (ws_operations s))[ks := wb] \<rparr>"
  let ?s = "s\<lparr> ws_operations := ?ob \<rparr>"
  have m: "ws_modify ks f s = Some ?s"
    using assms(1-3) by (simp add: ws_modify_def ws_wf_def ob_writes_in_Some ob_writes_in_mut_def)
  have "ws_wf ?s" using assms(1,2,4,5) by (auto simp: ws_wf_def ob_wf_def nth_list_update)
  moreover have "ws_writes ?s = (ws_writes s)((ks, key) := w)"
    using assms(1,2,6) by (auto simp: ws_writes_def fun_eq_iff ws_wf_def ob_wf_def nth_list_update)
  ultimately show ?thesis using m by (auto simp: ws_becomes_def ws_locks_def)
qed

lemma ws_buffer_wf:
  "ws_wf s \<Longrightarrow> ks < KEYSPACE_MAXIMUM_COUNT \<Longrightarrow>
   wb_wf (ob_write_buffers (ws_operations s) ! ks) \<and> wb_keyspace_id (ob_write_buffers (ws_operations s) ! ks) = ks"
  by (simp add: ws_wf_def ob_wf_def)

lemma wb_uninsert_spec:
  assumes "wb_wf wb"
  shows "wb_get wb k = Some (Insert v) \<Longrightarrow> \<exists>wb'. wb_uninsert k v wb = Some wb' \<and> wb_wf wb' \<and> wb_keyspace_id wb' = wb_keyspace_id wb \<and>
      wb_get wb' = (\<lambda>k'. if k' = k then None else wb_get wb k')"
    and "wb_get wb k \<noteq> Some (Insert v) \<Longrightarrow> wb_uninsert k v wb = None"
  using assms by (auto simp: wb_uninsert_def wb_get_def wb_wf_def fun_eq_iff split: option.splits buffered_write.splits)

lemma wb_unput_spec:
  assumes "wb_wf wb"
  shows "wb_get wb k = Some (Put v r e) \<Longrightarrow> \<exists>wb'. wb_unput k v wb = Some wb' \<and> wb_wf wb' \<and> wb_keyspace_id wb' = wb_keyspace_id wb \<and>
      wb_get wb' = (\<lambda>k'. if k' = k then None else wb_get wb k')"
    and "\<nexists>r e. wb_get wb k = Some (Put v r e) \<Longrightarrow> wb_unput k v wb = None"
  using assms by (auto simp: wb_unput_def wb_get_def wb_wf_def fun_eq_iff split: option.splits buffered_write.splits)

lemma ws_update_spec:
  assumes "ws_wf s" "fst key < KEYSPACE_MAXIMUM_COUNT"
    and "\<And>wb. wb_wf wb \<Longrightarrow> wb_wf (f wb) \<and> wb_keyspace_id (f wb) = wb_keyspace_id wb \<and> wb_get (f wb) = (wb_get wb)(snd key \<mapsto> w)"
  shows "ws_becomes (ws_modify (fst key) (\<lambda>wb. Some (f wb)) s) (ws_open_sequence_number s) ((ws_writes s)(key \<mapsto> w)) (ws_locks s)"
  using ws_modify_Some[OF assms(1,2), of "\<lambda>wb. Some (f wb)" _ "snd key" "Some w"] ws_buffer_wf[OF assms(1,2)] assms(3)
  by (simp add: fun_upd_def)

lemma ws_remove_spec:
  assumes "ws_wf s" "fst key < KEYSPACE_MAXIMUM_COUNT"
    and "\<exists>wb'. f (ob_write_buffers (ws_operations s) ! fst key) = Some wb' \<and> wb_wf wb' \<and>
      wb_keyspace_id wb' = wb_keyspace_id (ob_write_buffers (ws_operations s) ! fst key) \<and>
      wb_get wb' = (\<lambda>k'. if k' = snd key then None else wb_get (ob_write_buffers (ws_operations s) ! fst key) k')"
  shows "ws_becomes (ws_modify (fst key) f s) (ws_open_sequence_number s) ((ws_writes s)(key := None)) (ws_locks s)"
  using assms(3) ws_modify_Some[OF assms(1,2), of f _ "snd key" None] ws_buffer_wf[OF assms(1,2)] by auto

lemma ws_write_ops:
  assumes "ws_wf s" "fst key < KEYSPACE_MAXIMUM_COUNT"
  shows "ws_becomes (ws_insert_val key v s) (ws_open_sequence_number s) ((ws_writes s)(key \<mapsto> Insert v)) (ws_locks s)"
    and "ws_becomes (ws_put_val key v s) (ws_open_sequence_number s) ((ws_writes s)(key \<mapsto> Put v False False)) (ws_locks s)"
    and "ws_becomes (ws_delete key s) (ws_open_sequence_number s) ((ws_writes s)(key \<mapsto> Delete)) (ws_locks s)"
  unfolding ws_insert_val_def ws_put_val_def ws_delete_def by (rule ws_update_spec[OF assms], simp)+

lemma ws_unwrite_ops:
  assumes "ws_wf s" "fst key < KEYSPACE_MAXIMUM_COUNT"
  shows "ws_writes s key = Some (Insert v) \<Longrightarrow>
      ws_becomes (ws_uninsert_val key v s) (ws_open_sequence_number s) ((ws_writes s)(key := None)) (ws_locks s)"
    and "ws_writes s key \<noteq> Some (Insert v) \<Longrightarrow> ws_uninsert_val key v s = None"
    and "ws_writes s key = Some (Put v r e) \<Longrightarrow>
      ws_becomes (ws_unput_val key v s) (ws_open_sequence_number s) ((ws_writes s)(key := None)) (ws_locks s)"
    and "\<nexists>r e. ws_writes s key = Some (Put v r e) \<Longrightarrow> ws_unput_val key v s = None"
proof -
  let ?wb = "ob_write_buffers (ws_operations s) ! fst key"
  have wb: "wb_wf ?wb" "wb_get ?wb (snd key) = ws_writes s key"
    using ws_buffer_wf[OF assms] assms(2) by (simp_all add: ws_writes_def)
  note ins = wb_uninsert_spec[OF wb(1), of "snd key" v, unfolded wb(2)] and put = wb_unput_spec[OF wb(1), of "snd key" v, unfolded wb(2)]
  show "ws_writes s key = Some (Insert v) \<Longrightarrow>
      ws_becomes (ws_uninsert_val key v s) (ws_open_sequence_number s) ((ws_writes s)(key := None)) (ws_locks s)"
    "ws_writes s key \<noteq> Some (Insert v) \<Longrightarrow> ws_uninsert_val key v s = None"
    unfolding ws_uninsert_val_def using ins by (simp_all add: ws_remove_spec[OF assms] ws_modify_None[OF assms])
  show "ws_writes s key = Some (Put v r e) \<Longrightarrow>
      ws_becomes (ws_unput_val key v s) (ws_open_sequence_number s) ((ws_writes s)(key := None)) (ws_locks s)"
    unfolding ws_unput_val_def by (rule ws_remove_spec[OF assms]) (rule put(1))
  show "\<nexists>r e. ws_writes s key = Some (Put v r e) \<Longrightarrow> ws_unput_val key v s = None"
    unfolding ws_unput_val_def by (rule ws_modify_None[OF assms]) (rule put(2))
qed

lemma ws_lock_ops:
  assumes "ws_wf s"
  shows "ws_becomes (Some (ws_unmodifiable_lock_add key s)) (ws_open_sequence_number s) (ws_writes s) ((ws_locks s)(snd key \<mapsto> Unmodifiable))"
    and "ws_becomes (Some (ws_unmodifiable_lock_remove key s)) (ws_open_sequence_number s) (ws_writes s) ((ws_locks s)(snd key := None))"
    and "ws_becomes (Some (ws_exclusive_lock_add k s)) (ws_open_sequence_number s) (ws_writes s) ((ws_locks s)(k \<mapsto> Exclusive))"
    and "ws_becomes (Some (ws_clear s)) (ws_open_sequence_number s) Map.empty Map.empty"
  using assms by (auto simp: ws_becomes_def ws_wf_def ws_writes_def ws_locks_def ws_unmodifiable_lock_add_def
      ws_unmodifiable_lock_remove_def ws_exclusive_lock_add_def ws_clear_def ob_lock_add_def ob_lock_remove_def ob_clear_def
      ob_wf_def fun_eq_iff)

section \<open>Reads see the pending writes over the committed state\<close>

text \<open>The committed value of a key at a sequence number, and the keys \<^verbatim>\<open>get\<close> can look up.\<close>

definition committed :: "keyspaces \<Rightarrow> seq \<Rightarrow> storage_key \<rightharpoonup> bytes" where
  "committed storage n key = mvcc_read (kss_contents storage (fst key)) n (snd key)"

definition get_ok :: "keyspaces \<Rightarrow> storage_key \<Rightarrow> bool" where
  "get_ok storage key \<longleftrightarrow> fst key \<in> kss_ids storage \<and>
     (\<forall>k. kss_get storage (fst key) = Some k \<longrightarrow> (\<forall>e \<in> set (mb_data (ksp_backend k)). \<not> strict_prefix (ukey (fst e)) (snd key)))"

definition ws_view :: "keyspaces \<Rightarrow> write_snapshot \<Rightarrow> storage_key \<rightharpoonup> bytes" where
  "ws_view storage s = view (committed storage (ws_open_sequence_number s)) (ws_writes s)"

lemma storage_get_committed: "storage_wf storage \<Longrightarrow> get_ok storage key \<Longrightarrow> storage_get storage key n = Some (committed storage n key)"
  unfolding get_ok_def committed_def by (blast intro: storage_get_spec)

lemma ws_get_spec:
  assumes "storage_wf storage" "ws_wf s" "fst key < KEYSPACE_MAXIMUM_COUNT" "get_ok storage key"
  shows "ws_get storage s key = Some (ws_view storage s key)"
  using storage_get_committed[OF assms(1,4)] ws_get_write_spec[OF assms(2,3)]
  by (auto simp: ws_get_def ws_view_def view_def split: option.splits buffered_write.splits)

definition tag :: "keyspace_id \<Rightarrow> (bytes \<times> 'v) list \<Rightarrow> (storage_key \<times> 'v) list" where
  "tag ks = map (\<lambda>(k, v). ((ks, k), v))"

lemma bt_wf_tag [simp]: "bt_wf (tag ks kvs) = bt_wf kvs"
  by (simp add: bt_wf_def tag_def sorted_wrt_map case_prod_unfold)

lemma bt_get_tag: "bt_get (tag ks kvs) key = (if fst key = ks then bt_get kvs (snd key) else None)"
  by (induction kvs) (auto simp: tag_def bt_get_Cons split: if_splits)

lemma bt_wf_Nil_iff: "m = [] \<longleftrightarrow> (\<forall>k. bt_get m k = None)"
proof (cases m)
  case (Cons x xs)
  then have "bt_get m (fst x) \<noteq> None" by (cases x) (simp add: bt_get_Cons)
  then show ?thesis using Cons by auto
qed simp

lemma si_new_inv [simp]: "mit_inv it \<Longrightarrow> si_inv (si_new it b)"
  by (simp add: si_inv_def si_new_def)

lemma si_new_rest [simp]: "si_rest (si_new it (Some b)) = overlay (mit_rest it) b" "si_rest (si_new it None) = mit_rest it"
  by (simp_all add: si_rest_def si_new_def si_buffered_def)

text \<open>The scan of a writable snapshot starts with the overlay of the two scans.\<close>

definition scan_writes_ok :: "write_snapshot \<Rightarrow> storage_key key_range \<Rightarrow> bool" where
  "scan_writes_ok s rng \<longleftrightarrow> fst (start_value (kr_start rng)) < KEYSPACE_MAXIMUM_COUNT \<and>
     (let wb = ob_write_buffers (ws_operations s) ! fst (start_value (kr_start rng)) in
      wb_range (key_range_map snd id rng) wb \<noteq> None \<and>
      list_all (\<lambda>e. covers_ends (key_range_map snd id rng) (fst e)) (wb_writes wb))"

lemma ws_iterate_range_spec:
  assumes "storage_wf storage" "range_ok storage rng" "ws_wf s" "scan_writes_ok s rng"
  obtains it kvs b where
    "ws_iterate_range storage s rng = Some it" "si_inv it"
    "si_rest it = overlay (tag (fst (start_value (kr_start rng))) kvs) (tag (fst (start_value (kr_start rng))) b)"
    "bt_wf kvs" "bt_wf b" "wb_range (key_range_map snd id rng) (ob_write_buffers (ws_operations s) ! fst (start_value (kr_start rng))) = Some b"
    "\<And>k. bt_get kvs k = (if range_contains (key_range_map snd id rng) k
       then committed storage (ws_open_sequence_number s) (fst (start_value (kr_start rng)), k) else None)"
    "\<And>k. bt_get b k = (if range_contains (key_range_map snd id rng) k
       then ws_writes s (fst (start_value (kr_start rng)), k) else None)"
proof -
  let ?ks = "fst (start_value (kr_start rng))" and ?r = "key_range_map snd id rng" and ?n = "ws_open_sequence_number s"
  let ?wb = "ob_write_buffers (ws_operations s) ! ?ks"
  have ks: "?ks < KEYSPACE_MAXIMUM_COUNT" using assms(4) by (simp add: scan_writes_ok_def)
  obtain it kvs where it: "mit_new storage rng ?n = Some it" "mit_inv it"
      "mit_rest it = map (\<lambda>(k, v). ((?ks, k), v)) kvs" "bt_wf kvs"
      "bt_get kvs = (\<lambda>k. if range_contains ?r k then mvcc_read (kss_contents storage ?ks) ?n k else None)"
    using mit_new_spec[OF assms(1,2), of ?n] by blast
  obtain b where b: "wb_range ?r ?wb = Some b"
    using assms(4) by (auto simp: scan_writes_ok_def Let_def)
  have bf: "b = bt_filter (range_contains ?r) (wb_writes ?wb)"
    by (rule wb_range_spec[OF b]) (use assms(4) in \<open>auto simp: scan_writes_ok_def Let_def list_all_iff\<close>)
  have wb: "bt_wf (wb_writes ?wb)" "wb_keyspace_id ?wb = ?ks"
    using ws_buffer_wf[OF assms(3) ks] by (simp_all add: wb_wf_def)
  have "ws_iterate_range storage s rng = Some (si_new it (Some (tag ?ks b)))"
    using it(1) b wb(2) ks assms(3)
    by (simp add: ws_iterate_range_def ws_wf_def ob_writes_in_Some wb_iterate_range_def storage_iterate_range_def tag_def)
  then show thesis
    using it wb b ks bf by (intro that[of _ kvs b]) (auto simp: tag_def committed_def ws_writes_def wb_get_def)
qed

lemma ws_scan_spec:
  assumes "storage_wf storage" "range_ok storage rng" "ws_wf s" "scan_writes_ok s rng"
  obtains it b where
    "ws_iterate_range storage s rng = Some it" "si_inv it" "bt_wf (si_rest it)"
    "it_collect si_next (Suc (length (si_rest it))) it = Some (si_rest it)"
    "\<And>key. bt_get (si_rest it) key =
      (if fst key = fst (start_value (kr_start rng)) \<and> range_contains (key_range_map snd id rng) (snd key) then ws_view storage s key else None)"
    "bt_wf b" "wb_range (key_range_map snd id rng) (ob_write_buffers (ws_operations s) ! fst (start_value (kr_start rng))) = Some b"
    "\<And>k. bt_get b k = (if range_contains (key_range_map snd id rng) k
       then ws_writes s (fst (start_value (kr_start rng)), k) else None)"
proof -
  let ?ks = "fst (start_value (kr_start rng))" and ?r = "key_range_map snd id rng"
  obtain it kvs b where it: "ws_iterate_range storage s rng = Some it" "si_inv it"
    "si_rest it = overlay (tag ?ks kvs) (tag ?ks b)" "bt_wf kvs" "bt_wf b"
    "wb_range ?r (ob_write_buffers (ws_operations s) ! ?ks) = Some b"
    "\<And>k. bt_get kvs k = (if range_contains ?r k then committed storage (ws_open_sequence_number s) (?ks, k) else None)"
    "\<And>k. bt_get b k = (if range_contains ?r k then ws_writes s (?ks, k) else None)"
    using ws_iterate_range_spec[OF assms] by blast
  have wf: "bt_wf (si_rest it)" using it(3-5) by (simp add: bt_wf_overlay)
  have rest: "bt_get (si_rest it) key =
      (if fst key = ?ks \<and> range_contains ?r (snd key) then ws_view storage s key else None)" for key
    using it(4,5) by (cases key) (auto simp: it(3,7,8) bt_get_overlay bt_get_tag ws_view_def view_def split: option.splits)
  have "it_collect si_next (Suc (length (si_rest it))) it = Some (si_rest it)"
    using it(2) by (intro si.collect_rest) auto
  then show thesis by (rule that[OF it(1,2) wf _ rest it(5,6,8)])
qed

section \<open>Properties\<close>

text \<open>C12: a writable snapshot is a map of pending writes with a map of locks.  Every write to an existing
  keyspace id is the corresponding update and keeps the snapshot well-formed at its sequence number;
  \<^verbatim>\<open>uninsert\<close> and \<^verbatim>\<open>unput\<close> take back exactly the write they name and panic otherwise; a keyspace id out of
  range panics; the lock operations and \<^verbatim>\<open>clear\<close> always return.\<close>

theorem snapshot_writes_refine:
  assumes "ws_wf s"
  shows "(if fst key < KEYSPACE_MAXIMUM_COUNT
          then ws_becomes (ws_insert_val key v s) (ws_open_sequence_number s) ((ws_writes s)(key \<mapsto> Insert v)) (ws_locks s)
             \<and> ws_becomes (ws_put_val key v s) (ws_open_sequence_number s) ((ws_writes s)(key \<mapsto> Put v False False)) (ws_locks s)
             \<and> ws_becomes (ws_delete key s) (ws_open_sequence_number s) ((ws_writes s)(key \<mapsto> Delete)) (ws_locks s)
             \<and> (if ws_writes s key = Some (Insert v)
                then ws_becomes (ws_uninsert_val key v s) (ws_open_sequence_number s) ((ws_writes s)(key := None)) (ws_locks s)
                else ws_uninsert_val key v s = None)
             \<and> (if ws_writes s key \<in> {Some (Put v r e) |r e. True}
                then ws_becomes (ws_unput_val key v s) (ws_open_sequence_number s) ((ws_writes s)(key := None)) (ws_locks s)
                else ws_unput_val key v s = None)
          else ws_insert_val key v s = None \<and> ws_put_val key v s = None \<and> ws_delete key s = None
             \<and> ws_uninsert_val key v s = None \<and> ws_unput_val key v s = None)
     \<and> ws_becomes (Some (ws_unmodifiable_lock_add key s)) (ws_open_sequence_number s) (ws_writes s) ((ws_locks s)(snd key \<mapsto> Unmodifiable))
     \<and> ws_becomes (Some (ws_unmodifiable_lock_remove key s)) (ws_open_sequence_number s) (ws_writes s) ((ws_locks s)(snd key := None))
     \<and> ws_becomes (Some (ws_exclusive_lock_add k s)) (ws_open_sequence_number s) (ws_writes s) ((ws_locks s)(k \<mapsto> Exclusive))
     \<and> ws_becomes (Some (ws_clear s)) (ws_open_sequence_number s) Map.empty Map.empty"
proof (cases "fst key < KEYSPACE_MAXIMUM_COUNT")
  case ks: True
  show ?thesis using ks ws_lock_ops[OF assms] ws_write_ops[OF assms ks] ws_unwrite_ops[OF assms ks, of v] by auto
next
  case False
  then show ?thesis
    using ws_modify_unknown[OF assms False] ws_lock_ops[OF assms]
    by (simp add: ws_insert_val_def ws_put_val_def ws_delete_def ws_uninsert_val_def ws_unput_val_def)
qed

definition example_snapshot :: write_snapshot where
  "example_snapshot = ws_new_with_operations 3 ob_new"

lemma example_snapshot_wf [simp]: "ws_wf example_snapshot" "ws_open_sequence_number example_snapshot = 3"
  by (simp_all add: ws_wf_def example_snapshot_def ws_new_with_operations_def)

theorem snapshot_writes_refine_witness:
  "ws_becomes (ws_insert_val (0, [7]) [1] example_snapshot) 3 ((ws_writes example_snapshot)((0, [7]) \<mapsto> Insert [1]))
     (ws_locks example_snapshot) \<and> ws_insert_val (12, [7]) [1] example_snapshot = None"
  using snapshot_writes_refine[OF example_snapshot_wf(1), of "(0, [7])" "[1]"]
    snapshot_writes_refine[OF example_snapshot_wf(1), of "(12, [7])" "[1]"]
  by (simp add: KEYSPACE_MAXIMUM_COUNT_def)

text \<open>C6: point reads of a writable snapshot return the pending value of the key, nothing when the pending write
  deletes it, and the committed value at the opening sequence number when there is no pending write;
  \<^verbatim>\<open>contains\<close> agrees with \<^verbatim>\<open>get\<close>; \<^verbatim>\<open>get_last_existing\<close> looks through pending deletions; \<^verbatim>\<open>get_required\<close> fails exactly when
  \<^verbatim>\<open>get\<close> finds nothing, and locks the key as unmodifiable exactly when the value came from the storage.\<close>

theorem snapshot_get_correct:
  assumes "storage_wf storage" and "ws_wf s" and "fst key < KEYSPACE_MAXIMUM_COUNT" and "get_ok storage key"
  shows "ws_get storage s key = Some (ws_view storage s key)
     \<and> ws_contains storage s key = Some (ws_view storage s key \<noteq> None)
     \<and> ws_get_last_existing storage s key =
         Some (if ws_writes s key = Some Delete then committed storage (ws_open_sequence_number s) key else ws_view storage s key)
     \<and> ws_get_required storage s key = Some
         (case ws_view storage s key of
            None \<Rightarrow> (Inl (ExpectedRequiredKeyToExist key), s)
          | Some v \<Rightarrow> (Inr v, if ws_writes s key = None then ws_unmodifiable_lock_add key s else s))"
proof -
  have get: "ws_get storage s key = Some (ws_view storage s key)" by (rule ws_get_spec[OF assms])
  have w: "ob_writes_in (fst key) (ws_operations s) = Some (ob_write_buffers (ws_operations s) ! fst key)"
    "wb_get (ob_write_buffers (ws_operations s) ! fst key) (snd key) = ws_writes s key"
    using assms(2,3) by (simp_all add: ob_writes_in_Some ws_wf_def ws_writes_def)
  have "ws_get_last_existing storage s key =
      Some (if ws_writes s key = Some Delete then committed storage (ws_open_sequence_number s) key else ws_view storage s key)"
    using storage_get_committed[OF assms(1,4)] ws_get_write_spec[OF assms(2,3)]
    by (auto simp: ws_get_last_existing_def ws_view_def view_def split: option.splits buffered_write.splits)
  moreover have "ws_get_required storage s key = Some
         (case ws_view storage s key of
            None \<Rightarrow> (Inl (ExpectedRequiredKeyToExist key), s)
          | Some v \<Rightarrow> (Inr v, if ws_writes s key = None then ws_unmodifiable_lock_add key s else s))"
    using w get unfolding ws_get_required_def
    by (auto simp: ws_view_def view_def ws_unmodifiable_lock_add_def split: option.splits buffered_write.splits)
  ultimately show ?thesis using get by (simp add: ws_contains_def)
qed

theorem snapshot_get_correct_witness:
  "ws_get example_storage example_snapshot (0, [1]) = Some (Some [20])"
proof -
  have "get_ok example_storage (0, [1])"
    unfolding get_ok_def by (auto simp: example_storage_keyspace) (auto simp: example_storage_def strict_prefix_def)
  moreover have "ws_writes example_snapshot (0, [1]) = None"
    by (simp add: ws_writes_def example_snapshot_def ws_new_with_operations_def ob_new_def KEYSPACE_MAXIMUM_COUNT_def)
  ultimately show ?thesis
    using snapshot_get_correct[of example_storage example_snapshot "(0, [1])"] example_read(1)
    by (simp add: ws_view_def view_def committed_def KEYSPACE_MAXIMUM_COUNT_def)
qed

text \<open>C4: a range scan of a writable snapshot ends and yields, in key order and each once, exactly the keys of
  the range that have a value in the snapshot, with that value: pending writes hide and extend the committed
  entries.  \<^verbatim>\<open>any_in_range\<close> says whether the scan is non-empty, and, restricted to the buffer, whether some pending
  write in the range is not a deletion.\<close>

theorem snapshot_scan_correct:
  assumes "storage_wf storage" and "range_ok storage rng" and "ws_wf s" and "scan_writes_ok s rng"
  shows "\<exists>it kvs fuel. ws_iterate_range storage s rng = Some it \<and> it_collect si_next fuel it = Some kvs \<and> bt_wf kvs
     \<and> (\<forall>key. bt_get kvs key =
          (if fst key = fst (start_value (kr_start rng)) \<and> range_contains (key_range_map snd id rng) (snd key)
           then ws_view storage s key else None))
     \<and> ws_any_in_range storage s rng False = Some (kvs \<noteq> [])
     \<and> ws_any_in_range storage s rng True = Some (\<exists>k w. range_contains (key_range_map snd id rng) k \<and>
           ws_writes s (fst (start_value (kr_start rng)), k) = Some w \<and> \<not> is_delete w)"
proof -
  let ?ks = "fst (start_value (kr_start rng))" and ?r = "key_range_map snd id rng"
  obtain it b where it: "ws_iterate_range storage s rng = Some it" "si_inv it"
    and wf: "bt_wf (si_rest it)" and coll: "it_collect si_next (Suc (length (si_rest it))) it = Some (si_rest it)"
    and rest: "\<And>key. bt_get (si_rest it) key = (if fst key = ?ks \<and> range_contains ?r (snd key) then ws_view storage s key else None)"
    and b: "bt_wf b" "wb_range ?r (ob_write_buffers (ws_operations s) ! ?ks) = Some b"
      "\<And>k. bt_get b k = (if range_contains ?r k then ws_writes s (?ks, k) else None)"
    using ws_scan_spec[OF assms] by blast
  let ?pending = "\<exists>k w. range_contains ?r k \<and> ws_writes s (?ks, k) = Some w \<and> \<not> is_delete w"
  have "list_ex (\<lambda>(_, w). \<not> is_delete w) b \<longleftrightarrow> (\<exists>k w. bt_get b k = Some w \<and> \<not> is_delete w)"
    using b(1) by (fastforce simp: list_ex_iff bt_get_eq_Some_iff)
  then have pend: "list_ex (\<lambda>(_, w). \<not> is_delete w) b \<longleftrightarrow> ?pending"
    unfolding b(3) by (metis option.distinct(1))
  have some: "?pending \<Longrightarrow> si_rest it \<noteq> []"
  proof (elim exE conjE)
    fix k w assume "range_contains ?r k" "ws_writes s (?ks, k) = Some w" "\<not> is_delete w"
    then have "bt_get (si_rest it) (?ks, k) \<noteq> None"
      by (simp add: rest ws_view_def view_def is_delete_get_value)
    then show ?thesis by auto
  qed
  obtain it' where nx: "si_next it = Some (case si_rest it of [] \<Rightarrow> None | x # _ \<Rightarrow> Some x, it')"
    using si.nextE[OF it(2)] by blast
  have ks: "ob_writes_in ?ks (ws_operations s) = Some (ob_write_buffers (ws_operations s) ! ?ks)"
    using assms(3,4) by (simp add: ob_writes_in_Some ws_wf_def scan_writes_ok_def)
  have "ws_any_in_range storage s rng False = Some (si_rest it \<noteq> [])"
    using it(1) b(2) ks pend some nx
    by (auto simp: ws_any_in_range_def wb_any_not_deleted_in_range_def split: list.splits)
  moreover have "ws_any_in_range storage s rng True = Some ?pending"
    using b(2) ks pend by (auto simp: ws_any_in_range_def wb_any_not_deleted_in_range_def)
  ultimately show ?thesis using it(1) wf rest coll by blast
qed

theorem snapshot_scan_correct_witness:
  "\<exists>it kvs fuel. ws_iterate_range example_storage example_snapshot (new_within (0, [1]) False) = Some it
     \<and> it_collect si_next fuel it = Some kvs \<and> bt_get kvs (0, [1]) = Some [20]"
proof -
  have rng: "range_ok example_storage (new_within (0, [1]) False)"
    by (auto simp: range_ok_def example_storage_keyspace new_within_def separates_def scannable_def)
      (auto simp: example_storage_def strict_prefix_def)
  have w: "wb_range (new_within [1] False) (wb_new 0) \<noteq> None"
    using wb_range_within_defined[of "[1]" False "wb_new 0"] by simp
  have buf: "ob_write_buffers (ws_operations example_snapshot) ! 0 = wb_new 0"
    by (simp add: example_snapshot_def ws_new_with_operations_def ob_new_def KEYSPACE_MAXIMUM_COUNT_def)
  have "scan_writes_ok example_snapshot (new_within (0, [1]) False)"
    using w unfolding scan_writes_ok_def 
    by (simp add: buf new_within_def key_range_map_def new_variable_width_def KEYSPACE_MAXIMUM_COUNT_def Let_def) (simp add: wb_new_def)
  note scan = snapshot_scan_correct[OF example_storage_wf rng example_snapshot_wf(1) this]
  have "ws_view example_storage example_snapshot (0, [1]) = Some [20]"
    using example_read(1) buf by (simp add: ws_view_def view_def committed_def ws_writes_def)
  moreover have "range_contains (key_range_map snd id (new_within (0, [1]) False)) [1]"
    "fst (start_value (kr_start (new_within (0::nat, [1]) False))) = 0"
    by (simp_all add: range_contains_def new_within_def)
  ultimately show ?thesis
    using scan by (elim exE conjE, intro exI conjI) (assumption | simp)+
qed

end
