(* ===== verification/Validation.thy ===== *)
theory Validation
  imports Buffer MvccKey
begin

text \<open>
  Commit records and the dependency of one commit on a concurrent predecessor, from
  \<^verbatim>\<open>src/storage/isolation_manager.rs\<close>: \<^verbatim>\<open>CommitRecord\<close>, \<^verbatim>\<open>compute_dependency\<close>, \<^verbatim>\<open>DependentPut\<close> and
  \<^verbatim>\<open>handle_dependency\<close>.  The shared flags \<^verbatim>\<open>Arc<AtomicBool>\<close> that a dependent put stores into are named by
  their place in the commit record (buffer index and key), and \<^verbatim>\<open>DependentPut::apply\<close> returns the commit
  record with that flag stored.
\<close>

section \<open>Commit records\<close>

datatype commit_type = Data | Schema

record commit_record =
  cr_operations :: operations_buffer
  cr_open_sequence_number :: seq
  cr_commit_type :: commit_type

definition commit_record_new :: "operations_buffer \<Rightarrow> seq \<Rightarrow> commit_type \<Rightarrow> commit_record" where
  "commit_record_new operations open_sequence_number commit_type =
     \<lparr> cr_operations = operations, cr_open_sequence_number = open_sequence_number, cr_commit_type = commit_type \<rparr>"

record status_record =
  sr_commit_record_sequence_number :: seq
  sr_was_committed :: bool

definition status_record_new :: "seq \<Rightarrow> bool \<Rightarrow> status_record" where
  "status_record_new sequence_number committed =
     \<lparr> sr_commit_record_sequence_number = sequence_number, sr_was_committed = committed \<rparr>"

datatype isolation_conflict = DeletingRequiredKey | RequireDeletedKey | ExclusiveLock

type_synonym put_address = "nat \<times> bytes"

datatype dependent_put = Deleted put_address | Inserted put_address

datatype commit_dependency =
    Independent
  | DependentPuts "dependent_put list"
  | Conflict isolation_conflict

section \<open>Dependency on a predecessor\<close>

text \<open>The match on a predecessor's write and this commit's write to the same key.\<close>

fun put_dependency :: "put_address \<Rightarrow> buffered_write \<Rightarrow> buffered_write \<Rightarrow> dependent_put list" where
  "put_dependency a (Insert _) (Put _ _ _) = [Inserted a]"
| "put_dependency a (Put _ _ _) (Put _ _ _) = [Inserted a]"
| "put_dependency a Delete (Put _ _ _) = [Deleted a]"
| "put_dependency a _ _ = []"

text \<open>The loop over the writes of one buffer, with the early return of a deleted key the predecessor
  requires.\<close>

fun dependency_writes ::
    "nat \<Rightarrow> (bytes, buffered_write) btree \<Rightarrow> (bytes, lock_type) btree \<Rightarrow>
     (bytes, buffered_write) btree \<Rightarrow> dependent_put list \<Rightarrow> isolation_conflict + dependent_put list" where
  "dependency_writes ks predecessor_writes predecessor_locks [] puts_to_update = Inr puts_to_update"
| "dependency_writes ks predecessor_writes predecessor_locks ((key, w) # writes) puts_to_update =
     (let puts_to_update' =
            (case bt_get predecessor_writes key of
               Some predecessor_write \<Rightarrow> puts_to_update @ put_dependency (ks, key) predecessor_write w
             | None \<Rightarrow> puts_to_update)
      in if w = Delete \<and> bt_get predecessor_locks key = Some Unmodifiable
         then Inl DeletingRequiredKey
         else dependency_writes ks predecessor_writes predecessor_locks writes puts_to_update')"

definition requires_deleted :: "(bytes, buffered_write) btree \<Rightarrow> (bytes, lock_type) btree \<Rightarrow> bool" where
  "requires_deleted predecessor_writes locks =
     list_ex (\<lambda>(key, lock). lock = Unmodifiable \<and> bt_get predecessor_writes key = Some Delete) locks"

text \<open>The outer loop, over the zipped buffers of the two commits.\<close>

fun dependency_buffers ::
    "nat \<Rightarrow> (bytes, lock_type) btree \<Rightarrow> (bytes, lock_type) btree \<Rightarrow> (write_buffer \<times> write_buffer) list \<Rightarrow>
     dependent_put list \<Rightarrow> isolation_conflict + dependent_put list" where
  "dependency_buffers ks locks predecessor_locks [] puts_to_update = Inr puts_to_update"
| "dependency_buffers ks locks predecessor_locks ((write_buffer, pred_write_buffer) # rest) puts_to_update =
     (case dependency_writes ks (wb_writes pred_write_buffer) predecessor_locks (wb_writes write_buffer) puts_to_update of
        Inl conflict \<Rightarrow> Inl conflict
      | Inr puts_to_update' \<Rightarrow>
          if requires_deleted (wb_writes pred_write_buffer) locks then Inl RequireDeletedKey
          else dependency_buffers (ks + 1) locks predecessor_locks rest puts_to_update')"

definition exclusive_clash :: "(bytes, lock_type) btree \<Rightarrow> (bytes, lock_type) btree \<Rightarrow> bool" where
  "exclusive_clash locks predecessor_locks =
     list_ex (\<lambda>(key, lock). lock = Exclusive \<and> bt_get predecessor_locks key = Some Exclusive) locks"

definition compute_dependency :: "commit_record \<Rightarrow> commit_record \<Rightarrow> commit_dependency" where
  "compute_dependency self predecessor =
     (let locks = ob_locks (cr_operations self);
          predecessor_locks = ob_locks (cr_operations predecessor)
      in case dependency_buffers 0 locks predecessor_locks
               (zip (ob_write_buffers (cr_operations self)) (ob_write_buffers (cr_operations predecessor))) [] of
           Inl conflict \<Rightarrow> Conflict conflict
         | Inr puts_to_update \<Rightarrow>
             if exclusive_clash locks predecessor_locks then Conflict ExclusiveLock
             else if puts_to_update = [] then Independent
             else DependentPuts puts_to_update)"

section \<open>Handling a dependency\<close>

text \<open>Storing into the flag of the put at an address: the key holds a put, since the address was taken
  from one.\<close>

fun set_reinsert :: "bool \<Rightarrow> buffered_write \<Rightarrow> buffered_write" where
  "set_reinsert b (Put v _ e) = Put v b e"
| "set_reinsert b w = w"

definition wb_set_reinsert :: "bytes \<Rightarrow> bool \<Rightarrow> write_buffer \<Rightarrow> write_buffer" where
  "wb_set_reinsert key b wb =
     wb\<lparr> wb_writes := map (\<lambda>(k, w). (k, if k = key then set_reinsert b w else w)) (wb_writes wb) \<rparr>"

definition store_reinsert :: "put_address \<Rightarrow> bool \<Rightarrow> commit_record \<Rightarrow> commit_record" where
  "store_reinsert a b r =
     (let ops = cr_operations r; bufs = ob_write_buffers ops in
      r\<lparr> cr_operations := ops\<lparr> ob_write_buffers := bufs[fst a := wb_set_reinsert (snd a) b (bufs ! fst a)] \<rparr> \<rparr>)"

fun dependent_put_apply :: "dependent_put \<Rightarrow> commit_record \<Rightarrow> commit_record" where
  "dependent_put_apply (Deleted a) r = store_reinsert a True r"
| "dependent_put_apply (Inserted a) r = store_reinsert a False r"

fun handle_dependency :: "commit_dependency \<Rightarrow> commit_record \<Rightarrow> isolation_conflict option \<times> commit_record" where
  "handle_dependency Independent r = (None, r)"
| "handle_dependency (DependentPuts puts) r = (None, fold dependent_put_apply puts r)"
| "handle_dependency (Conflict conflict) r = (Some conflict, r)"

section \<open>What a dependency means\<close>

definition cr_wf :: "commit_record \<Rightarrow> bool" where
  "cr_wf r = ob_wf (cr_operations r)"

definition cr_write :: "commit_record \<Rightarrow> nat \<Rightarrow> bytes \<Rightarrow> buffered_write option" where
  "cr_write r ks key =
     (if ks < length (ob_write_buffers (cr_operations r))
      then wb_get (ob_write_buffers (cr_operations r) ! ks) key else None)"

definition cr_lock :: "commit_record \<Rightarrow> bytes \<Rightarrow> lock_type option" where
  "cr_lock r key = bt_get (ob_locks (cr_operations r)) key"

text \<open>The isolation rule: a commit conflicts with a concurrent predecessor when it deletes a key the
  predecessor locked as unmodifiable, when it locked as unmodifiable a key the predecessor deletes, or
  when both locked the same key exclusively.\<close>

definition conflicts_with :: "commit_record \<Rightarrow> commit_record \<Rightarrow> bool" where
  "conflicts_with r p \<longleftrightarrow>
     (\<exists>ks key. cr_write r ks key = Some Delete \<and> cr_lock p key = Some Unmodifiable) \<or>
     (\<exists>ks key. cr_lock r key = Some Unmodifiable \<and> cr_write p ks key = Some Delete) \<or>
     (\<exists>key. cr_lock r key = Some Exclusive \<and> cr_lock p key = Some Exclusive)"

text \<open>What a predecessor's write to a key says about the flag of a put to that key.\<close>

fun reinsert_after :: "buffered_write option \<Rightarrow> bool \<Rightarrow> bool" where
  "reinsert_after None b = b"
| "reinsert_after (Some Delete) b = True"
| "reinsert_after (Some _) b = False"

fun write_after :: "buffered_write option \<Rightarrow> buffered_write \<Rightarrow> buffered_write" where
  "write_after pw (Put v b e) = Put v (reinsert_after pw b) e"
| "write_after pw w = w"


section \<open>The loops compute the rule\<close>

lemma put_dependency_in [simp]:
  "d \<in> set (put_dependency a pw w) \<longleftrightarrow>
     is_put w \<and> (if pw = Delete then d = Deleted a else d = Inserted a)"
  by (cases pw; cases w) auto

definition buffer_puts :: "nat \<Rightarrow> write_buffer \<Rightarrow> write_buffer \<Rightarrow> dependent_put list" where
  "buffer_puts ks wb pwb =
     concat (map (\<lambda>(key, w). case wb_get pwb key of Some pw \<Rightarrow> put_dependency (ks, key) pw w | None \<Rightarrow> []) (wb_writes wb))"

lemma dependency_writes_eq:
  "dependency_writes ks (wb_writes pwb) pl ws puts =
     (if \<exists>(key, w) \<in> set ws. w = Delete \<and> bt_get pl key = Some Unmodifiable then Inl DeletingRequiredKey
      else Inr (puts @ concat (map (\<lambda>(key, w).
             case wb_get pwb key of Some pw \<Rightarrow> put_dependency (ks, key) pw w | None \<Rightarrow> []) ws)))"
proof (induction ws arbitrary: puts)
  case (Cons e ws)
  obtain key w where e: "e = (key, w)" by (cases e)
  show ?case
  proof (cases "w = Delete \<and> bt_get pl key = Some Unmodifiable")
    case True
    then show ?thesis using e by simp
  next
    case False
    then show ?thesis using e Cons.IH by (cases "bt_get (wb_writes pwb) key") (auto simp: Let_def wb_get_def)
  qed
qed simp

definition buffer_conflicts ::
    "(bytes, lock_type) btree \<Rightarrow> (bytes, lock_type) btree \<Rightarrow> write_buffer \<Rightarrow> write_buffer \<Rightarrow> bool" where
  "buffer_conflicts locks pl wb pwb \<longleftrightarrow>
     (\<exists>(key, w) \<in> set (wb_writes wb). w = Delete \<and> bt_get pl key = Some Unmodifiable) \<or>
     requires_deleted (wb_writes pwb) locks"

lemma dependency_buffers_conflict:
  "(\<exists>c. dependency_buffers ks locks pl bs puts = Inl c) \<longleftrightarrow>
   (\<exists>b \<in> set bs. buffer_conflicts locks pl (fst b) (snd b))"
proof (induction bs arbitrary: ks puts)
  case (Cons b bs)
  obtain wb pwb where b: "b = (wb, pwb)" by (cases b)
  show ?case
    using Cons b by (auto simp: dependency_writes_eq buffer_conflicts_def split: if_splits)
qed simp

lemma dependency_buffers_puts:
  "dependency_buffers ks locks pl bs puts = Inr ps \<Longrightarrow>
   ps = puts @ concat (map (\<lambda>i. buffer_puts (ks + i) (fst (bs ! i)) (snd (bs ! i))) [0..<length bs])"
proof (induction bs arbitrary: ks puts)
  case (Cons b bs)
  obtain wb pwb where b: "b = (wb, pwb)" by (cases b)
  have "ps = (puts @ buffer_puts ks wb pwb) @
      concat (map (\<lambda>i. buffer_puts (ks + 1 + i) (fst (bs ! i)) (snd (bs ! i))) [0..<length bs])"
    using Cons.prems b
    by (intro Cons.IH) (auto simp: dependency_writes_eq buffer_puts_def split: if_splits)
  moreover have "[0..<length (b # bs)] = 0 # map Suc [0..<length bs]"
    by (simp add: map_Suc_upt upt_conv_Cons del: upt_Suc)
  ultimately show ?case using b by (simp add: comp_def del: upt_Suc)
qed simp

lemma cr_wf_length [simp]: "cr_wf r \<Longrightarrow> length (ob_write_buffers (cr_operations r)) = KEYSPACE_MAXIMUM_COUNT"
  by (simp add: cr_wf_def ob_wf_def)

lemma cr_write_in:
  assumes "cr_wf r" "ks < KEYSPACE_MAXIMUM_COUNT"
  shows "(key, w) \<in> set (wb_writes (ob_write_buffers (cr_operations r) ! ks)) \<longleftrightarrow> cr_write r ks key = Some w"
  using assms by (simp add: cr_wf_def ob_wf_def cr_write_def wb_get_def wb_wf_def bt_get_eq_Some_iff)

lemma cr_lock_in: "cr_wf r \<Longrightarrow> (key, l) \<in> set (ob_locks (cr_operations r)) \<longleftrightarrow> cr_lock r key = Some l"
  by (simp add: cr_wf_def ob_wf_def cr_lock_def bt_get_eq_Some_iff)

lemma exclusive_clash_iff:
  "cr_wf r \<Longrightarrow> exclusive_clash (ob_locks (cr_operations r)) (ob_locks (cr_operations p)) \<longleftrightarrow>
     (\<exists>key. cr_lock r key = Some Exclusive \<and> cr_lock p key = Some Exclusive)"
  using cr_lock_in[of r] by (auto simp: exclusive_clash_def list_ex_iff cr_lock_def)

lemma requires_deleted_iff:
  "cr_wf r \<Longrightarrow> cr_wf p \<Longrightarrow> ks < KEYSPACE_MAXIMUM_COUNT \<Longrightarrow>
   requires_deleted (wb_writes (ob_write_buffers (cr_operations p) ! ks)) (ob_locks (cr_operations r)) \<longleftrightarrow>
     (\<exists>key. cr_lock r key = Some Unmodifiable \<and> cr_write p ks key = Some Delete)"
  using cr_lock_in[of r] by (auto simp: requires_deleted_def list_ex_iff cr_write_def wb_get_def)

lemma cr_write_bound: "cr_wf r \<Longrightarrow> cr_write r ks key = Some w \<Longrightarrow> ks < KEYSPACE_MAXIMUM_COUNT"
  by (auto simp: cr_write_def split: if_splits)

lemma buffer_conflicts_iff:
  assumes "cr_wf r" "cr_wf p" "ks < KEYSPACE_MAXIMUM_COUNT"
  shows "buffer_conflicts (ob_locks (cr_operations r)) (ob_locks (cr_operations p))
       (ob_write_buffers (cr_operations r) ! ks) (ob_write_buffers (cr_operations p) ! ks) \<longleftrightarrow>
     (\<exists>key. cr_write r ks key = Some Delete \<and> cr_lock p key = Some Unmodifiable) \<or>
     (\<exists>key. cr_lock r key = Some Unmodifiable \<and> cr_write p ks key = Some Delete)"
proof -
  have "(\<exists>(key, w) \<in> set (wb_writes (ob_write_buffers (cr_operations r) ! ks)). w = Delete \<and>
      bt_get (ob_locks (cr_operations p)) key = Some Unmodifiable) \<longleftrightarrow>
    (\<exists>key. cr_write r ks key = Some Delete \<and> cr_lock p key = Some Unmodifiable)"
    using cr_write_in[OF assms(1,3)] by (auto simp: cr_lock_def)
  then show ?thesis by (simp add: buffer_conflicts_def requires_deleted_iff[OF assms])
qed

lemma compute_dependency_conflict_iff:
  assumes "cr_wf r" "cr_wf p"
  shows "(\<exists>c. compute_dependency r p = Conflict c) \<longleftrightarrow> conflicts_with r p"
proof -
  let ?L = "ob_locks (cr_operations r)" and ?PL = "ob_locks (cr_operations p)"
  let ?bs = "zip (ob_write_buffers (cr_operations r)) (ob_write_buffers (cr_operations p))"
  have "(\<exists>c. compute_dependency r p = Conflict c) \<longleftrightarrow>
      (\<exists>c. dependency_buffers 0 ?L ?PL ?bs [] = Inl c) \<or> exclusive_clash ?L ?PL"
    by (auto simp: compute_dependency_def Let_def split: sum.splits)
  also have "(\<exists>c. dependency_buffers 0 ?L ?PL ?bs [] = Inl c) \<longleftrightarrow>
      (\<exists>ks < KEYSPACE_MAXIMUM_COUNT.
        (\<exists>key. cr_write r ks key = Some Delete \<and> cr_lock p key = Some Unmodifiable) \<or>
        (\<exists>key. cr_lock r key = Some Unmodifiable \<and> cr_write p ks key = Some Delete))"
    unfolding dependency_buffers_conflict set_zip
    using assms buffer_conflicts_iff[OF assms] by fastforce
  finally show ?thesis
    unfolding conflicts_with_def exclusive_clash_iff[OF assms(1)]
    using cr_write_bound[OF assms(1)] cr_write_bound[OF assms(2)] by blast
qed

section \<open>Flags after a dependency\<close>

fun put_addr :: "dependent_put \<Rightarrow> put_address" where
  "put_addr (Deleted a) = a"
| "put_addr (Inserted a) = a"

fun put_flag :: "dependent_put \<Rightarrow> bool" where
  "put_flag (Deleted a) = True"
| "put_flag (Inserted a) = False"

lemma dependent_put_apply_store: "dependent_put_apply d r = store_reinsert (put_addr d) (put_flag d) r"
  by (cases d) auto

lemma set_reinsert_idem [simp]: "set_reinsert b (set_reinsert c w) = set_reinsert b w"
  by (cases w) auto

lemma bt_get_map_value:
  "bt_get (map (\<lambda>(k, w). (k, f k w)) m) key = map_option (f key) (bt_get m key)"
  by (induction m) (auto simp: btree_simps)

lemma wb_get_set_reinsert [simp]:
  "wb_get (wb_set_reinsert key b wb) k = map_option (\<lambda>w. if k = key then set_reinsert b w else w) (wb_get wb k)"
  using bt_get_map_value[of "\<lambda>k w. if k = key then set_reinsert b w else w"]
  by (simp add: wb_get_def wb_set_reinsert_def)

lemma cr_write_store_reinsert:
  "cr_write (store_reinsert a b r) ks key =
     (if (ks, key) = a then map_option (set_reinsert b) (cr_write r ks key) else cr_write r ks key)"
proof (cases "fst a = ks")
  case True
  then show ?thesis
    by (cases a) (auto simp: cr_write_def store_reinsert_def Let_def option.map_ident)
next
  case False
  then show ?thesis by (auto simp: cr_write_def store_reinsert_def Let_def)
qed

lemma cr_write_apply:
  "cr_write (dependent_put_apply d r) ks key =
     (if (ks, key) = put_addr d then map_option (set_reinsert (put_flag d)) (cr_write r ks key)
      else cr_write r ks key)"
  by (simp add: dependent_put_apply_store cr_write_store_reinsert)

lemma store_reinsert_fields [simp]:
  "cr_open_sequence_number (store_reinsert a b r) = cr_open_sequence_number r"
  "cr_commit_type (store_reinsert a b r) = cr_commit_type r"
  "cr_lock (store_reinsert a b r) = cr_lock r"
  by (auto simp: store_reinsert_def Let_def cr_lock_def)

lemma wb_wf_set_reinsert [simp]: "wb_wf wb \<Longrightarrow> wb_wf (wb_set_reinsert key b wb)"
  by (simp add: wb_wf_def wb_set_reinsert_def bt_wf_def comp_def case_prod_unfold)

lemma cr_wf_store_reinsert [simp]: "cr_wf r \<Longrightarrow> cr_wf (store_reinsert a b r)"
proof (cases "fst a < KEYSPACE_MAXIMUM_COUNT")
  case True
  then show "cr_wf r \<Longrightarrow> ?thesis"
    by (auto simp: cr_wf_def ob_wf_def store_reinsert_def Let_def nth_list_update) (simp add: wb_set_reinsert_def)
next
  case False
  then show "cr_wf r \<Longrightarrow> ?thesis"
    by (auto simp: cr_wf_def ob_wf_def store_reinsert_def Let_def list_update_beyond)
qed

lemma fold_apply_fields [simp]:
  "cr_open_sequence_number (fold dependent_put_apply puts r) = cr_open_sequence_number r"
  "cr_commit_type (fold dependent_put_apply puts r) = cr_commit_type r"
  "cr_lock (fold dependent_put_apply puts r) = cr_lock r"
  "cr_wf r \<Longrightarrow> cr_wf (fold dependent_put_apply puts r)"
  by (induction puts arbitrary: r) (auto simp: dependent_put_apply_store)

lemma cr_write_fold_apply:
  assumes "\<And>d. d \<in> set puts \<Longrightarrow> put_addr d = (ks, key) \<Longrightarrow> put_flag d = f"
  shows "cr_write (fold dependent_put_apply puts r) ks key =
     (if \<exists>d \<in> set puts. put_addr d = (ks, key) then map_option (set_reinsert f) (cr_write r ks key)
      else cr_write r ks key)"
  using assms
proof (induction puts arbitrary: r)
  case (Cons d puts)
  have "cr_write (fold dependent_put_apply puts (dependent_put_apply d r)) ks key =
     (if \<exists>d \<in> set puts. put_addr d = (ks, key)
      then map_option (set_reinsert f) (cr_write (dependent_put_apply d r) ks key)
      else cr_write (dependent_put_apply d r) ks key)"
    using Cons.prems by (intro Cons.IH) auto
  then show ?case
    using Cons.prems[of d] by (auto simp: cr_write_apply option.map_comp comp_def)
qed simp

lemma compute_dependency_puts:
  assumes "cr_wf r" "cr_wf p" "compute_dependency r p = DependentPuts puts \<or> compute_dependency r p = Independent \<and> puts = []"
  shows "d \<in> set puts \<longleftrightarrow> (\<exists>ks key w pw. cr_write r ks key = Some w \<and> is_put w \<and> cr_write p ks key = Some pw \<and>
      d = (if pw = Delete then Deleted (ks, key) else Inserted (ks, key)))"
proof -
  let ?bs = "zip (ob_write_buffers (cr_operations r)) (ob_write_buffers (cr_operations p))"
  let ?r = "\<lambda>i. ob_write_buffers (cr_operations r) ! i" and ?p = "\<lambda>i. ob_write_buffers (cr_operations p) ! i"
  have "dependency_buffers 0 (ob_locks (cr_operations r)) (ob_locks (cr_operations p)) ?bs [] = Inr puts"
    using assms(3) by (auto simp: compute_dependency_def Let_def split: sum.splits if_splits)
  then have puts: "puts = concat (map (\<lambda>i. buffer_puts i (?r i) (?p i)) [0..<KEYSPACE_MAXIMUM_COUNT])"
    using dependency_buffers_puts assms(1,2) by (fastforce intro!: arg_cong[of _ _ concat])
  have in_buffer: "d \<in> set (buffer_puts i (?r i) (?p i)) \<longleftrightarrow>
      (\<exists>key w pw. cr_write r i key = Some w \<and> is_put w \<and> cr_write p i key = Some pw \<and>
        d = (if pw = Delete then Deleted (i, key) else Inserted (i, key)))"
    if i: "i < KEYSPACE_MAXIMUM_COUNT" for i
  proof -
    have "wb_get (?p i) = cr_write p i"
      using i assms(2) by (auto simp: cr_write_def)
    then show ?thesis
      using cr_write_in[OF assms(1) i] by (force simp: buffer_puts_def split: option.splits)
  qed
  have "d \<in> set puts \<longleftrightarrow> (\<exists>i < KEYSPACE_MAXIMUM_COUNT. d \<in> set (buffer_puts i (?r i) (?p i)))"
    unfolding puts by auto
  also have "\<dots> \<longleftrightarrow> (\<exists>i < KEYSPACE_MAXIMUM_COUNT. \<exists>key w pw. cr_write r i key = Some w \<and> is_put w \<and>
      cr_write p i key = Some pw \<and> d = (if pw = Delete then Deleted (i, key) else Inserted (i, key)))"
    using in_buffer by (simp cong: conj_cong)
  finally show ?thesis
    using cr_write_bound[OF assms(1)] by blast
qed

lemma put_write_after:
  "write_after None w = w"
  "\<not> is_put w \<Longrightarrow> write_after pw w = w"
  "write_after (Some pw') w = set_reinsert (pw' = Delete) w"
  by (cases w; cases pw'; simp)+

lemma set_reinsert_not_put: "\<not> is_put w \<Longrightarrow> set_reinsert b w = w"
  by (cases w) auto

lemma handle_compute_dependency:
  assumes "cr_wf r" "cr_wf p" "\<not> conflicts_with r p"
  defines "r' \<equiv> snd (handle_dependency (compute_dependency r p) r)"
  shows "fst (handle_dependency (compute_dependency r p) r) = None" (is ?A)
    and "cr_write r' ks key = map_option (write_after (cr_write p ks key)) (cr_write r ks key)" (is ?B)
    and "cr_wf r'" "cr_lock r' = cr_lock r" "cr_open_sequence_number r' = cr_open_sequence_number r"
      "cr_commit_type r' = cr_commit_type r"
proof -
  have nc: "compute_dependency r p \<noteq> Conflict c" for c
    using compute_dependency_conflict_iff[OF assms(1,2)] assms(3) by auto
  then obtain puts where puts: "compute_dependency r p = DependentPuts puts \<or> compute_dependency r p = Independent \<and> puts = []"
    by (cases "compute_dependency r p") auto
  then have r': "r' = fold dependent_put_apply puts r"
    by (auto simp: r'_def)
  show ?A using puts by auto
  show "cr_wf r'" "cr_lock r' = cr_lock r" "cr_open_sequence_number r' = cr_open_sequence_number r"
      "cr_commit_type r' = cr_commit_type r"
    using assms(1) by (simp_all add: r')
  note d = compute_dependency_puts[OF assms(1,2) puts]
  let ?pw = "cr_write p ks key"
  have "cr_write r' ks key =
    (if \<exists>d \<in> set puts. put_addr d = (ks, key) then map_option (set_reinsert (?pw = Some Delete)) (cr_write r ks key)
     else cr_write r ks key)"
    unfolding r' by (rule cr_write_fold_apply) (auto simp: d split: if_splits)
  also have "(\<exists>d \<in> set puts. put_addr d = (ks, key)) \<longleftrightarrow>
      (\<exists>w pw. cr_write r ks key = Some w \<and> is_put w \<and> ?pw = Some pw)"
  proof
    assume "\<exists>d \<in> set puts. put_addr d = (ks, key)"
    then show "\<exists>w pw. cr_write r ks key = Some w \<and> is_put w \<and> ?pw = Some pw"
      unfolding Bex_def d by (auto split: if_splits)
  next
    assume "\<exists>w pw. cr_write r ks key = Some w \<and> is_put w \<and> ?pw = Some pw"
    then obtain w pw where "cr_write r ks key = Some w" "is_put w" "?pw = Some pw" by blast
    then have "(if pw = Delete then Deleted (ks, key) else Inserted (ks, key)) \<in> set puts"
      using d by blast
    moreover have "put_addr (if pw = Delete then Deleted (ks, key) else Inserted (ks, key)) = (ks, key)" by simp
    ultimately show "\<exists>d \<in> set puts. put_addr d = (ks, key)" by blast
  qed
  finally show ?B
    by (cases "cr_write r ks key"; cases ?pw) (auto simp: put_write_after set_reinsert_not_put)
qed

lemma handle_compute_dependency_conflict:
  assumes "cr_wf r" "cr_wf p" "conflicts_with r p"
  shows "\<exists>c. fst (handle_dependency (compute_dependency r p) r) = Some c"
  using compute_dependency_conflict_iff[OF assms(1,2)] assms(3) by auto

lemma conflicts_with_sym: "conflicts_with r p \<longleftrightarrow> conflicts_with p r"
  unfolding conflicts_with_def by blast

lemma fst_handle_None_iff:
  assumes "cr_wf r" "cr_wf p"
  shows "fst (handle_dependency (compute_dependency r p) r) = None \<longleftrightarrow> \<not> conflicts_with r p"
  using handle_compute_dependency(1)[OF assms] handle_compute_dependency_conflict[OF assms] by auto

text \<open>Conflicts do not depend on the flags of puts, so handling the predecessors one by one never changes
  what conflicts with what.\<close>

lemma conflicts_with_same_writes:
  assumes "\<And>ks key. (cr_write r ks key = Some Delete) = (cr_write r' ks key = Some Delete)" "cr_lock r = cr_lock r'"
  shows "conflicts_with r p \<longleftrightarrow> conflicts_with r' p"
  using assms by (simp add: conflicts_with_def)

lemma write_after_Delete [simp]: "write_after pw w = Delete \<longleftrightarrow> w = Delete"
  by (cases w) auto

section \<open>Properties\<close>

text \<open>C9: the dependency of a commit on a concurrent predecessor.  It is a conflict exactly when the
  isolation rule says so (deleting a key the other locked unmodifiable, in either direction, or locking the
  same key exclusively); otherwise every put of the commit has its reinsert flag set when the predecessor
  deletes the key, cleared when the predecessor writes it, and unchanged when it does not touch it, and no
  other write, lock or field of the commit changes.\<close>

theorem compute_dependency_correct:
  assumes "cr_wf r" and "cr_wf p"
  shows "((\<exists>c. compute_dependency r p = Conflict c) \<longleftrightarrow> conflicts_with r p) \<and>
    (\<not> conflicts_with r p \<longrightarrow>
       (\<forall>ks key. cr_write (snd (handle_dependency (compute_dependency r p) r)) ks key =
          map_option (write_after (cr_write p ks key)) (cr_write r ks key)) \<and>
       cr_lock (snd (handle_dependency (compute_dependency r p) r)) = cr_lock r)"
  using compute_dependency_conflict_iff[OF assms] handle_compute_dependency[OF assms] by auto

definition example_put :: commit_record where
  "example_put = commit_record_new
     (ob_new\<lparr> ob_write_buffers := (ob_write_buffers ob_new)[2 := wb_put [1] [5] (wb_new 2)] \<rparr>) 0 Data"

definition example_delete :: commit_record where
  "example_delete = commit_record_new
     (ob_new\<lparr> ob_write_buffers := (ob_write_buffers ob_new)[2 := wb_delete [1] (wb_new 2)] \<rparr>) 0 Data"

lemma example_records_wf: "cr_wf example_put" "cr_wf example_delete"
  unfolding cr_wf_def example_put_def example_delete_def commit_record_new_def
  using ob_wf_new by (auto simp: ob_wf_def nth_list_update KEYSPACE_MAXIMUM_COUNT_def)

theorem compute_dependency_correct_witness:
  "\<not> conflicts_with example_put example_delete \<and>
   cr_write (snd (handle_dependency (compute_dependency example_put example_delete) example_put)) 2 [1] =
     Some (Put [5] True False)"
proof -
  have l: "cr_lock example_put = (\<lambda>_. None)" "cr_lock example_delete = (\<lambda>_. None)"
    by (auto simp: cr_lock_def example_put_def example_delete_def commit_record_new_def ob_new_def)
  then have nc: "\<not> conflicts_with example_put example_delete" by (simp add: conflicts_with_def)
  have "cr_write example_put 2 [1] = Some (Put [5] False False)" "cr_write example_delete 2 [1] = Some Delete"
    by (simp_all add: cr_write_def example_put_def example_delete_def commit_record_new_def ob_new_def
        KEYSPACE_MAXIMUM_COUNT_def)
  then show ?thesis
    using compute_dependency_correct[OF example_records_wf] nc by simp
qed

end
