(* ===== verification/Timeline.thy ===== *)
theory Timeline
  imports Validation
begin

text \<open>
  The timeline of commit slots, from \<^verbatim>\<open>src/storage/isolation_manager.rs\<close>: \<^verbatim>\<open>SlotMarker\<close>, \<^verbatim>\<open>CommitStatus\<close>,
  \<^verbatim>\<open>TimelineWindow\<close> and \<^verbatim>\<open>Timeline\<close>.  The windows of the deque are shared behind \<^verbatim>\<open>Arc\<close>s in the source;
  here the timeline owns them and an \<^verbatim>\<open>Arc\<close> is the index of its window, so writing through it is writing the
  window at that index.  None is a panic (an index out of bounds, an underflow, an \<^verbatim>\<open>unwrap\<close> of nothing).
  \<open>tl_status\<close> is the abstraction of the deque of windows to one sequence of slots.
\<close>

section \<open>Slots and windows\<close>

definition TIMELINE_WINDOW_SIZE :: nat where "TIMELINE_WINDOW_SIZE = 100"

datatype slot_marker = SlotEmpty | SlotPending | SlotValidated | SlotApplied | SlotAborted

fun as_u8 :: "slot_marker \<Rightarrow> byte" where
  "as_u8 SlotEmpty = 0"
| "as_u8 SlotPending = 1"
| "as_u8 SlotValidated = 2"
| "as_u8 SlotApplied = 3"
| "as_u8 SlotAborted = 4"

definition slot_marker_from :: "byte \<Rightarrow> slot_marker option" where
  "slot_marker_from value =
     (if value = 0 then Some SlotEmpty
      else if value = 1 then Some SlotPending
      else if value = 2 then Some SlotValidated
      else if value = 3 then Some SlotApplied
      else if value = 4 then Some SlotAborted
      else None)"

datatype commit_status =
    Empty
  | Pending commit_record
  | Validated commit_record
  | Applied commit_record
  | Aborted

record timeline_window =
  tw_start :: seq
  tw_slot_status :: "byte list"
  tw_commit_records :: "commit_record option list"
  tw_readers :: nat

definition window_new :: "seq \<Rightarrow> timeline_window" where
  "window_new start =
     \<lparr> tw_start = start, tw_slot_status = replicate TIMELINE_WINDOW_SIZE 0,
       tw_commit_records = replicate TIMELINE_WINDOW_SIZE None, tw_readers = 0 \<rparr>"

definition window_end :: "timeline_window \<Rightarrow> seq" where
  "window_end w = tw_start w + TIMELINE_WINDOW_SIZE"

text \<open>\<^verbatim>\<open>let index = sequence_number - self.start\<close> followed by an access to the arrays at \<^verbatim>\<open>index\<close>.\<close>

definition window_index :: "timeline_window \<Rightarrow> seq \<Rightarrow> nat option" where
  "window_index w n = do {
     index \<leftarrow> seq_minus n (tw_start w);
     if index < length (tw_slot_status w) \<and> index < length (tw_commit_records w) then Some index else None }"

definition insert_pending :: "seq \<Rightarrow> commit_record \<Rightarrow> timeline_window \<Rightarrow> timeline_window option" where
  "insert_pending n commit_record w = do {
     index \<leftarrow> window_index w n;
     if tw_commit_records w ! index = None
     then Some (w\<lparr> tw_commit_records := (tw_commit_records w)[index := Some commit_record],
                  tw_slot_status := (tw_slot_status w)[index := as_u8 SlotPending] \<rparr>)
     else None }"

definition store_slot :: "slot_marker \<Rightarrow> seq \<Rightarrow> timeline_window \<Rightarrow> timeline_window option" where
  "store_slot m n w = do {
     index \<leftarrow> window_index w n;
     Some (w\<lparr> tw_slot_status := (tw_slot_status w)[index := as_u8 m] \<rparr>) }"

definition set_validated :: "seq \<Rightarrow> timeline_window \<Rightarrow> timeline_window option" where
  "set_validated n w = store_slot SlotValidated n w"

definition set_aborted :: "seq \<Rightarrow> timeline_window \<Rightarrow> timeline_window option" where
  "set_aborted n w = store_slot SlotAborted n w"

definition set_applied :: "seq \<Rightarrow> timeline_window \<Rightarrow> timeline_window option" where
  "set_applied n w = store_slot SlotApplied n w"

definition get_status :: "timeline_window \<Rightarrow> seq \<Rightarrow> commit_status option" where
  "get_status w n = do {
     index \<leftarrow> window_index w n;
     status \<leftarrow> slot_marker_from (tw_slot_status w ! index);
     if status = SlotEmpty then Some Empty
     else do {
       record' \<leftarrow> tw_commit_records w ! index;
       Some (case status of
           SlotEmpty \<Rightarrow> Empty
         | SlotPending \<Rightarrow> Pending record'
         | SlotValidated \<Rightarrow> Validated record'
         | SlotApplied \<Rightarrow> Applied record'
         | SlotAborted \<Rightarrow> Aborted) } }"

text \<open>One look of the loop that waits for a pending commit: None while the commit is still pending (the
  loop spins) and on the illegal empty slot.\<close>

definition await_pending_status_commits :: "timeline_window \<Rightarrow> seq \<Rightarrow> bool option" where
  "await_pending_status_commits w n = do {
     status \<leftarrow> get_status w n;
     (case status of
        Empty \<Rightarrow> None
      | Pending _ \<Rightarrow> None
      | Validated _ \<Rightarrow> Some True
      | Applied _ \<Rightarrow> Some True
      | Aborted \<Rightarrow> Some False) }"

definition increment_readers :: "timeline_window \<Rightarrow> timeline_window" where
  "increment_readers w = w\<lparr> tw_readers := tw_readers w + 1 \<rparr>"

definition decrement_readers :: "timeline_window \<Rightarrow> (nat \<times> timeline_window) option" where
  "decrement_readers w =
     (if tw_readers w = 0 then None else Some (tw_readers w - 1, w\<lparr> tw_readers := tw_readers w - 1 \<rparr>))"

section \<open>The timeline\<close>

record timeline =
  tl_windows :: "timeline_window list"
  tl_watermark :: seq

definition timeline_new :: "seq \<Rightarrow> timeline option" where
  "timeline_new next_sequence_number = do {
     watermark \<leftarrow> seq_minus next_sequence_number 1;
     Some \<lparr> tl_windows = [window_new next_sequence_number], tl_watermark = watermark \<rparr> }"

definition timeline_new_with_watermark :: "seq \<Rightarrow> seq \<Rightarrow> timeline" where
  "timeline_new_with_watermark watermark next_sequence_number =
     \<lparr> tl_windows = [window_new next_sequence_number], tl_watermark = watermark \<rparr>"

text \<open>The popping loop unwraps the front of the deque, which panics on an empty one.\<close>

fun free_windows :: "seq \<Rightarrow> timeline_window list \<Rightarrow> timeline_window list option" where
  "free_windows watermark [] = None"
| "free_windows watermark (w # ws) =
     (if window_end w \<le> watermark \<and> tw_readers w = 0 then free_windows watermark ws else Some (w # ws))"

definition may_free_windows :: "timeline \<Rightarrow> timeline option" where
  "may_free_windows t =
     (let watermark = tl_watermark t;
          can_free_some = (case tl_windows t of
              [] \<Rightarrow> False | f # _ \<Rightarrow> tw_readers f = 0 \<and> window_end f \<le> watermark)
      in if can_free_some
         then map_option (\<lambda>ws. t\<lparr> tl_windows := ws \<rparr>) (free_windows watermark (tl_windows t))
         else Some t)"

text \<open>The outer option is the panic on an empty deque, the inner one the result.\<close>

definition resolve_window :: "timeline_window list \<Rightarrow> seq \<Rightarrow> nat option option" where
  "resolve_window windows to_resolve =
     (case windows of
        [] \<Rightarrow> None
      | front # _ \<Rightarrow>
          let start = tw_start front; end' = window_end (last windows) in
          Some (if start \<le> to_resolve \<and> to_resolve < end'
                then Some ((to_resolve - start) div TIMELINE_WINDOW_SIZE) else None))"

definition try_get_window :: "timeline \<Rightarrow> seq \<Rightarrow> nat option option" where
  "try_get_window t n = do {
     window_index \<leftarrow> resolve_window (tl_windows t) n;
     (case window_index of
        None \<Rightarrow> Some None
      | Some i \<Rightarrow> if i < length (tl_windows t) then Some (Some i) else None) }"

definition update_window ::
    "nat \<Rightarrow> (timeline_window \<Rightarrow> timeline_window option) \<Rightarrow> timeline \<Rightarrow> timeline option" where
  "update_window i f t = do {
     w \<leftarrow> f (tl_windows t ! i);
     Some (t\<lparr> tl_windows := (tl_windows t)[i := w] \<rparr>) }"

function create_windows :: "timeline_window list \<Rightarrow> seq \<Rightarrow> timeline_window list option" where
  "create_windows windows n =
     (if windows = [] then None
      else let end' = window_end (last windows) in
           if end' \<le> n then create_windows (windows @ [window_new end']) n else Some windows)"
  by auto
termination
  by (relation "measure (\<lambda>(ws, n). Suc n - window_end (last ws))")
     (auto simp: window_end_def window_new_def TIMELINE_WINDOW_SIZE_def)

declare create_windows.simps [simp del]

definition create_windows_to :: "seq \<Rightarrow> timeline \<Rightarrow> timeline option" where
  "create_windows_to n t = map_option (\<lambda>ws. t\<lparr> tl_windows := ws \<rparr>) (create_windows (tl_windows t) n)"

definition get_or_create_window :: "seq \<Rightarrow> timeline \<Rightarrow> (timeline \<times> nat) option" where
  "get_or_create_window n t =
     (if tl_windows t = [] then None
      else do {
        let end' = window_end (last (tl_windows t));
        t' \<leftarrow> (if end' \<le> n then create_windows_to n t else Some t);
        window \<leftarrow> try_get_window t' n;
        i \<leftarrow> window;
        Some (t', i) })"

section \<open>The watermark\<close>

fun is_final :: "commit_status \<Rightarrow> bool" where
  "is_final Aborted = True"
| "is_final (Applied _) = True"
| "is_final _ = False"

text \<open>The loop of \<^verbatim>\<open>may_increment_watermark\<close>; the window it holds is an index that is looked up again at
  the end of each window.  The exchange compares the watermark with the candidate's predecessor.\<close>

lemma window_index_bound: "window_index w n = Some i \<Longrightarrow> tw_start w \<le> n \<and> n < tw_start w + length (tw_slot_status w)"
  by (auto simp: window_index_def seq_minus_def bind_eq_Some_conv split: if_splits)

lemma get_status_bound: "get_status w n = Some s \<Longrightarrow> n < tw_start w + length (tw_slot_status w)"
  by (auto simp: get_status_def bind_eq_Some_conv dest!: window_index_bound)

definition slots_bound :: "timeline_window list \<Rightarrow> nat" where
  "slots_bound ws = fold max (map (\<lambda>w. tw_start w + length (tw_slot_status w)) ws) 0"

lemma slots_bound_ge:
  assumes "i < length ws"
  shows "tw_start (ws ! i) + length (tw_slot_status (ws ! i)) \<le> slots_bound ws"
proof -
  have "fold max xs (m::nat) \<ge> m \<and> (\<forall>x\<in>set xs. x \<le> fold max xs m)" for xs m
  proof (induction xs arbitrary: m)
    case (Cons a xs)
    have "max a m \<le> fold max xs (max a m)" "\<forall>x\<in>set xs. x \<le> fold max xs (max a m)"
      using Cons.IH by blast+
    then show ?case by simp
  qed simp
  then show ?thesis using assms by (simp add: slots_bound_def)
qed

function watermark_loop :: "timeline \<Rightarrow> seq \<Rightarrow> nat option \<Rightarrow> (timeline \<times> seq) option" where
  "watermark_loop t candidate window =
     (case window of
        None \<Rightarrow> Some (t, candidate)
      | Some i \<Rightarrow>
          if i < length (tl_windows t) then
            (case get_status (tl_windows t ! i) candidate of
               None \<Rightarrow> None
             | Some status \<Rightarrow>
                 if is_final status \<and> tl_watermark t + 1 = candidate then
                   let t' = t\<lparr> tl_watermark := candidate \<rparr>; candidate' = candidate + 1 in
                   if window_end (tl_windows t ! i) \<le> candidate'
                   then (case try_get_window t' candidate' of
                           None \<Rightarrow> None
                         | Some window' \<Rightarrow> watermark_loop t' candidate' window')
                   else watermark_loop t' candidate' window
                 else Some (t, candidate))
          else None)"
  by auto
termination
  by (relation "measure (\<lambda>(t, candidate, window). slots_bound (tl_windows t) - candidate)")
     (auto dest!: get_status_bound slots_bound_ge)

declare watermark_loop.simps [simp del]

definition may_increment_watermark :: "seq \<Rightarrow> timeline \<Rightarrow> timeline option" where
  "may_increment_watermark n t = do {
     previous \<leftarrow> seq_minus n 1;
     if tl_watermark t \<noteq> previous then Some t
     else do {
       window \<leftarrow> try_get_window t n;
       (t', candidate_watermark) \<leftarrow> watermark_loop t n window;
       watermark \<leftarrow> seq_minus candidate_watermark 1;
       window' \<leftarrow> try_get_window t' previous;
       (case window' of
          None \<Rightarrow> Some t'
        | Some i \<Rightarrow>
            if window_end (tl_windows t' ! i) \<le> watermark then may_free_windows t' else Some t') } }"

definition record_reader :: "seq \<Rightarrow> timeline \<Rightarrow> timeline option" where
  "record_reader n t = do {
     window \<leftarrow> try_get_window t n;
     (case window of
        None \<Rightarrow> Some t
      | Some i \<Rightarrow> update_window i (\<lambda>w. Some (increment_readers w)) t) }"

definition remove_reader :: "seq \<Rightarrow> timeline \<Rightarrow> timeline option" where
  "remove_reader n t = do {
     window \<leftarrow> try_get_window t n;
     (case window of
        None \<Rightarrow> Some t
      | Some i \<Rightarrow> do {
          (readers, w) \<leftarrow> decrement_readers (tl_windows t ! i);
          let t' = t\<lparr> tl_windows := (tl_windows t)[i := w] \<rparr>;
          if readers = 0 then may_free_windows t' else Some t' }) }"

definition collect_concurrent_windows :: "seq \<Rightarrow> seq \<Rightarrow> timeline \<Rightarrow> (timeline_window list \<times> seq) option" where
  "collect_concurrent_windows open_sequence_number commit_sequence_number t = do {
     let windows = tl_windows t;
     first \<leftarrow> resolve_window windows (seq_next open_sequence_number);
     let first_concurrent_window_index = (case first of Some i \<Rightarrow> i | None \<Rightarrow> 0);
     previous \<leftarrow> seq_previous commit_sequence_number;
     last' \<leftarrow> resolve_window windows previous;
     let last_concurrent_window_index = (case last' of Some i \<Rightarrow> i | None \<Rightarrow> 0);
     if last_concurrent_window_index < length windows \<and> first_concurrent_window_index < length windows
     then Some (map (\<lambda>i. windows ! i) [first_concurrent_window_index..<Suc last_concurrent_window_index],
                tw_start (windows ! first_concurrent_window_index))
     else None }"


section \<open>Invariants of windows\<close>

text \<open>A slot is empty exactly when no commit record was stored for it.\<close>

definition window_wf :: "timeline_window \<Rightarrow> bool" where
  "window_wf w \<longleftrightarrow> length (tw_slot_status w) = TIMELINE_WINDOW_SIZE \<and>
     length (tw_commit_records w) = TIMELINE_WINDOW_SIZE \<and>
     (\<forall>i < TIMELINE_WINDOW_SIZE. \<exists>m. tw_slot_status w ! i = as_u8 m \<and>
        (m = SlotEmpty \<longleftrightarrow> tw_commit_records w ! i = None))"

definition in_window :: "timeline_window \<Rightarrow> seq \<Rightarrow> bool" where
  "in_window w n \<longleftrightarrow> tw_start w \<le> n \<and> n < window_end w"

fun status_marker :: "commit_status \<Rightarrow> slot_marker" where
  "status_marker Empty = SlotEmpty"
| "status_marker (Pending _) = SlotPending"
| "status_marker (Validated _) = SlotValidated"
| "status_marker (Applied _) = SlotApplied"
| "status_marker Aborted = SlotAborted"

fun mark_status :: "slot_marker \<Rightarrow> commit_record \<Rightarrow> commit_status" where
  "mark_status SlotEmpty r = Empty"
| "mark_status SlotPending r = Pending r"
| "mark_status SlotValidated r = Validated r"
| "mark_status SlotApplied r = Applied r"
| "mark_status SlotAborted r = Aborted"

lemma slot_marker_from_as_u8 [simp]: "slot_marker_from (as_u8 m) = Some m"
  by (cases m) (auto simp: slot_marker_from_def)

declare as_u8.simps [simp del]

lemma TIMELINE_WINDOW_SIZE_pos [simp]: "0 < TIMELINE_WINDOW_SIZE"
  by (simp add: TIMELINE_WINDOW_SIZE_def)

lemma window_wf_new [simp]: "window_wf (window_new s)"
  by (auto simp: window_wf_def window_new_def as_u8.simps intro: exI[of _ SlotEmpty])

lemma window_new_start [simp]: "tw_start (window_new s) = s"
  by (simp add: window_new_def)

lemma window_index_wf:
  "window_wf w \<Longrightarrow> window_index w n = (if in_window w n then Some (n - tw_start w) else None)"
  by (auto simp: window_wf_def window_index_def in_window_def window_end_def seq_minus_def)

text \<open>Reading a well-formed window never panics inside its range.\<close>

lemma get_status_wf:
  assumes "window_wf w"
  shows "get_status w n =
    (if in_window w n
     then Some (case tw_commit_records w ! (n - tw_start w) of None \<Rightarrow> Empty
       | Some r \<Rightarrow> mark_status (the (slot_marker_from (tw_slot_status w ! (n - tw_start w)))) r)
     else None)"
proof (cases "in_window w n")
  case True
  then have "n - tw_start w < TIMELINE_WINDOW_SIZE" by (auto simp: in_window_def window_end_def)
  then obtain m where m: "tw_slot_status w ! (n - tw_start w) = as_u8 m"
      "m = SlotEmpty \<longleftrightarrow> tw_commit_records w ! (n - tw_start w) = None"
    using assms by (auto simp: window_wf_def)
  then show ?thesis
    using True window_index_wf[OF assms, of n]
    by (cases m) (auto simp: get_status_def)
next
  case False
  then show ?thesis using window_index_wf[OF assms, of n] by (simp add: get_status_def)
qed

lemma get_status_defined: "window_wf w \<Longrightarrow> in_window w n \<Longrightarrow> \<exists>s. get_status w n = Some s"
  by (simp add: get_status_wf)

lemma in_window_update [simp]:
  "in_window (w\<lparr> tw_slot_status := a \<rparr>) n = in_window w n"
  "in_window (w\<lparr> tw_commit_records := b \<rparr>) n = in_window w n"
  "in_window (w\<lparr> tw_readers := c \<rparr>) n = in_window w n"
  by (auto simp: in_window_def window_end_def)

lemma window_offset_neq:
  "in_window w n \<Longrightarrow> in_window w k \<Longrightarrow> k \<noteq> n \<Longrightarrow> n - tw_start w \<noteq> k - tw_start w"
  by (auto simp: in_window_def)

lemma insert_pending_wf:
  assumes "window_wf w" "in_window w n" "get_status w n = Some Empty"
  shows "\<exists>w'. insert_pending n r w = Some w' \<and> window_wf w' \<and> tw_start w' = tw_start w \<and>
    tw_readers w' = tw_readers w \<and>
    (\<forall>k. get_status w' k = (if k = n then Some (Pending r) else get_status w k))"
proof -
  let ?i = "n - tw_start w"
  have i: "?i < TIMELINE_WINDOW_SIZE" using assms(2) by (auto simp: in_window_def window_end_def)
  then obtain m where m: "tw_slot_status w ! ?i = as_u8 m"
      "m = SlotEmpty \<longleftrightarrow> tw_commit_records w ! ?i = None"
    using assms(1) by (auto simp: window_wf_def)
  then have none: "tw_commit_records w ! ?i = None"
    using assms by (cases m) (auto simp: get_status_wf split: option.splits)
  let ?w = "w\<lparr> tw_commit_records := (tw_commit_records w)[?i := Some r],
               tw_slot_status := (tw_slot_status w)[?i := as_u8 SlotPending] \<rparr>"
  have wf: "window_wf ?w"
    using assms(1) i unfolding window_wf_def
    by (auto simp: nth_list_update intro: exI[of _ SlotPending])
  have len: "length (tw_slot_status w) = TIMELINE_WINDOW_SIZE" "length (tw_commit_records w) = TIMELINE_WINDOW_SIZE"
    using assms(1) by (auto simp: window_wf_def)
  have "get_status ?w k = (if k = n then Some (Pending r) else get_status w k)" for k
    using assms i len window_offset_neq[OF assms(2), of k]
    unfolding get_status_wf[OF wf] get_status_wf[OF assms(1)] by (auto simp: nth_list_update cong: option.case_cong)
  moreover have "insert_pending n r w = Some ?w"
    using none assms by (simp add: insert_pending_def window_index_wf)
  ultimately show ?thesis using wf by auto
qed

lemma store_slot_wf:
  assumes "window_wf w" "in_window w n" "get_status w n = Some s" "s \<noteq> Empty" "m \<noteq> SlotEmpty"
  shows "\<exists>w' r. store_slot m n w = Some w' \<and> window_wf w' \<and> tw_start w' = tw_start w \<and>
    tw_readers w' = tw_readers w \<and> tw_commit_records w ! (n - tw_start w) = Some r \<and>
    (\<forall>k. get_status w' k = (if k = n then Some (mark_status m r) else get_status w k))"
proof -
  let ?i = "n - tw_start w"
  have i: "?i < TIMELINE_WINDOW_SIZE" using assms(2) by (auto simp: in_window_def window_end_def)
  obtain r where r: "tw_commit_records w ! ?i = Some r"
    using assms by (auto simp: get_status_wf split: option.splits)
  let ?w = "w\<lparr> tw_slot_status := (tw_slot_status w)[?i := as_u8 m] \<rparr>"
  have len: "length (tw_slot_status w) = TIMELINE_WINDOW_SIZE"
    using assms(1) by (auto simp: window_wf_def)
  have wf: "window_wf ?w"
    using assms(1,5) i r unfolding window_wf_def by (auto simp: nth_list_update)
  have "get_status ?w k = (if k = n then Some (mark_status m r) else get_status w k)" for k
    using assms i r len window_offset_neq[OF assms(2), of k]
    unfolding get_status_wf[OF wf] get_status_wf[OF assms(1)] by (auto simp: nth_list_update cong: option.case_cong)
  moreover have "store_slot m n w = Some ?w"
    using assms by (simp add: store_slot_def window_index_wf)
  ultimately show ?thesis using wf r by auto
qed

text \<open>The record a non-empty slot holds.\<close>

fun status_record_of :: "commit_status \<Rightarrow> commit_record option" where
  "status_record_of (Pending r) = Some r"
| "status_record_of (Validated r) = Some r"
| "status_record_of (Applied r) = Some r"
| "status_record_of _ = None"

lemma get_status_record:
  assumes "window_wf w" "get_status w n = Some s" "status_record_of s = Some r"
  shows "tw_commit_records w ! (n - tw_start w) = Some r"
  using assms
  by (auto simp: get_status_wf split: if_splits option.splits elim!: status_record_of.elims)
     (metis commit_status.distinct commit_status.inject mark_status.elims)+


section \<open>The timeline as one sequence of slots\<close>

definition windows_wf :: "timeline_window list \<Rightarrow> bool" where
  "windows_wf ws \<longleftrightarrow> ws \<noteq> [] \<and>
     (\<forall>i < length ws. window_wf (ws ! i) \<and> tw_start (ws ! i) = tw_start (ws ! 0) + i * TIMELINE_WINDOW_SIZE)"

definition tl_start :: "timeline \<Rightarrow> seq" where
  "tl_start t = tw_start (tl_windows t ! 0)"

definition tl_end :: "timeline \<Rightarrow> seq" where
  "tl_end t = tl_start t + length (tl_windows t) * TIMELINE_WINDOW_SIZE"

definition covered :: "timeline \<Rightarrow> seq \<Rightarrow> bool" where
  "covered t n \<longleftrightarrow> tl_start t \<le> n \<and> n < tl_end t"

definition slot_window :: "timeline \<Rightarrow> seq \<Rightarrow> nat" where
  "slot_window t n = (n - tl_start t) div TIMELINE_WINDOW_SIZE"

definition tl_status :: "timeline \<Rightarrow> seq \<Rightarrow> commit_status" where
  "tl_status t n =
     (if covered t n then (case get_status (tl_windows t ! slot_window t n) n of Some s \<Rightarrow> s | None \<Rightarrow> Empty)
      else Empty)"

lemma windows_wf_nth: "windows_wf ws \<Longrightarrow> i < length ws \<Longrightarrow> window_wf (ws ! i)"
  by (simp add: windows_wf_def)

lemma windows_wf_start:
  "windows_wf (tl_windows t) \<Longrightarrow> i < length (tl_windows t) \<Longrightarrow>
   tw_start (tl_windows t ! i) = tl_start t + i * TIMELINE_WINDOW_SIZE"
  unfolding windows_wf_def tl_start_def by blast

lemma window_end_last: "windows_wf (tl_windows t) \<Longrightarrow> window_end (last (tl_windows t)) = tl_end t"
proof -
  assume wf: "windows_wf (tl_windows t)"
  let ?n = "length (tl_windows t)"
  have n: "tl_windows t \<noteq> []" using wf by (simp add: windows_wf_def)
  then have "?n - 1 < ?n" by simp
  then have "tw_start (tl_windows t ! (?n - 1)) = tl_start t + (?n - 1) * TIMELINE_WINDOW_SIZE"
    by (rule windows_wf_start[OF wf])
  moreover have "(?n - 1) * TIMELINE_WINDOW_SIZE + TIMELINE_WINDOW_SIZE = ?n * TIMELINE_WINDOW_SIZE"
    using n by (cases ?n) auto
  ultimately show ?thesis
    using n by (simp add: last_conv_nth window_end_def tl_end_def)
qed

lemma resolve_window_wf:
  assumes "windows_wf (tl_windows t)"
  shows "resolve_window (tl_windows t) n = Some (if covered t n then Some (slot_window t n) else None)"
  using assms window_end_last[OF assms]
  by (cases "tl_windows t")
     (auto simp: windows_wf_def resolve_window_def covered_def tl_start_def slot_window_def Let_def)

lemma slot_window_bound:
  assumes "windows_wf (tl_windows t)" "covered t n"
  shows "slot_window t n < length (tl_windows t)" "in_window (tl_windows t ! slot_window t n) n"
proof -
  have "n - tl_start t < length (tl_windows t) * TIMELINE_WINDOW_SIZE"
    using assms(2) by (auto simp: covered_def tl_end_def)
  then show b: "slot_window t n < length (tl_windows t)"
    by (simp add: slot_window_def less_mult_imp_div_less)
  have "slot_window t n * TIMELINE_WINDOW_SIZE + (n - tl_start t) mod TIMELINE_WINDOW_SIZE = n - tl_start t"
    by (simp add: slot_window_def)
  moreover have "(n - tl_start t) mod TIMELINE_WINDOW_SIZE < TIMELINE_WINDOW_SIZE" by simp
  moreover have "tw_start (tl_windows t ! slot_window t n) = tl_start t + slot_window t n * TIMELINE_WINDOW_SIZE"
    using windows_wf_start[OF assms(1) b] .
  ultimately show "in_window (tl_windows t ! slot_window t n) n"
    using assms(2) unfolding in_window_def window_end_def covered_def by linarith
qed

lemma try_get_window_wf:
  assumes "windows_wf (tl_windows t)"
  shows "try_get_window t n = Some (if covered t n then Some (slot_window t n) else None)"
  using slot_window_bound(1)[OF assms, of n] by (simp add: try_get_window_def resolve_window_wf[OF assms])

lemma get_status_slot:
  assumes "windows_wf (tl_windows t)" "covered t n"
  shows "get_status (tl_windows t ! slot_window t n) n = Some (tl_status t n)"
  using assms slot_window_bound[OF assms] get_status_defined[of "tl_windows t ! slot_window t n" n]
  by (auto simp: tl_status_def windows_wf_nth)

text \<open>A slot lies in one window only.\<close>

lemma in_window_unique:
  assumes "windows_wf (tl_windows t)" "i < length (tl_windows t)" "in_window (tl_windows t ! i) n"
  shows "covered t n \<and> i = slot_window t n"
proof -
  have st: "tw_start (tl_windows t ! i) = tl_start t + i * TIMELINE_WINDOW_SIZE"
    using windows_wf_start[OF assms(1,2)] .
  have "i * TIMELINE_WINDOW_SIZE + TIMELINE_WINDOW_SIZE \<le> length (tl_windows t) * TIMELINE_WINDOW_SIZE"
    using assms(2) by (metis Suc_leI add.commute mult_Suc mult_le_mono1)
  then have "covered t n"
    using assms(3) st by (auto simp: in_window_def window_end_def covered_def tl_end_def)
  moreover have "slot_window t n = i"
    unfolding slot_window_def
    using assms(3) st by (intro div_nat_eqI) (auto simp: in_window_def window_end_def algebra_simps)
  ultimately show ?thesis by simp
qed

text \<open>Writing one window: the generic step that every slot operation instantiates.\<close>

lemma update_window_status:
  assumes wf: "windows_wf (tl_windows t)" and cov: "covered t n"
    and w': "window_wf w'" "tw_start w' = tw_start (tl_windows t ! slot_window t n)"
    and st: "\<And>k. get_status w' k = (if k = n then Some s else get_status (tl_windows t ! slot_window t n) k)"
  defines "t' \<equiv> t\<lparr> tl_windows := (tl_windows t)[slot_window t n := w'] \<rparr>"
  shows "windows_wf (tl_windows t')" "tl_start t' = tl_start t" "tl_end t' = tl_end t"
    "tl_watermark t' = tl_watermark t" "tl_status t' = (tl_status t)(n := s)"
proof -
  let ?j = "slot_window t n"
  have j: "?j < length (tl_windows t)" using slot_window_bound[OF wf cov] by simp
  have start0: "tw_start ((tl_windows t)[?j := w'] ! 0) = tw_start (tl_windows t ! 0)"
    using w'(2) j by (cases "?j = 0") auto
  show wf': "windows_wf (tl_windows t')"
  proof -
    have "tw_start ((tl_windows t)[?j := w'] ! i) = tw_start (tl_windows t ! i)" if "i < length (tl_windows t)" for i
      using w'(2) j that by (simp add: nth_list_update)
    then have "tw_start ((tl_windows t)[?j := w'] ! i) = tw_start (tl_windows t ! 0) + i * TIMELINE_WINDOW_SIZE"
      if "i < length (tl_windows t)" for i
      using windows_wf_start[OF wf that] that by (simp add: tl_start_def)
    moreover have "window_wf ((tl_windows t)[?j := w'] ! i)" if "i < length (tl_windows t)" for i
      using windows_wf_nth[OF wf that] w'(1) j by (simp add: nth_list_update)
    moreover have "tl_windows t \<noteq> []" using wf by (simp add: windows_wf_def)
    ultimately show ?thesis
      using start0 unfolding windows_wf_def t'_def by simp
  qed
  show start': "tl_start t' = tl_start t" using start0 by (simp add: tl_start_def t'_def)
  then show end': "tl_end t' = tl_end t" by (simp add: tl_end_def t'_def)
  show "tl_watermark t' = tl_watermark t" by (simp add: t'_def)
  have cov': "covered t' k = covered t k" "slot_window t' k = slot_window t k" for k
    by (simp_all add: covered_def start' end' slot_window_def)
  show "tl_status t' = (tl_status t)(n := s)"
  proof
    fix k
    show "tl_status t' k = ((tl_status t)(n := s)) k"
    proof (cases "covered t k")
      case True
      then have "tl_windows t' ! slot_window t k = (if slot_window t k = ?j then w' else tl_windows t ! slot_window t k)"
        using j slot_window_bound[OF wf True] by (simp add: t'_def nth_list_update)
      then show ?thesis
        using True st[of k] get_status_slot[OF wf True] cov by (auto simp: tl_status_def cov')
    next
      case False
      then show ?thesis using cov by (auto simp: tl_status_def cov')
    qed
  qed
qed


text \<open>The number of snapshots registered in the window of a slot.\<close>

definition tl_readers :: "timeline \<Rightarrow> seq \<Rightarrow> nat" where
  "tl_readers t k = (if covered t k then tw_readers (tl_windows t ! slot_window t k) else 0)"

lemma update_window_readers:
  assumes "windows_wf (tl_windows t)" "covered t n" "tw_start w' = tw_start (tl_windows t ! slot_window t n)"
  shows "tl_readers (t\<lparr> tl_windows := (tl_windows t)[slot_window t n := w'] \<rparr>) k =
    (if covered t k \<and> slot_window t k = slot_window t n then tw_readers w' else tl_readers t k)"
proof -
  let ?j = "slot_window t n" and ?t = "t\<lparr> tl_windows := (tl_windows t)[slot_window t n := w'] \<rparr>"
  have j: "?j < length (tl_windows t)" using slot_window_bound[OF assms(1,2)] by simp
  have "tl_start ?t = tl_start t"
    using assms(3) j by (cases "?j = 0") (auto simp: tl_start_def)
  then have "covered ?t k = covered t k" "slot_window ?t k = slot_window t k"
    by (auto simp: covered_def tl_end_def slot_window_def)
  then show ?thesis
    using j by (auto simp: tl_readers_def)
qed

lemma slot_window_cong: "tl_start t = tl_start t' \<Longrightarrow> slot_window t k = slot_window t' k"
  by (simp add: slot_window_def)

lemma tl_watermark_update [simp]:
  "tl_start (t\<lparr> tl_watermark := x \<rparr>) = tl_start t"
  "tl_end (t\<lparr> tl_watermark := x \<rparr>) = tl_end t"
  "covered (t\<lparr> tl_watermark := x \<rparr>) = covered t"
  "slot_window (t\<lparr> tl_watermark := x \<rparr>) = slot_window t"
  "tl_status (t\<lparr> tl_watermark := x \<rparr>) = tl_status t"
  "tl_readers (t\<lparr> tl_watermark := x \<rparr>) = tl_readers t"
  by (auto simp: fun_eq_iff tl_start_def tl_end_def covered_def slot_window_def tl_status_def tl_readers_def)

section \<open>Operations on slots\<close>

lemma slot_insert_pending:
  assumes "windows_wf (tl_windows t)" "covered t n" "tl_status t n = Empty"
  shows "\<exists>t'. update_window (slot_window t n) (insert_pending n r) t = Some t' \<and> windows_wf (tl_windows t') \<and>
    tl_start t' = tl_start t \<and> tl_end t' = tl_end t \<and> tl_watermark t' = tl_watermark t \<and>
    tl_status t' = (tl_status t)(n := Pending r) \<and> tl_readers t' = tl_readers t"
proof -
  let ?w = "tl_windows t ! slot_window t n"
  have "window_wf ?w" "in_window ?w n" "get_status ?w n = Some Empty"
    using slot_window_bound[OF assms(1,2)] windows_wf_nth[OF assms(1)] get_status_slot[OF assms(1,2)] assms(3)
    by auto
  then obtain w' where w': "insert_pending n r ?w = Some w'" "window_wf w'" "tw_start w' = tw_start ?w"
      "tw_readers w' = tw_readers ?w" "\<And>k. get_status w' k = (if k = n then Some (Pending r) else get_status ?w k)"
    using insert_pending_wf[of ?w n r] by blast
  then show ?thesis
    using update_window_status[OF assms(1,2) w'(2,3,5)] update_window_readers[OF assms(1,2) w'(3)]
    by (auto simp: update_window_def fun_eq_iff tl_readers_def)
qed

lemma slot_store:
  assumes "windows_wf (tl_windows t)" "covered t n" "status_record_of (tl_status t n) = Some r" "m \<noteq> SlotEmpty"
  shows "\<exists>t'. update_window (slot_window t n) (store_slot m n) t = Some t' \<and> windows_wf (tl_windows t') \<and>
    tl_start t' = tl_start t \<and> tl_end t' = tl_end t \<and> tl_watermark t' = tl_watermark t \<and>
    tl_status t' = (tl_status t)(n := mark_status m r) \<and> tl_readers t' = tl_readers t"
proof -
  let ?w = "tl_windows t ! slot_window t n"
  have w: "window_wf ?w" "in_window ?w n" and s: "get_status ?w n = Some (tl_status t n)"
    using slot_window_bound[OF assms(1,2)] windows_wf_nth[OF assms(1)] get_status_slot[OF assms(1,2)]
    by auto
  have ne: "tl_status t n \<noteq> Empty" using assms(3) by auto
  obtain w' r' where w': "store_slot m n ?w = Some w'" "window_wf w'" "tw_start w' = tw_start ?w"
      "tw_readers w' = tw_readers ?w" "tw_commit_records ?w ! (n - tw_start ?w) = Some r'"
      "\<And>k. get_status w' k = (if k = n then Some (mark_status m r') else get_status ?w k)"
    using store_slot_wf[OF w s ne assms(4)] by blast
  moreover have "r' = r" using get_status_record[OF w(1) s assms(3)] w'(5) by simp
  ultimately show ?thesis
    using update_window_status[OF assms(1,2) w'(2,3), of "mark_status m r"] update_window_readers[OF assms(1,2) w'(3)]
    by (auto simp: update_window_def fun_eq_iff tl_readers_def)
qed

section \<open>Creating and freeing windows\<close>

lemma append_window:
  assumes "windows_wf (tl_windows t)"
  defines "t' \<equiv> t\<lparr> tl_windows := tl_windows t @ [window_new (tl_end t)] \<rparr>"
  shows "windows_wf (tl_windows t')" "tl_start t' = tl_start t" "tl_end t' = tl_end t + TIMELINE_WINDOW_SIZE"
    "tl_watermark t' = tl_watermark t"
proof -
  have ne: "tl_windows t \<noteq> []" using assms(1) by (simp add: windows_wf_def)
  then show start': "tl_start t' = tl_start t" by (simp add: tl_start_def t'_def nth_append)
  show wm: "tl_watermark t' = tl_watermark t" by (simp add: t'_def)
  show end': "tl_end t' = tl_end t + TIMELINE_WINDOW_SIZE"
    using start' by (simp add: tl_end_def) (simp add: t'_def)
  show wf': "windows_wf (tl_windows t')"
    unfolding windows_wf_def
  proof (intro conjI allI impI)
    fix i assume i: "i < length (tl_windows t')"
    show "window_wf (tl_windows t' ! i)"
      using i windows_wf_nth[OF assms(1)] by (cases "i < length (tl_windows t)") (auto simp: t'_def nth_append)
    show "tw_start (tl_windows t' ! i) = tw_start (tl_windows t' ! 0) + i * TIMELINE_WINDOW_SIZE"
      using i windows_wf_start[OF assms(1), of i] start'
      by (cases "i < length (tl_windows t)") (auto simp: t'_def nth_append tl_start_def tl_end_def less_Suc_eq)
  qed (simp add: t'_def)
qed

lemma append_window_slot:
  assumes "windows_wf (tl_windows t)"
  defines "t' \<equiv> t\<lparr> tl_windows := tl_windows t @ [window_new (tl_end t)] \<rparr>"
  shows "covered t k \<Longrightarrow> covered t' k \<and> tl_windows t' ! slot_window t' k = tl_windows t ! slot_window t k"
    and "covered t' k \<Longrightarrow> \<not> covered t k \<Longrightarrow> tl_windows t' ! slot_window t' k = window_new (tl_end t)"
proof -
  note a = append_window[OF assms(1), folded t'_def]
  show "covered t' k \<and> tl_windows t' ! slot_window t' k = tl_windows t ! slot_window t k" if c: "covered t k"
  proof -
    have "covered t' k" "slot_window t' k = slot_window t k"
      using c a by (auto simp: covered_def slot_window_def)
    then show ?thesis using slot_window_bound(1)[OF assms(1) c] by (simp add: t'_def nth_append)
  qed
  show "tl_windows t' ! slot_window t' k = window_new (tl_end t)" if c: "covered t' k" "\<not> covered t k"
  proof -
    have "slot_window t' k = length (tl_windows t)"
      using c a(2,3) unfolding slot_window_def covered_def tl_end_def
      by (intro div_nat_eqI) (auto simp: mult.commute)
    then show ?thesis by (simp add: t'_def)
  qed
qed

lemma append_window_status:
  assumes "windows_wf (tl_windows t)"
  defines "t' \<equiv> t\<lparr> tl_windows := tl_windows t @ [window_new (tl_end t)] \<rparr>"
  shows "tl_status t' = tl_status t" "tl_readers t' = tl_readers t"
proof -
  note a = append_window[OF assms(1), folded t'_def] and slot = append_window_slot[OF assms(1), folded t'_def]
  have "tl_status t' k = tl_status t k \<and> tl_readers t' k = tl_readers t k" for k
  proof (cases "covered t' k \<and> \<not> covered t k")
    case True
    then have w: "tl_windows t' ! slot_window t' k = window_new (tl_end t)" using slot(2) by blast
    have "in_window (window_new (tl_end t)) k"
      using True slot_window_bound(2)[OF a(1), of k] w by simp
    then have "get_status (window_new (tl_end t)) k = Some Empty"
      by (auto simp: get_status_wf in_window_def window_end_def) (auto simp: window_new_def)
    moreover have "tw_readers (window_new (tl_end t)) = 0" by (simp add: window_new_def)
    ultimately show ?thesis using True w by (simp add: tl_status_def tl_readers_def)
  next
    case False
    then show ?thesis using slot(1)[of k] by (auto simp: tl_status_def tl_readers_def)
  qed
  then show "tl_status t' = tl_status t" "tl_readers t' = tl_readers t" by auto
qed

lemma create_windows_to_wf:
  assumes "windows_wf (tl_windows t)"
  shows "\<exists>t' xs. create_windows_to n t = Some t' \<and> windows_wf (tl_windows t') \<and> tl_start t' = tl_start t \<and>
    tl_end t \<le> tl_end t' \<and> n < tl_end t' \<and> tl_watermark t' = tl_watermark t \<and> tl_status t' = tl_status t \<and>
    tl_readers t' = tl_readers t \<and> tl_windows t' = tl_windows t @ xs"
  using assms
proof (induction "Suc n - tl_end t" arbitrary: t rule: less_induct)
  case less
  have ne: "tl_windows t \<noteq> []" using less.prems by (simp add: windows_wf_def)
  note last = window_end_last[OF less.prems]
  show ?case
  proof (cases "tl_end t \<le> n")
    case True
    let ?t = "t\<lparr> tl_windows := tl_windows t @ [window_new (tl_end t)] \<rparr>"
    note a = append_window[OF less.prems] append_window_status[OF less.prems]
    have "Suc n - tl_end ?t < Suc n - tl_end t"
      using True a(3) TIMELINE_WINDOW_SIZE_pos by linarith
    then obtain t' xs where t': "create_windows_to n ?t = Some t'" "windows_wf (tl_windows t')" "tl_start t' = tl_start ?t"
        "tl_end ?t \<le> tl_end t'" "n < tl_end t'" "tl_watermark t' = tl_watermark ?t" "tl_status t' = tl_status ?t"
        "tl_readers t' = tl_readers ?t" "tl_windows t' = tl_windows ?t @ xs"
      using less.hyps[of ?t] a(1) by blast
    have "create_windows_to n t = create_windows_to n ?t"
      using True ne last unfolding create_windows_to_def
      by (subst create_windows.simps) (simp add: Let_def option.map_comp comp_def)
    then show ?thesis using t' a by auto
  next
    case False
    then have "create_windows_to n t = Some t"
      using ne last unfolding create_windows_to_def by (subst create_windows.simps) (simp add: Let_def)
    then show ?thesis using False less.prems by auto
  qed
qed

lemma get_or_create_window_wf:
  assumes "windows_wf (tl_windows t)" "tl_start t \<le> n"
  shows "\<exists>t'. get_or_create_window n t = Some (t', slot_window t' n) \<and> windows_wf (tl_windows t') \<and> covered t' n \<and>
    tl_start t' = tl_start t \<and> tl_end t \<le> tl_end t' \<and> tl_watermark t' = tl_watermark t \<and> tl_status t' = tl_status t \<and>
    tl_readers t' = tl_readers t"
proof -
  have ne: "tl_windows t \<noteq> []" using assms(1) by (simp add: windows_wf_def)
  note last = window_end_last[OF assms(1)]
  show ?thesis
  proof (cases "tl_end t \<le> n")
    case True
    obtain t' where t': "create_windows_to n t = Some t'" "windows_wf (tl_windows t')" "tl_start t' = tl_start t"
        "tl_end t \<le> tl_end t'" "n < tl_end t'" "tl_watermark t' = tl_watermark t" "tl_status t' = tl_status t"
        "tl_readers t' = tl_readers t"
      using create_windows_to_wf[OF assms(1)] by blast
    then have "covered t' n" using assms(2) by (simp add: covered_def)
    then show ?thesis
      using t' True ne last try_get_window_wf[OF t'(2), of n] by (simp add: get_or_create_window_def)
  next
    case False
    then have "covered t n" using assms(2) by (simp add: covered_def)
    then show ?thesis
      using False ne last assms try_get_window_wf[OF assms(1), of n] by (simp add: get_or_create_window_def)
  qed
qed


lemma drop_windows:
  assumes "windows_wf (tl_windows t)" "j < length (tl_windows t)"
  defines "t' \<equiv> t\<lparr> tl_windows := drop j (tl_windows t) \<rparr>"
  shows "windows_wf (tl_windows t')" "tl_start t' = tl_start t + j * TIMELINE_WINDOW_SIZE" "tl_end t' = tl_end t"
    "tl_watermark t' = tl_watermark t" "\<And>k. tl_status t' k = (if k < tl_start t' then Empty else tl_status t k)"
    "\<And>k. tl_readers t' k = (if k < tl_start t' then 0 else tl_readers t k)"
proof -
  show wm: "tl_watermark t' = tl_watermark t" by (simp add: t'_def)
  show start': "tl_start t' = tl_start t + j * TIMELINE_WINDOW_SIZE"
    using windows_wf_start[OF assms(1,2)] assms(2) by (simp add: tl_start_def t'_def)
  have "length (tl_windows t) * TIMELINE_WINDOW_SIZE =
      j * TIMELINE_WINDOW_SIZE + (length (tl_windows t) - j) * TIMELINE_WINDOW_SIZE"
    using assms(2) by (simp flip: add_mult_distrib)
  then show end': "tl_end t' = tl_end t"
    unfolding tl_end_def start' by (simp add: t'_def)
  show wf': "windows_wf (tl_windows t')"
    unfolding windows_wf_def
  proof (intro conjI allI impI)
    fix i assume "i < length (tl_windows t')"
    then have i: "j + i < length (tl_windows t)" by (simp add: t'_def)
    then show "window_wf (tl_windows t' ! i)"
      using windows_wf_nth[OF assms(1)] by (simp add: t'_def)
    show "tw_start (tl_windows t' ! i) = tw_start (tl_windows t' ! 0) + i * TIMELINE_WINDOW_SIZE"
      using windows_wf_start[OF assms(1) i] windows_wf_start[OF assms(1,2)] assms(2)
      by (simp add: t'_def add_mult_distrib)
  qed (use assms(2) in \<open>simp add: t'_def\<close>)
  have slot: "tl_windows t ! slot_window t k = tl_windows t' ! slot_window t' k \<and> covered t k" if c: "covered t' k" for k
  proof -
    let ?i = "slot_window t' k"
    have i: "?i < length (tl_windows t')" "in_window (tl_windows t' ! ?i) k"
      using slot_window_bound[OF wf' c] by auto
    then have "j + ?i < length (tl_windows t)" "in_window (tl_windows t ! (j + ?i)) k"
      by (auto simp: t'_def)
    then show ?thesis
      using in_window_unique[OF assms(1), of "j + ?i" k] i(1) by (auto simp: t'_def)
  qed
  fix k
  show "tl_status t' k = (if k < tl_start t' then Empty else tl_status t k)"
    "tl_readers t' k = (if k < tl_start t' then 0 else tl_readers t k)"
    using slot[of k] start' end' by (cases "covered t' k"; auto simp: tl_status_def tl_readers_def covered_def)+
qed

lemma free_windows_spec:
  "ws \<noteq> [] \<Longrightarrow> watermark < window_end (last ws) \<Longrightarrow>
   \<exists>j < length ws. free_windows watermark ws = Some (drop j ws) \<and>
     (\<forall>i < j. window_end (ws ! i) \<le> watermark \<and> tw_readers (ws ! i) = 0)"
proof (induction ws)
  case (Cons w ws)
  show ?case
  proof (cases "window_end w \<le> watermark \<and> tw_readers w = 0")
    case True
    then have "ws \<noteq> []" using Cons.prems(2) by auto
    then obtain j where "j < length ws" "free_windows watermark ws = Some (drop j ws)"
        "\<forall>i < j. window_end (ws ! i) \<le> watermark \<and> tw_readers (ws ! i) = 0"
      using Cons by auto
    then show ?thesis
      using True by (intro exI[of _ "Suc j"]) (auto simp: less_Suc_eq_0_disj)
  next
    case False
    then show ?thesis by (intro exI[of _ 0]) auto
  qed
qed simp

section \<open>The invariant of the timeline\<close>

text \<open>Every slot at or below the watermark that is still in memory is decided and applied, and the
  watermark lies within the timeline.\<close>

definition tl_inv :: "timeline \<Rightarrow> bool" where
  "tl_inv t \<longleftrightarrow> windows_wf (tl_windows t) \<and> tl_watermark t < tl_end t \<and> tl_start t \<le> tl_watermark t + 1 \<and>
     (\<forall>n. tl_start t \<le> n \<and> n \<le> tl_watermark t \<longrightarrow> is_final (tl_status t n))"

lemma tl_invD:
  assumes "tl_inv t"
  shows "windows_wf (tl_windows t)" "tl_watermark t < tl_end t" "tl_start t \<le> tl_watermark t + 1"
    "\<And>n. tl_start t \<le> n \<Longrightarrow> n \<le> tl_watermark t \<Longrightarrow> is_final (tl_status t n)"
  using assms by (auto simp: tl_inv_def)

text \<open>What freeing windows keeps: the watermark and every slot above the freed ones, which all lie at or
  below the watermark and in windows that no snapshot is registered in.\<close>

definition tl_frees :: "timeline \<Rightarrow> timeline \<Rightarrow> bool" where
  "tl_frees t t' \<longleftrightarrow> tl_watermark t' = tl_watermark t \<and> tl_end t' = tl_end t \<and> tl_start t \<le> tl_start t' \<and>
     tl_start t' \<le> max (tl_start t) (tl_watermark t) \<and>
     (\<forall>k. tl_status t' k = (if k < tl_start t' then Empty else tl_status t k)) \<and>
     (\<forall>k. tl_readers t' k = (if k < tl_start t' then 0 else tl_readers t k)) \<and>
     (\<forall>k < tl_start t'. tl_readers t k = 0)"

lemma tl_status_below: "n < tl_start t \<Longrightarrow> tl_status t n = Empty"
  by (simp add: tl_status_def covered_def)

lemma tl_frees_refl: "tl_frees t t"
  by (auto simp: tl_frees_def tl_status_below tl_readers_def covered_def)

lemma may_free_windows_wf:
  assumes "windows_wf (tl_windows t)" "tl_watermark t < tl_end t"
  shows "\<exists>t'. may_free_windows t = Some t' \<and> windows_wf (tl_windows t') \<and> tl_frees t t'"
proof -
  have ne: "tl_windows t \<noteq> []" using assms(1) by (simp add: windows_wf_def)
  obtain j where j: "j < length (tl_windows t)"
      "free_windows (tl_watermark t) (tl_windows t) = Some (drop j (tl_windows t))"
      "\<forall>i < j. window_end (tl_windows t ! i) \<le> tl_watermark t \<and> tw_readers (tl_windows t ! i) = 0"
    using free_windows_spec[OF ne, of "tl_watermark t"] assms window_end_last[OF assms(1)] by auto
  note d = drop_windows[OF assms(1) j(1)]
  have "tl_start t + j * TIMELINE_WINDOW_SIZE \<le> max (tl_start t) (tl_watermark t)"
  proof (cases j)
    case (Suc i)
    then have "window_end (tl_windows t ! i) \<le> tl_watermark t" using j(3) by simp
    then show ?thesis using windows_wf_start[OF assms(1), of i] j(1) Suc by (simp add: window_end_def)
  qed simp
  moreover have "tl_readers t k = 0" if "k < tl_start t + j * TIMELINE_WINDOW_SIZE" for k
  proof (cases "covered t k")
    case True
    then have "slot_window t k < j"
      using that by (auto simp: slot_window_def covered_def intro!: less_mult_imp_div_less)
    then show ?thesis using j(3) by (simp add: tl_readers_def)
  qed (simp add: tl_readers_def)
  ultimately have "tl_frees t (t\<lparr> tl_windows := drop j (tl_windows t) \<rparr>)"
    using d by (auto simp: tl_frees_def)
  then show ?thesis
    using d(1) j(2) assms(1) tl_frees_refl[of t] by (auto simp: may_free_windows_def Let_def)
qed

lemma tl_frees_inv:
  assumes "tl_inv t" "windows_wf (tl_windows t')" "tl_frees t t'"
  shows "tl_inv t'"
  using assms tl_invD[OF assms(1)] unfolding tl_inv_def tl_frees_def by auto

section \<open>Advancing the watermark\<close>

lemma watermark_loop_wf:
  assumes "windows_wf (tl_windows t)" "tl_watermark t + 1 = c"
  shows "\<exists>c'. watermark_loop t c (if covered t c then Some (slot_window t c) else None) =
      Some (t\<lparr> tl_watermark := c' - 1 \<rparr>, c') \<and> c \<le> c' \<and>
      (\<forall>k. c \<le> k \<and> k < c' \<longrightarrow> covered t k \<and> is_final (tl_status t k)) \<and> \<not> is_final (tl_status t c')"
  using assms
proof (induction "tl_end t - c" arbitrary: t c rule: less_induct)
  case less
  note wf = less.prems(1)
  let ?i = "slot_window t c" and ?t = "t\<lparr> tl_watermark := c \<rparr>"
  let ?win = "\<lambda>c. if covered t c then Some (slot_window t c) else None"
  have stay: "t\<lparr> tl_watermark := c - 1 \<rparr> = t" using less.prems(2) by (cases t) auto
  consider "covered t c" "is_final (tl_status t c)" | "covered t c" "\<not> is_final (tl_status t c)" | "\<not> covered t c"
    by blast
  then show ?case
  proof cases
    case 1
    have i: "?i < length (tl_windows t)" "in_window (tl_windows t ! ?i) c"
      using slot_window_bound[OF wf 1(1)] by auto
    have "watermark_loop t c (Some ?i) = watermark_loop ?t (c + 1) (?win (c + 1))"
    proof (cases "window_end (tl_windows t ! ?i) \<le> c + 1")
      case True
      have "try_get_window ?t (c + 1) = Some (?win (c + 1))"
        using try_get_window_wf[of ?t "c + 1"] wf by simp
      then show ?thesis
        using True 1 i less.prems(2) get_status_slot[OF wf 1(1)]
        by (subst watermark_loop.simps) (simp add: Let_def)
    next
      case False
      then have "in_window (tl_windows t ! ?i) (c + 1)" using i by (auto simp: in_window_def)
      then have "?win (c + 1) = Some ?i" using in_window_unique[OF wf i(1)] by auto
      then show ?thesis
        using False 1 i less.prems(2) get_status_slot[OF wf 1(1)]
        by (subst watermark_loop.simps) (simp add: Let_def)
    qed
    moreover have "tl_end ?t - (c + 1) < tl_end t - c" using 1(1) by (auto simp: covered_def)
    then obtain c' where c': "watermark_loop ?t (c + 1) (?win (c + 1)) = Some (?t\<lparr> tl_watermark := c' - 1 \<rparr>, c')"
        "c + 1 \<le> c'" "\<forall>k. c + 1 \<le> k \<and> k < c' \<longrightarrow> covered t k \<and> is_final (tl_status t k)" "\<not> is_final (tl_status t c')"
      using less.hyps[of ?t "c + 1"] wf by (auto cong: if_cong)
    moreover have "covered t k \<and> is_final (tl_status t k)" if "c \<le> k \<and> k < c'" for k
      using 1 c'(3) that by (cases "k = c") auto
    ultimately show ?thesis
      using 1 by (intro exI[of _ c']) simp
  next
    case 2
    then show ?thesis
      using slot_window_bound[OF wf 2(1)] get_status_slot[OF wf 2(1)] stay
      by (intro exI[of _ c]) (subst watermark_loop.simps, auto)
  next
    case 3
    then show ?thesis
      using stay by (intro exI[of _ c]) (subst watermark_loop.simps, auto simp: tl_status_def)
  qed
qed

text \<open>The watermark moves over exactly the decided slots that follow it.\<close>

lemma may_increment_watermark_wf:
  assumes "tl_inv t" "0 < n"
  shows "\<exists>t'. may_increment_watermark n t = Some t' \<and> tl_inv t' \<and>
    (tl_watermark t + 1 \<noteq> n \<longrightarrow> t' = t) \<and>
    (tl_watermark t + 1 = n \<longrightarrow> \<not> is_final (tl_status t (tl_watermark t' + 1)) \<and> tl_watermark t \<le> tl_watermark t' \<and>
       (\<forall>k. tl_watermark t < k \<and> k \<le> tl_watermark t' \<longrightarrow> is_final (tl_status t k))) \<and>
    tl_frees (t\<lparr> tl_watermark := tl_watermark t' \<rparr>) t'"
proof (cases "tl_watermark t + 1 = n")
  case False
  then have "may_increment_watermark n t = Some t"
    using assms(2) by (auto simp: may_increment_watermark_def seq_minus_def)
  then show ?thesis using False assms(1) tl_frees_refl by auto
next
  case True
  note inv = tl_invD[OF assms(1)]
  obtain c where c: "watermark_loop t n (if covered t n then Some (slot_window t n) else None) =
      Some (t\<lparr> tl_watermark := c - 1 \<rparr>, c)" "n \<le> c"
      "\<And>k. n \<le> k \<and> k < c \<Longrightarrow> covered t k \<and> is_final (tl_status t k)" "\<not> is_final (tl_status t c)"
    using watermark_loop_wf[OF inv(1) True] by blast
  let ?t = "t\<lparr> tl_watermark := c - 1 \<rparr>"
  have wm: "c - 1 < tl_end t" using c(2) c(3)[of "c - 1"] True inv(2) by (cases "c = n") (auto simp: covered_def)
  have inv': "tl_inv ?t"
    using inv(1,3) wm c(2) True unfolding tl_inv_def
  proof (intro conjI allI impI)
    fix k assume "tl_start ?t \<le> k \<and> k \<le> tl_watermark ?t"
    then show "is_final (tl_status ?t k)"
      using inv(4)[of k] c(3)[of k] True c(2) by (cases "k \<le> tl_watermark t") auto
  qed auto
  obtain t' where t': "may_free_windows ?t = Some t'" "windows_wf (tl_windows t')" "tl_frees ?t t'"
    using may_free_windows_wf[of ?t] inv(1) wm by auto
  have "may_increment_watermark n t = may_free_windows ?t \<or> may_increment_watermark n t = Some ?t"
    using True c(1,2) assms(2) try_get_window_wf[OF inv(1)] inv(1) try_get_window_wf[of ?t]
    by (simp add: may_increment_watermark_def seq_minus_def)
  then obtain t'' where t'': "may_increment_watermark n t = Some t''" "tl_inv t''" "tl_frees ?t t''"
    using t' inv' tl_frees_inv[OF inv' t'(2,3)] tl_frees_refl[of ?t] by metis
  then have "tl_watermark t'' = c - 1" by (simp add: tl_frees_def)
  then show ?thesis
    using t'' c True by auto
qed


section \<open>Readers\<close>

lemma set_readers_status:
  fixes c :: nat
  assumes "windows_wf (tl_windows t)" "covered t n"
  defines "t' \<equiv> t\<lparr> tl_windows := (tl_windows t)[slot_window t n :=
      (tl_windows t ! slot_window t n)\<lparr> tw_readers := c \<rparr>] \<rparr>"
  shows "windows_wf (tl_windows t')" "tl_start t' = tl_start t" "tl_end t' = tl_end t"
    "tl_watermark t' = tl_watermark t" "tl_status t' = tl_status t"
    "tl_readers t' = (\<lambda>k. if covered t k \<and> slot_window t k = slot_window t n then c else tl_readers t k)"
proof -
  let ?w = "tl_windows t ! slot_window t n"
  have "window_wf ?w" using windows_wf_nth[OF assms(1)] slot_window_bound[OF assms(1,2)] by simp
  then have wf: "window_wf (?w\<lparr> tw_readers := c \<rparr>)" by (simp add: window_wf_def)
  have "get_status (?w\<lparr> tw_readers := c \<rparr>) k = get_status ?w k" for k
    by (simp add: get_status_def window_index_def cong: if_cong)
  then have st: "get_status (?w\<lparr> tw_readers := c \<rparr>) k = (if k = n then Some (tl_status t n) else get_status ?w k)" for k
    using get_status_slot[OF assms(1,2)] by simp
  have start: "tw_start (?w\<lparr> tw_readers := c \<rparr>) = tw_start ?w" by simp
  note u = update_window_status[OF assms(1,2) wf start st, folded t'_def]
  show "windows_wf (tl_windows t')" "tl_start t' = tl_start t" "tl_end t' = tl_end t"
    "tl_watermark t' = tl_watermark t" "tl_status t' = tl_status t"
    using u by simp_all
  show "tl_readers t' = (\<lambda>k. if covered t k \<and> slot_window t k = slot_window t n then c else tl_readers t k)"
    using update_window_readers[OF assms(1,2) start] by (auto simp: t'_def fun_eq_iff)
qed

lemma record_reader_wf:
  assumes "windows_wf (tl_windows t)"
  shows "\<exists>t'. record_reader n t = Some t' \<and> windows_wf (tl_windows t') \<and> tl_start t' = tl_start t \<and>
    tl_end t' = tl_end t \<and> tl_watermark t' = tl_watermark t \<and> tl_status t' = tl_status t \<and>
    (\<forall>k. tl_readers t k \<le> tl_readers t' k) \<and> (covered t n \<longrightarrow> 0 < tl_readers t' n)"
proof (cases "covered t n")
  case True
  note u = set_readers_status[OF assms True, of "tw_readers (tl_windows t ! slot_window t n) + 1"]
  show ?thesis
    using True try_get_window_wf[OF assms, of n] u
    by (auto simp: record_reader_def update_window_def increment_readers_def tl_readers_def[of t])
next
  case False
  then show ?thesis using try_get_window_wf[OF assms, of n] assms by (simp add: record_reader_def)
qed

lemma remove_reader_wf:
  assumes "windows_wf (tl_windows t)" "tl_watermark t < tl_end t" "covered t n \<Longrightarrow> 0 < tl_readers t n"
  shows "\<exists>t' t''. remove_reader n t = Some t' \<and> windows_wf (tl_windows t') \<and> tl_frees t'' t' \<and>
    tl_watermark t'' = tl_watermark t \<and> tl_start t'' = tl_start t \<and> tl_end t'' = tl_end t \<and> tl_status t'' = tl_status t \<and>
    tl_readers t'' = (\<lambda>k. if covered t n \<and> covered t k \<and> slot_window t k = slot_window t n
      then tl_readers t k - 1 else tl_readers t k)"
proof (cases "covered t n")
  case True
  let ?w = "tl_windows t ! slot_window t n"
  let ?t = "t\<lparr> tl_windows := (tl_windows t)[slot_window t n := ?w\<lparr> tw_readers := tw_readers ?w - 1 \<rparr>] \<rparr>"
  note u = set_readers_status[OF assms(1) True, of "tw_readers ?w - 1"]
  have r: "tw_readers ?w \<noteq> 0" using assms(3) True by (simp add: tl_readers_def)
  obtain t' where t': "may_free_windows ?t = Some t'" "windows_wf (tl_windows t')" "tl_frees ?t t'"
    using may_free_windows_wf[of ?t] u assms(2) by auto
  have "remove_reader n t = may_free_windows ?t \<or> remove_reader n t = Some ?t"
    using True r try_get_window_wf[OF assms(1), of n] by (simp add: remove_reader_def decrement_readers_def Let_def)
  then obtain t'' where "remove_reader n t = Some t''" "windows_wf (tl_windows t'')" "tl_frees ?t t''"
    using t' u(1) tl_frees_refl[of ?t] by metis
  moreover have "tl_readers ?t = (\<lambda>k. if covered t n \<and> covered t k \<and> slot_window t k = slot_window t n
      then tl_readers t k - 1 else tl_readers t k)"
    unfolding u(6) using True by (auto simp: tl_readers_def)
  ultimately show ?thesis using u(2-5) by blast
next
  case False
  then have "remove_reader n t = Some t" using try_get_window_wf[OF assms(1), of n] by (simp add: remove_reader_def)
  then show ?thesis using False assms(1) tl_frees_refl[of t] by auto
qed

lemma tl_inv_new: "timeline_new n = Some t \<Longrightarrow> tl_inv t \<and> tl_start t = n \<and> tl_watermark t = n - 1 \<and> tl_status t = (\<lambda>_. Empty)"
proof -
  assume t: "timeline_new n = Some t"
  then have t': "t = \<lparr> tl_windows = [window_new n], tl_watermark = n - 1 \<rparr>" "0 < n"
    by (auto simp: timeline_new_def seq_minus_def bind_eq_Some_conv split: if_splits)
  have wf: "windows_wf (tl_windows t)" by (simp add: windows_wf_def t')
  have start: "tl_start t = n" by (simp add: tl_start_def t')
  have "tl_status t k = Empty" for k
  proof (cases "covered t k")
    case True
    then have "tl_windows t ! slot_window t k = window_new n"
      using slot_window_bound(1)[OF wf True] by (simp add: t')
    then show ?thesis
      using get_status_slot[OF wf True] slot_window_bound(2)[OF wf True]
      by (auto simp: get_status_wf in_window_def window_end_def) (auto simp: window_new_def split: if_splits)
  qed (simp add: tl_status_def)
  then show ?thesis
    using wf start t' by (auto simp: tl_inv_def tl_end_def fun_eq_iff)
qed

end
