(* ===== verification/IsolationManager.thy ===== *)
theory IsolationManager
  imports Timeline Backend
begin

text \<open>
  \<^verbatim>\<open>IsolationManager\<close> of \<^verbatim>\<open>src/storage/isolation_manager.rs\<close>: opening and closing snapshots, validating a
  commit against every concurrent predecessor (those in memory and those already evicted to the log),
  applying, and loading recovered commits.  What the durability client iterates over is the argument
  \<open>disk\<close>.  A None of \<open>resolve_concurrent\<close> is a predecessor that is not decided yet, on which the source
  spins, or a panic.
\<close>

section \<open>State\<close>

record isolation_manager =
  im_initial_sequence_number :: seq
  im_timeline :: timeline
  im_highest_validated_sequence_number :: seq

definition im_new :: "seq \<Rightarrow> isolation_manager option" where
  "im_new next_sequence_number = do {
     t \<leftarrow> timeline_new next_sequence_number;
     highest \<leftarrow> seq_minus next_sequence_number 1;
     Some \<lparr> im_initial_sequence_number = next_sequence_number, im_timeline = t,
            im_highest_validated_sequence_number = highest \<rparr> }"

definition im_reset_to_watermark :: "seq \<Rightarrow> isolation_manager \<Rightarrow> isolation_manager" where
  "im_reset_to_watermark watermark self =
     (let next_seq = seq_next watermark in
      self\<lparr> im_initial_sequence_number := next_seq,
            im_timeline := timeline_new_with_watermark watermark next_seq,
            im_highest_validated_sequence_number := watermark \<rparr>)"

definition im_watermark :: "isolation_manager \<Rightarrow> seq" where
  "im_watermark self = tl_watermark (im_timeline self)"

definition im_reset :: "isolation_manager \<Rightarrow> isolation_manager option" where
  "im_reset self = do {
     t \<leftarrow> timeline_new (im_initial_sequence_number self);
     Some (self\<lparr> im_timeline := t \<rparr>) }"

section \<open>Readers\<close>

definition opened_for_read :: "seq \<Rightarrow> isolation_manager \<Rightarrow> isolation_manager option" where
  "opened_for_read n self =
     (if n \<le> im_watermark self
      then do { t \<leftarrow> record_reader n (im_timeline self); Some (self\<lparr> im_timeline := t \<rparr>) }
      else None)"

definition closed_for_read :: "seq \<Rightarrow> isolation_manager \<Rightarrow> isolation_manager option" where
  "closed_for_read n self = do { t \<leftarrow> remove_reader n (im_timeline self); Some (self\<lparr> im_timeline := t \<rparr>) }"

section \<open>Applied and recovered commits\<close>

datatype expected_window_error = ExpectedWindowError seq

definition im_applied :: "seq \<Rightarrow> isolation_manager \<Rightarrow> (expected_window_error + isolation_manager) option" where
  "im_applied n self = do {
     window \<leftarrow> try_get_window (im_timeline self) n;
     (case window of
        None \<Rightarrow> Some (Inl (ExpectedWindowError n))
      | Some i \<Rightarrow> do {
          t \<leftarrow> update_window i (set_applied n) (im_timeline self);
          t \<leftarrow> may_increment_watermark n t;
          Some (Inr (self\<lparr> im_timeline := t \<rparr>)) }) }"

definition load_validated :: "seq \<Rightarrow> commit_record \<Rightarrow> isolation_manager \<Rightarrow> isolation_manager option" where
  "load_validated n commit_record self = do {
     (t, i) \<leftarrow> get_or_create_window n (im_timeline self);
     t \<leftarrow> update_window i (insert_pending n commit_record) t;
     t \<leftarrow> update_window i (set_validated n) t;
     t \<leftarrow> may_increment_watermark n t;
     Some (self\<lparr> im_timeline := t \<rparr>) }"

definition load_aborted :: "seq \<Rightarrow> isolation_manager \<Rightarrow> isolation_manager option" where
  "load_aborted n self = do {
     (t, i) \<leftarrow> get_or_create_window n (im_timeline self);
     t \<leftarrow> update_window i (set_aborted n) t;
     t \<leftarrow> may_increment_watermark n t;
     Some (self\<lparr> im_timeline := t \<rparr>) }"

section \<open>Commit statuses on disk\<close>

datatype durability_client_error = DurabilityClientError string

record disk =
  iter_statuses :: "seq \<Rightarrow> durability_client_error + (durability_client_error + status_record) list"
  iter_commits :: "seq \<Rightarrow> durability_client_error + (durability_client_error + seq \<times> commit_record) list"

fun collect_statuses ::
    "(durability_client_error + status_record) list \<Rightarrow> (seq \<rightharpoonup> bool) \<Rightarrow> durability_client_error + (seq \<rightharpoonup> bool)" where
  "collect_statuses [] is_committed = Inr is_committed"
| "collect_statuses (Inl e # rest) is_committed = Inl e"
| "collect_statuses (Inr record' # rest) is_committed =
     collect_statuses rest
       (is_committed(sr_commit_record_sequence_number record' \<mapsto> sr_was_committed record'))"

fun statuses_until ::
    "(seq \<rightharpoonup> bool) \<Rightarrow> seq \<Rightarrow> (durability_client_error + seq \<times> commit_record) list \<Rightarrow>
     (durability_client_error + seq \<times> commit_status) list" where
  "statuses_until is_committed stop [] = []"
| "statuses_until is_committed stop (Inl err # rest) = Inl err # statuses_until is_committed stop rest"
| "statuses_until is_committed stop (Inr (n, commit_record) # rest) =
     (if stop \<le> n then []
      else Inr (n, case is_committed n of
                     None \<Rightarrow> Pending commit_record
                   | Some b \<Rightarrow> if b then Applied commit_record else Aborted)
           # statuses_until is_committed stop rest)"

definition iterate_commit_status_from_disk ::
    "disk \<Rightarrow> seq \<Rightarrow> seq \<Rightarrow> durability_client_error + (durability_client_error + seq \<times> commit_status) list" where
  "iterate_commit_status_from_disk disk start stop =
     (case iter_statuses disk start of
        Inl e \<Rightarrow> Inl e
      | Inr statuses \<Rightarrow>
          (case collect_statuses statuses Map.empty of
             Inl e \<Rightarrow> Inl e
           | Inr is_committed \<Rightarrow>
               (case iter_commits disk start of
                  Inl e \<Rightarrow> Inl e
                | Inr commits \<Rightarrow> Inr (statuses_until is_committed stop commits))))"

section \<open>Validation\<close>

text \<open>A pending, pending-on-disk, empty or merely validated record on disk is \<^verbatim>\<open>unreachable!\<close>.\<close>

fun validate_disk_loop ::
    "(durability_client_error + seq \<times> commit_status) list \<Rightarrow> commit_record \<Rightarrow>
     (durability_client_error + isolation_conflict option \<times> commit_record) option" where
  "validate_disk_loop [] commit_record = Some (Inr (None, commit_record))"
| "validate_disk_loop (Inl err # rest) commit_record = Some (Inl err)"
| "validate_disk_loop (Inr (n, commit_status) # rest) commit_record = do {
     commit_dependency \<leftarrow> (case commit_status of
         Aborted \<Rightarrow> Some Independent
       | Applied predecessor_record \<Rightarrow> Some (compute_dependency commit_record predecessor_record)
       | _ \<Rightarrow> None);
     (case handle_dependency commit_dependency commit_record of
        (Some conflict, commit_record') \<Rightarrow> Some (Inr (Some conflict, commit_record'))
      | (None, commit_record') \<Rightarrow> validate_disk_loop rest commit_record') }"

definition validate_concurrent_from_disk ::
    "disk \<Rightarrow> commit_record \<Rightarrow> seq \<Rightarrow> (durability_client_error + isolation_conflict option \<times> commit_record) option" where
  "validate_concurrent_from_disk disk commit_record stop =
     (case iterate_commit_status_from_disk disk (seq_next (cr_open_sequence_number commit_record)) stop of
        Inl e \<Rightarrow> Some (Inl e)
      | Inr statuses \<Rightarrow> validate_disk_loop statuses commit_record)"

definition resolve_concurrent ::
    "commit_record \<Rightarrow> seq \<Rightarrow> timeline_window \<Rightarrow> (isolation_conflict option \<times> commit_record) option" where
  "resolve_concurrent commit_record n window = do {
     status \<leftarrow> get_status window n;
     commit_dependency \<leftarrow> (case status of
         Empty \<Rightarrow> None
       | Pending predecessor_record \<Rightarrow>
           (case compute_dependency commit_record predecessor_record of
              Independent \<Rightarrow> Some Independent
            | result \<Rightarrow> do {
                committed \<leftarrow> await_pending_status_commits window n;
                Some (if committed then result else Independent) })
       | Validated predecessor_record \<Rightarrow> Some (compute_dependency commit_record predecessor_record)
       | Applied predecessor_record \<Rightarrow> Some (compute_dependency commit_record predecessor_record)
       | Aborted \<Rightarrow> Some Independent);
     Some (handle_dependency commit_dependency commit_record) }"

fun validate_windows_loop ::
    "timeline_window list \<Rightarrow> nat \<Rightarrow> seq list \<Rightarrow> commit_record \<Rightarrow> (isolation_conflict option \<times> commit_record) option" where
  "validate_windows_loop windows wi [] commit_record = Some (None, commit_record)"
| "validate_windows_loop windows wi (validate_against # rest) commit_record =
     (if wi < length windows then
        (case resolve_concurrent commit_record validate_against (windows ! wi) of
           None \<Rightarrow> None
         | Some (Some conflict, commit_record') \<Rightarrow> Some (Some conflict, commit_record')
         | Some (None, commit_record') \<Rightarrow>
             validate_windows_loop windows
               (if window_end (windows ! wi) \<le> validate_against + 1 then wi + 1 else wi)
               rest commit_record')
      else None)"

definition validate_concurrent_from_windows ::
    "commit_record \<Rightarrow> seq \<Rightarrow> timeline_window list \<Rightarrow> seq \<Rightarrow> (isolation_conflict option \<times> commit_record) option" where
  "validate_concurrent_from_windows commit_record commit_sequence_number windows first =
     (let start_validation_index = max (seq_next (cr_open_sequence_number commit_record)) first in
      if start_validation_index \<le> first + TIMELINE_WINDOW_SIZE
      then validate_windows_loop windows 0 [start_validation_index..<commit_sequence_number] commit_record
      else None)"

definition validate_all_concurrent ::
    "disk \<Rightarrow> seq \<Rightarrow> commit_record \<Rightarrow> timeline \<Rightarrow>
     (durability_client_error + isolation_conflict option \<times> commit_record) option" where
  "validate_all_concurrent disk commit_sequence_number commit_record t = do {
     (windows, first) \<leftarrow> collect_concurrent_windows (cr_open_sequence_number commit_record) commit_sequence_number t;
     from_disk \<leftarrow> (if seq_next (cr_open_sequence_number commit_record) < first
                   then validate_concurrent_from_disk disk commit_record first
                   else Some (Inr (None, commit_record)));
     (case from_disk of
        Inl e \<Rightarrow> Some (Inl e)
      | Inr (Some conflict, commit_record') \<Rightarrow> Some (Inr (Some conflict, commit_record'))
      | Inr (None, commit_record') \<Rightarrow>
          map_option Inr (validate_concurrent_from_windows commit_record' commit_sequence_number windows first)) }"

datatype validated_commit = CommitConflict isolation_conflict | CommitWrite write_batches

text \<open>The flags of the puts are shared between the record under validation and the record stored in the
  slot, so the record that comes out of validation is the one in the slot from then on.  The source reads the status back through the \<^verbatim>\<open>Arc\<close> it still holds after
  removing the reader, which may have freed windows; it is read here before that.\<close>

definition store_record :: "seq \<Rightarrow> commit_record \<Rightarrow> timeline_window \<Rightarrow> timeline_window option" where
  "store_record n r w = do {
     index \<leftarrow> window_index w n;
     Some (w\<lparr> tw_commit_records := (tw_commit_records w)[index := Some r] \<rparr>) }"

definition validate_commit ::
    "disk \<Rightarrow> seq \<Rightarrow> commit_record \<Rightarrow> isolation_manager \<Rightarrow>
     (isolation_manager \<times> (durability_client_error + validated_commit)) option" where
  "validate_commit disk n commit_record self = do {
     (t, i) \<leftarrow> get_or_create_window n (im_timeline self);
     t \<leftarrow> update_window i (insert_pending n commit_record) t;
     result \<leftarrow> validate_all_concurrent disk n commit_record t;
     (case result of
        Inl e \<Rightarrow> Some (self\<lparr> im_timeline := t \<rparr>, Inl e)
      | Inr (isolation_conflict, commit_record') \<Rightarrow> do {
          t \<leftarrow> update_window i (store_record n commit_record') t;
          (case isolation_conflict of
             None \<Rightarrow> do {
               t \<leftarrow> update_window i (set_validated n) t;
               status \<leftarrow> get_status (tl_windows t ! i) n;
               t \<leftarrow> remove_reader (cr_open_sequence_number commit_record') t;
               let self' = self\<lparr> im_timeline := t,
                     im_highest_validated_sequence_number := max (im_highest_validated_sequence_number self) n \<rparr>;
               (case status of
                  Validated r \<Rightarrow> Some (self', Inr (CommitWrite (from_operations n (cr_operations r))))
                | Applied r \<Rightarrow> Some (self', Inr (CommitWrite (from_operations n (cr_operations r))))
                | _ \<Rightarrow> None) }
           | Some conflict \<Rightarrow> do {
               t \<leftarrow> update_window i (set_aborted n) t;
               t \<leftarrow> may_increment_watermark n t;
               t \<leftarrow> remove_reader (cr_open_sequence_number commit_record') t;
               Some (self\<lparr> im_timeline := t \<rparr>, Inr (CommitConflict conflict)) }) }) }"


section \<open>The reference validation\<close>

text \<open>Validation against the concurrent predecessors in commit order, of which only the committed ones
  count.\<close>

fun committed_of :: "commit_status \<Rightarrow> commit_record option" where
  "committed_of (Validated r) = Some r"
| "committed_of (Applied r) = Some r"
| "committed_of _ = None"

fun is_decided :: "commit_status \<Rightarrow> bool" where
  "is_decided (Validated _) = True"
| "is_decided (Applied _) = True"
| "is_decided Aborted = True"
| "is_decided _ = False"

fun validate_against :: "commit_record option list \<Rightarrow> commit_record \<Rightarrow> isolation_conflict option \<times> commit_record" where
  "validate_against [] r = (None, r)"
| "validate_against (None # ps) r = validate_against ps r"
| "validate_against (Some p # ps) r =
     (case handle_dependency (compute_dependency r p) r of
        (Some c, r') \<Rightarrow> (Some c, r')
      | (None, r') \<Rightarrow> validate_against ps r')"

fun flag_after :: "commit_record option list \<Rightarrow> nat \<Rightarrow> bytes \<Rightarrow> buffered_write \<Rightarrow> buffered_write" where
  "flag_after [] ks key w = w"
| "flag_after (None # ps) ks key w = flag_after ps ks key w"
| "flag_after (Some p # ps) ks key w = flag_after ps ks key (write_after (cr_write p ks key) w)"

lemma flag_after_Delete [simp]: "flag_after ps ks key w = Delete \<longleftrightarrow> w = Delete"
  by (induction ps ks key w rule: flag_after.induct) auto

lemma validate_against_spec:
  assumes "cr_wf r" "\<And>p. Some p \<in> set ps \<Longrightarrow> cr_wf p"
  shows "(fst (validate_against ps r) = None) = (\<forall>p. Some p \<in> set ps \<longrightarrow> \<not> conflicts_with r p)" (is ?A)
    and "fst (validate_against ps r) = None \<Longrightarrow>
      cr_wf (snd (validate_against ps r)) \<and> cr_lock (snd (validate_against ps r)) = cr_lock r \<and>
      cr_open_sequence_number (snd (validate_against ps r)) = cr_open_sequence_number r \<and>
      (\<forall>ks key. cr_write (snd (validate_against ps r)) ks key = map_option (flag_after ps ks key) (cr_write r ks key))"
proof -
  have "(fst (validate_against ps r) = None) = (\<forall>p. Some p \<in> set ps \<longrightarrow> \<not> conflicts_with r p) \<and>
    (fst (validate_against ps r) = None \<longrightarrow>
      cr_wf (snd (validate_against ps r)) \<and> cr_lock (snd (validate_against ps r)) = cr_lock r \<and>
      cr_open_sequence_number (snd (validate_against ps r)) = cr_open_sequence_number r \<and>
      (\<forall>ks key. cr_write (snd (validate_against ps r)) ks key = map_option (flag_after ps ks key) (cr_write r ks key)))"
    using assms
  proof (induction ps r rule: validate_against.induct)
    case (1 r)
    then show ?case by (simp add: option.map_ident)
  next
    case (2 ps r)
    then show ?case by simp
  next
    case (3 p ps r)
    have p: "cr_wf p" using "3.prems" by simp
    show ?case
    proof (cases "conflicts_with r p")
      case True
      then obtain c where c: "fst (handle_dependency (compute_dependency r p) r) = Some c"
        using handle_compute_dependency_conflict[OF "3.prems"(1) p] by blast
      then have "fst (validate_against (Some p # ps) r) = Some c" by (simp add: case_prod_unfold)
      then show ?thesis using True by auto
    next
      case False
      define r' where "r' = snd (handle_dependency (compute_dependency r p) r)"
      have h: "handle_dependency (compute_dependency r p) r = (None, r')"
        using handle_compute_dependency(1)[OF "3.prems"(1) p False] by (simp add: r'_def prod_eq_iff)
      note r' = handle_compute_dependency(2-6)[OF "3.prems"(1) p False, folded r'_def]
      have same: "conflicts_with r q \<longleftrightarrow> conflicts_with r' q" for q
        by (rule conflicts_with_same_writes) (auto simp: r')
      have "validate_against (Some p # ps) r = validate_against ps r'" using h by simp
      moreover note "3.IH"[OF h[symmetric] refl r'(2)]
      ultimately show ?thesis
        using "3.prems" False same r' by (auto simp: option.map_comp comp_def)
    qed
  qed
  then show ?A "fst (validate_against ps r) = None \<Longrightarrow>
      cr_wf (snd (validate_against ps r)) \<and> cr_lock (snd (validate_against ps r)) = cr_lock r \<and>
      cr_open_sequence_number (snd (validate_against ps r)) = cr_open_sequence_number r \<and>
      (\<forall>ks key. cr_write (snd (validate_against ps r)) ks key = map_option (flag_after ps ks key) (cr_write r ks key))"
    by blast+
qed

lemma validate_against_append:
  "validate_against (ps @ qs) r =
     (case validate_against ps r of (Some c, r') \<Rightarrow> (Some c, r') | (None, r') \<Rightarrow> validate_against qs r')"
  by (induction ps r rule: validate_against.induct) (auto split: prod.splits option.splits)

section \<open>Validation computes the reference\<close>

lemma resolve_concurrent_decided:
  assumes "get_status w n = Some s" "is_decided s"
  shows "resolve_concurrent r n w =
    Some (case committed_of s of None \<Rightarrow> (None, r) | Some p \<Rightarrow> handle_dependency (compute_dependency r p) r)"
  using assms by (cases s) (auto simp: resolve_concurrent_def)

lemma slot_window_step:
  assumes "windows_wf (tl_windows t)" "covered t k" "covered t (k + 1)"
  shows "slot_window t (k + 1) =
    (if window_end (tl_windows t ! slot_window t k) \<le> k + 1 then slot_window t k + 1 else slot_window t k)"
proof -
  let ?i = "slot_window t k"
  have i: "?i < length (tl_windows t)" "in_window (tl_windows t ! ?i) k"
    using slot_window_bound[OF assms(1,2)] by auto
  note start = windows_wf_start[OF assms(1)]
  show ?thesis
  proof (cases "window_end (tl_windows t ! ?i) \<le> k + 1")
    case True
    then have "k + 1 = tl_start t + (?i + 1) * TIMELINE_WINDOW_SIZE"
      using i start[OF i(1)] by (auto simp: in_window_def window_end_def)
    then show ?thesis using True by (simp add: slot_window_def)
  next
    case False
    then have "in_window (tl_windows t ! ?i) (k + 1)" using i by (auto simp: in_window_def)
    then show ?thesis using False in_window_unique[OF assms(1) i(1)] by auto
  qed
qed

lemma validate_windows_loop_spec:
  assumes wf: "windows_wf (tl_windows t)" and n: "n \<le> tl_end t"
    and windows: "windows = map (\<lambda>i. tl_windows t ! i) [fi..<Suc li]"
    and dec: "\<And>k. s \<le> k \<Longrightarrow> k < n \<Longrightarrow> is_decided (tl_status t k)"
  shows "tl_start t \<le> s \<Longrightarrow> s \<le> n \<Longrightarrow> (s < n \<Longrightarrow> wi + fi = slot_window t s \<and> li = slot_window t (n - 1)) \<Longrightarrow>
    validate_windows_loop windows wi [s..<n] r =
      Some (validate_against (map (\<lambda>k. committed_of (tl_status t k)) [s..<n]) r)"
  using dec
proof (induction "n - s" arbitrary: s wi r)
  case 0
  then show ?case by simp
next
  case (Suc d)
  then have s: "s < n" "covered t s" using n by (auto simp: covered_def)
  have upt: "[s..<n] = s # [s + 1..<n]" using s by (simp add: upt_conv_Cons)
  have wi: "wi + fi = slot_window t s" "li = slot_window t (n - 1)" using Suc.prems s by auto
  have "slot_window t s \<le> slot_window t (n - 1)"
    using s by (auto simp: slot_window_def intro!: div_le_mono)
  then have lt: "wi < length windows" "windows ! wi = tl_windows t ! slot_window t s"
    using wi unfolding windows by (auto simp: nth_append add.commute simp del: upt_Suc)
  have st: "get_status (windows ! wi) s = Some (tl_status t s)"
    using get_status_slot[OF wf s(2)] lt by simp
  have dec: "is_decided (tl_status t s)" using Suc.prems(4)[of s] s by simp
  let ?wi = "if window_end (windows ! wi) \<le> s + 1 then wi + 1 else wi"
  have IH: "validate_windows_loop windows ?wi [s + 1..<n] r' =
      Some (validate_against (map (\<lambda>k. committed_of (tl_status t k)) [s + 1..<n]) r')" for r'
  proof (rule Suc.hyps(1))
    show "d = n - (s + 1)" "tl_start t \<le> s + 1" "s + 1 \<le> n" using Suc.hyps(2) Suc.prems s by auto
    show "?wi + fi = slot_window t (s + 1) \<and> li = slot_window t (n - 1)" if "s + 1 < n"
    proof -
      have "covered t (s + 1)" using that n Suc.prems(1) by (auto simp: covered_def)
      then show ?thesis using slot_window_step[OF wf s(2)] wi lt by auto
    qed
  qed (use Suc.prems(4) in auto)
  obtain c r' where cr: "resolve_concurrent r s (windows ! wi) = Some (c, r')"
    using resolve_concurrent_decided[OF st dec] by (metis prod.exhaust)
  show ?case
  proof (cases "committed_of (tl_status t s)")
    case None
    then show ?thesis
      using resolve_concurrent_decided[OF st dec] lt IH[of r] upt by simp
  next
    case (Some p)
    then have "handle_dependency (compute_dependency r p) r = (c, r')"
      using resolve_concurrent_decided[OF st dec] cr by simp
    then show ?thesis
      using Some lt cr IH[of r'] upt by (cases c) auto
  qed
qed


lemma validate_disk_loop_spec:
  assumes "\<And>k s. (k, s) \<in> set ds \<Longrightarrow> is_final s"
  shows "validate_disk_loop (map Inr ds) r = Some (Inr (validate_against (map (\<lambda>d. committed_of (snd d)) ds) r))"
  using assms
proof (induction ds arbitrary: r)
  case (Cons d ds)
  obtain k s where d: "d = (k, s)" by (cases d)
  have IH: "validate_disk_loop (map Inr ds) r = Some (Inr (validate_against (map (\<lambda>d. committed_of (snd d)) ds) r))" for r
    using Cons.IH[of r] Cons.prems by fastforce
  have "is_final s" using Cons.prems[of k s] d by simp
  then consider "s = Aborted" | p where "s = Applied p" by (cases s) auto
  then show ?case
  proof cases
    case 1
    then show ?thesis using IH d by simp
  next
    case (2 p)
    obtain c r' where "handle_dependency (compute_dependency r p) r = (c, r')" by (cases "handle_dependency (compute_dependency r p) r")
    then show ?thesis using 2 IH d by (cases c) auto
  qed
qed simp

text \<open>The concurrent predecessors: those evicted to the log first, then those in memory.\<close>

definition memory_preds :: "timeline \<Rightarrow> seq \<Rightarrow> seq \<Rightarrow> commit_record option list" where
  "memory_preds t opened n = map (\<lambda>k. committed_of (tl_status t k)) [max (opened + 1) (tl_start t)..<n]"

definition disk_preds :: "timeline \<Rightarrow> seq \<Rightarrow> (seq \<times> commit_status) list \<Rightarrow> commit_record option list" where
  "disk_preds t opened ds = (if opened + 1 < tl_start t then map (\<lambda>d. committed_of (snd d)) ds else [])"

definition disk_supplies :: "disk \<Rightarrow> timeline \<Rightarrow> seq \<Rightarrow> (seq \<times> commit_status) list \<Rightarrow> bool" where
  "disk_supplies disk t opened ds \<longleftrightarrow> (opened + 1 < tl_start t \<longrightarrow>
     iterate_commit_status_from_disk disk (opened + 1) (tl_start t) = Inr (map Inr ds) \<and>
     (\<forall>(k, s) \<in> set ds. is_final s))"

lemma collect_concurrent_windows_wf:
  assumes wf: "windows_wf (tl_windows t)" and "covered t n" "opened < n"
  defines "fi \<equiv> (if covered t (opened + 1) then slot_window t (opened + 1) else 0)"
    and "li \<equiv> (if covered t (n - 1) then slot_window t (n - 1) else 0)"
  shows "collect_concurrent_windows opened n t =
    Some (map (\<lambda>i. tl_windows t ! i) [fi..<Suc li], tl_start t + fi * TIMELINE_WINDOW_SIZE)"
proof -
  have "0 < length (tl_windows t)" using wf by (simp add: windows_wf_def)
  then have b: "fi < length (tl_windows t)" "li < length (tl_windows t)"
    using slot_window_bound(1)[OF wf] by (auto simp: fi_def li_def)
  have "collect_concurrent_windows opened n t =
      Some (map (\<lambda>i. tl_windows t ! i) [fi..<Suc li], tw_start (tl_windows t ! fi))"
    using assms(3) b resolve_window_wf[OF wf]
    by (auto simp: collect_concurrent_windows_def seq_next_def seq_previous_def fi_def li_def Let_def)
  then show ?thesis using windows_wf_start[OF wf b(1)] by simp
qed

lemma validate_all_concurrent_spec:
  assumes wf: "windows_wf (tl_windows t)" and cov: "covered t n" and lt: "cr_open_sequence_number r < n"
    and dec: "\<And>k. cr_open_sequence_number r < k \<Longrightarrow> tl_start t \<le> k \<Longrightarrow> k < n \<Longrightarrow> is_decided (tl_status t k)"
    and disk: "disk_supplies disk t (cr_open_sequence_number r) ds"
    and r: "cr_wf r" "\<And>p. Some p \<in> set (disk_preds t (cr_open_sequence_number r) ds) \<Longrightarrow> cr_wf p"
  shows "validate_all_concurrent disk n r t =
    Some (Inr (validate_against (disk_preds t (cr_open_sequence_number r) ds @ memory_preds t (cr_open_sequence_number r) n) r))"
proof -
  let ?o = "cr_open_sequence_number r"
  define fi where "fi = (if covered t (?o + 1) then slot_window t (?o + 1) else 0)"
  define li where "li = (if covered t (n - 1) then slot_window t (n - 1) else 0)"
  define windows where "windows = map (\<lambda>i. tl_windows t ! i) [fi..<Suc li]"
  define first where "first = tl_start t + fi * TIMELINE_WINDOW_SIZE"
  define start where "start = max (?o + 1) (tl_start t)"
  have collect: "collect_concurrent_windows ?o n t = Some (windows, first)"
    unfolding windows_def first_def fi_def li_def by (rule collect_concurrent_windows_wf[OF wf cov lt])
  have o: "?o + 1 < tl_start t \<and> fi = 0 \<and> first = tl_start t \<or>
      covered t (?o + 1) \<and> first \<le> ?o + 1 \<and> ?o + 1 < first + TIMELINE_WINDOW_SIZE"
  proof (cases "covered t (?o + 1)")
    case True
    then have "in_window (tl_windows t ! slot_window t (?o + 1)) (?o + 1)" "slot_window t (?o + 1) < length (tl_windows t)"
      using slot_window_bound[OF wf] by auto
    then show ?thesis
      using True windows_wf_start[OF wf] by (auto simp: first_def fi_def in_window_def window_end_def)
  next
    case False
    then show ?thesis using cov lt by (auto simp: covered_def fi_def first_def)
  qed
  have start: "max (?o + 1) first = start" "start \<le> first + TIMELINE_WINDOW_SIZE" "tl_start t \<le> start" "start \<le> n"
    using o cov lt by (auto simp: start_def covered_def max_def)
  have loop: "validate_windows_loop windows 0 [start..<n] r' =
      Some (validate_against (memory_preds t ?o n) r')" for r'
    unfolding memory_preds_def start_def[symmetric]
  proof (rule validate_windows_loop_spec[OF wf _ windows_def])
    show "0 + fi = slot_window t start \<and> li = slot_window t (n - 1)" if "start < n"
      using that o cov start by (auto simp: fi_def li_def start_def covered_def slot_window_def max_def)
  qed (use cov start dec in \<open>auto simp: covered_def start_def\<close>)
  have windows_spec: "validate_concurrent_from_windows r' n windows first = Some (validate_against (memory_preds t ?o n) r')"
    if "cr_open_sequence_number r' = ?o" for r'
    using that start loop by (simp add: validate_concurrent_from_windows_def seq_next_def Let_def)
  show ?thesis
  proof (cases "?o + 1 < tl_start t")
    case True
    then have f: "first = tl_start t" using o by (auto simp: covered_def)
    have d: "validate_concurrent_from_disk disk r (tl_start t) = Some (Inr (validate_against (disk_preds t ?o ds) r))"
      using disk True validate_disk_loop_spec[of ds r]
      by (auto simp: validate_concurrent_from_disk_def disk_supplies_def disk_preds_def seq_next_def)
    obtain c r' where c: "validate_against (disk_preds t ?o ds) r = (c, r')" by (cases "validate_against (disk_preds t ?o ds) r")
    have "cr_open_sequence_number r' = ?o" if "c = None"
      using validate_against_spec(2)[OF r(1), of "disk_preds t ?o ds"] r(2) c that by simp
    then show ?thesis
      using True collect f d c windows_spec[of r']
      by (cases c) (auto simp: validate_all_concurrent_def seq_next_def validate_against_append)
  next
    case False
    then have "\<not> ?o + 1 < first" using o by auto
    then show ?thesis
      using False collect windows_spec[of r]
      by (simp add: validate_all_concurrent_def seq_next_def disk_preds_def)
  qed
qed


section \<open>A whole validation\<close>

lemma store_record_wf:
  assumes "window_wf w" "in_window w n" "get_status w n = Some (Pending r0)"
  shows "\<exists>w'. store_record n r w = Some w' \<and> window_wf w' \<and> tw_start w' = tw_start w \<and> tw_readers w' = tw_readers w \<and>
    (\<forall>k. get_status w' k = (if k = n then Some (Pending r) else get_status w k))"
proof -
  let ?i = "n - tw_start w" and ?w = "w\<lparr> tw_commit_records := (tw_commit_records w)[n - tw_start w := Some r] \<rparr>"
  have i: "?i < TIMELINE_WINDOW_SIZE" using assms(2) by (auto simp: in_window_def window_end_def)
  have len: "length (tw_slot_status w) = TIMELINE_WINDOW_SIZE" "length (tw_commit_records w) = TIMELINE_WINDOW_SIZE"
    using assms(1) by (auto simp: window_wf_def)
  obtain m where m: "tw_slot_status w ! ?i = as_u8 m" using assms(1) i by (auto simp: window_wf_def)
  then have "m = SlotPending"
    using assms get_status_wf[OF assms(1), of n] by (cases m) (auto split: option.splits)
  then have slot: "slot_marker_from (tw_slot_status w ! ?i) = Some SlotPending" using m by simp
  have wf: "window_wf ?w"
    using assms(1) i m \<open>m = SlotPending\<close> unfolding window_wf_def
    by (auto simp: nth_list_update intro: exI[of _ SlotPending])
  have "get_status ?w k = (if k = n then Some (Pending r) else get_status w k)" for k
    using assms i len slot window_offset_neq[OF assms(2), of k]
    unfolding get_status_wf[OF wf] get_status_wf[OF assms(1)] by (auto simp: nth_list_update cong: option.case_cong)
  moreover have "store_record n r w = Some ?w"
    using assms by (simp add: store_record_def window_index_wf)
  ultimately show ?thesis using wf by auto
qed

lemma slot_store_record:
  assumes "windows_wf (tl_windows t)" "covered t n" "tl_status t n = Pending r0"
  shows "\<exists>t'. update_window (slot_window t n) (store_record n r) t = Some t' \<and> windows_wf (tl_windows t') \<and>
    tl_start t' = tl_start t \<and> tl_end t' = tl_end t \<and> tl_watermark t' = tl_watermark t \<and>
    tl_status t' = (tl_status t)(n := Pending r) \<and> tl_readers t' = tl_readers t"
proof -
  let ?w = "tl_windows t ! slot_window t n"
  have "window_wf ?w" "in_window ?w n" "get_status ?w n = Some (Pending r0)"
    using slot_window_bound[OF assms(1,2)] windows_wf_nth[OF assms(1)] get_status_slot[OF assms(1,2)] assms(3)
    by auto
  then obtain w' where w': "store_record n r ?w = Some w'" "window_wf w'" "tw_start w' = tw_start ?w"
      "tw_readers w' = tw_readers ?w" "\<And>k. get_status w' k = (if k = n then Some (Pending r) else get_status ?w k)"
    using store_record_wf[of ?w n r0 r] by blast
  then show ?thesis
    using update_window_status[OF assms(1,2) w'(2,3,5)] update_window_readers[OF assms(1,2) w'(3)]
    by (auto simp: update_window_def fun_eq_iff tl_readers_def)
qed

definition im_inv :: "isolation_manager \<Rightarrow> bool" where
  "im_inv im = tl_inv (im_timeline im)"

text \<open>The slots an operation leaves alone: all but one, apart from those freed below the watermark.\<close>

definition keeps_slots :: "seq \<Rightarrow> timeline \<Rightarrow> timeline \<Rightarrow> bool" where
  "keeps_slots n t t' \<longleftrightarrow> tl_start t \<le> tl_start t' \<and> (\<forall>k. k \<noteq> n \<and> tl_start t' \<le> k \<longrightarrow> tl_status t' k = tl_status t k)"

text \<open>From the free slot to the pending one.\<close>

lemma begin_commit:
  assumes "tl_inv t" "tl_watermark t < n" "tl_status t n = Empty"
  shows "\<exists>t1 t2. get_or_create_window n t = Some (t1, slot_window t n) \<and>
    update_window (slot_window t n) (insert_pending n r) t1 = Some t2 \<and> windows_wf (tl_windows t2) \<and> covered t2 n \<and>
    tl_start t2 = tl_start t \<and> tl_end t \<le> tl_end t2 \<and> tl_watermark t2 = tl_watermark t \<and>
    tl_status t2 = (tl_status t)(n := Pending r) \<and> tl_readers t2 = tl_readers t"
proof -
  note inv = tl_invD[OF assms(1)]
  have "tl_start t \<le> n" using inv(3) assms(2) by simp
  then obtain t1 where t1: "get_or_create_window n t = Some (t1, slot_window t1 n)" "windows_wf (tl_windows t1)"
      "covered t1 n" "tl_start t1 = tl_start t" "tl_end t \<le> tl_end t1" "tl_watermark t1 = tl_watermark t"
      "tl_status t1 = tl_status t" "tl_readers t1 = tl_readers t"
    using get_or_create_window_wf[OF inv(1)] by blast
  then have sw: "slot_window t1 n = slot_window t n" by (simp add: slot_window_def)
  obtain t2 where t2: "update_window (slot_window t1 n) (insert_pending n r) t1 = Some t2" "windows_wf (tl_windows t2)"
      "tl_start t2 = tl_start t1" "tl_end t2 = tl_end t1" "tl_watermark t2 = tl_watermark t1"
      "tl_status t2 = (tl_status t1)(n := Pending r)" "tl_readers t2 = tl_readers t1"
    using slot_insert_pending[OF t1(2,3)] t1(7) assms(3) by auto
  moreover have "covered t2 n" using t1(3) t2(3,4) by (simp add: covered_def)
  ultimately show ?thesis using t1 sw by auto
qed

lemma closing_reader:
  assumes inv: "tl_inv t" and start: "tl_start t0 \<le> tl_start t" "tl_inv t0"
    and o: "covered t0 o' \<longrightarrow> 0 < tl_readers t0 o'" "o' \<le> tl_watermark t0" "tl_watermark t0 \<le> tl_watermark t"
    and r: "\<And>k. tl_start t \<le> k \<Longrightarrow> tl_readers t k = tl_readers t0 k"
  shows "\<exists>t'. remove_reader o' t = Some t' \<and> tl_inv t' \<and> tl_watermark t' = tl_watermark t \<and> tl_start t \<le> tl_start t' \<and>
    tl_start t' \<le> tl_watermark t + 1 \<and> (\<forall>k. tl_start t' \<le> k \<longrightarrow> tl_status t' k = tl_status t k)"
proof -
  note i = tl_invD[OF inv]
  have "0 < tl_readers t o'" if "covered t o'"
    using that o start r[of o'] tl_invD(2)[OF start(2)] by (auto simp: covered_def)
  then obtain t' t'' where t': "remove_reader o' t = Some t'" "windows_wf (tl_windows t')" "tl_frees t'' t'"
      "tl_watermark t'' = tl_watermark t" "tl_start t'' = tl_start t" "tl_end t'' = tl_end t" "tl_status t'' = tl_status t"
    using remove_reader_wf[OF i(1,2)] by blast
  then have "tl_inv t'"
    using i unfolding tl_inv_def tl_frees_def by auto
  then show ?thesis using t' tl_invD(3)[of t'] unfolding tl_frees_def by auto
qed

text \<open>The situation in which a commit enters validation: its slot is free and above the watermark, its
  snapshot was opened at or below the watermark and is registered as a reader, every predecessor in memory
  is decided, and the log supplies the decided statuses of the evicted ones.\<close>

definition ready_to_validate ::
    "disk \<Rightarrow> (seq \<times> commit_status) list \<Rightarrow> seq \<Rightarrow> commit_record \<Rightarrow> timeline \<Rightarrow> bool" where
  "ready_to_validate disk ds n r t \<longleftrightarrow>
     tl_inv t \<and> tl_watermark t < n \<and> tl_status t n = Empty \<and>
     cr_open_sequence_number r \<le> tl_watermark t \<and>
     (covered t (cr_open_sequence_number r) \<longrightarrow> 0 < tl_readers t (cr_open_sequence_number r)) \<and>
     (\<forall>k. cr_open_sequence_number r < k \<and> tl_start t \<le> k \<and> k < n \<longrightarrow> is_decided (tl_status t k)) \<and>
     disk_supplies disk t (cr_open_sequence_number r) ds"

definition concurrent_preds :: "(seq \<times> commit_status) list \<Rightarrow> seq \<Rightarrow> commit_record \<Rightarrow> timeline \<Rightarrow> commit_record option list" where
  "concurrent_preds ds n r t =
     disk_preds t (cr_open_sequence_number r) ds @ memory_preds t (cr_open_sequence_number r) n"

lemma begin_and_validate:
  assumes ready: "ready_to_validate disk ds n r t" and wf: "cr_wf r" "\<And>p. Some p \<in> set (concurrent_preds ds n r t) \<Longrightarrow> cr_wf p"
  shows "\<exists>t1 t2 t3. get_or_create_window n t = Some (t1, slot_window t n) \<and>
    update_window (slot_window t n) (insert_pending n r) t1 = Some t2 \<and>
    validate_all_concurrent disk n r t2 = Some (Inr (validate_against (concurrent_preds ds n r t) r)) \<and>
    update_window (slot_window t n) (store_record n r') t2 = Some t3 \<and>
    windows_wf (tl_windows t3) \<and> covered t3 n \<and> tl_start t3 = tl_start t \<and> tl_end t \<le> tl_end t3 \<and>
    tl_watermark t3 = tl_watermark t \<and> tl_status t3 = (tl_status t)(n := Pending r') \<and> tl_readers t3 = tl_readers t"
proof -
  let ?o = "cr_open_sequence_number r"
  have inv: "tl_inv t" "tl_watermark t < n" "tl_status t n = Empty" "?o \<le> tl_watermark t"
    using ready by (auto simp: ready_to_validate_def)
  obtain t1 t2 where t1: "get_or_create_window n t = Some (t1, slot_window t n)"
    and t2: "update_window (slot_window t n) (insert_pending n r) t1 = Some t2" "windows_wf (tl_windows t2)" "covered t2 n"
      "tl_start t2 = tl_start t" "tl_end t \<le> tl_end t2" "tl_watermark t2 = tl_watermark t"
      "tl_status t2 = (tl_status t)(n := Pending r)" "tl_readers t2 = tl_readers t"
    using begin_commit[OF inv(1-3), of r] by blast
  have preds: "disk_preds t2 ?o ds = disk_preds t ?o ds" "memory_preds t2 ?o n = memory_preds t ?o n"
    using t2 by (auto simp: disk_preds_def memory_preds_def)
  have "validate_all_concurrent disk n r t2 = Some (Inr (validate_against (disk_preds t2 ?o ds @ memory_preds t2 ?o n) r))"
  proof (rule validate_all_concurrent_spec[OF t2(2,3)])
    show "?o < n" using inv by simp
    show "is_decided (tl_status t2 k)" if "?o < k" "tl_start t2 \<le> k" "k < n" for k
      using ready that t2 by (simp add: ready_to_validate_def)
    show "disk_supplies disk t2 ?o ds" using ready t2(4) by (simp add: ready_to_validate_def disk_supplies_def)
  qed (use wf preds in \<open>auto simp: concurrent_preds_def\<close>)
  moreover obtain t3 where "update_window (slot_window t n) (store_record n r') t2 = Some t3" "windows_wf (tl_windows t3)"
      "tl_start t3 = tl_start t2" "tl_end t3 = tl_end t2" "tl_watermark t3 = tl_watermark t2"
      "tl_status t3 = (tl_status t2)(n := Pending r')" "tl_readers t3 = tl_readers t2"
    using slot_store_record[OF t2(2,3), of r r'] t2(4,7) slot_window_cong[OF t2(4)] by auto
  ultimately show ?thesis
    using t1 t2 preds by (auto simp: concurrent_preds_def covered_def)
qed

lemma validate_commit_write:
  assumes ready: "ready_to_validate disk ds n r (im_timeline im)" and wf: "cr_wf r"
    "\<And>p. Some p \<in> set (concurrent_preds ds n r (im_timeline im)) \<Longrightarrow> cr_wf p"
    and ok: "validate_against (concurrent_preds ds n r (im_timeline im)) r = (None, r')"
  shows "\<exists>im'. validate_commit disk n r im = Some (im', Inr (CommitWrite (from_operations n (cr_operations r')))) \<and>
    im_inv im' \<and> tl_status (im_timeline im') n = Validated r' \<and> im_watermark im' = im_watermark im \<and>
    im_highest_validated_sequence_number im' = max (im_highest_validated_sequence_number im) n \<and>
    keeps_slots n (im_timeline im) (im_timeline im')"
proof -
  let ?t = "im_timeline im" and ?o = "cr_open_sequence_number r"
  have inv: "tl_inv ?t" "tl_watermark ?t < n" "?o \<le> tl_watermark ?t" "covered ?t ?o \<longrightarrow> 0 < tl_readers ?t ?o"
    using ready by (auto simp: ready_to_validate_def)
  note i = tl_invD[OF inv(1)]
  obtain t1 t2 t3 where t: "get_or_create_window n ?t = Some (t1, slot_window ?t n)"
      "update_window (slot_window ?t n) (insert_pending n r) t1 = Some t2"
      "validate_all_concurrent disk n r t2 = Some (Inr (None, r'))"
      "update_window (slot_window ?t n) (store_record n r') t2 = Some t3"
    and t3: "windows_wf (tl_windows t3)" "covered t3 n" "tl_start t3 = tl_start ?t" "tl_end ?t \<le> tl_end t3"
      "tl_watermark t3 = tl_watermark ?t" "tl_status t3 = (tl_status ?t)(n := Pending r')" "tl_readers t3 = tl_readers ?t"
    using begin_and_validate[OF ready wf, of r'] ok by auto
  obtain t4 where t4: "update_window (slot_window ?t n) (store_slot SlotValidated n) t3 = Some t4" "windows_wf (tl_windows t4)"
      "tl_start t4 = tl_start t3" "tl_end t4 = tl_end t3" "tl_watermark t4 = tl_watermark t3"
      "tl_status t4 = (tl_status t3)(n := Validated r')" "tl_readers t4 = tl_readers t3"
    using slot_store[OF t3(1,2), of r' SlotValidated] t3(6) slot_window_cong[OF t3(3)] by auto
  have c4: "covered t4 n" using t3(2) t4(3,4) by (simp add: covered_def)
  have st: "get_status (tl_windows t4 ! slot_window ?t n) n = Some (Validated r')"
    using get_status_slot[OF t4(2) c4] slot_window_cong[of t4 ?t n] t4 t3 by simp
  have inv4: "tl_inv t4" using i t3 t4 inv(2) unfolding tl_inv_def by auto
  obtain t5 where t5: "remove_reader ?o t4 = Some t5" "tl_inv t5" "tl_watermark t5 = tl_watermark t4"
      "tl_start t4 \<le> tl_start t5" "tl_start t5 \<le> tl_watermark t4 + 1" "\<forall>k. tl_start t5 \<le> k \<longrightarrow> tl_status t5 k = tl_status t4 k"
    using closing_reader[OF inv4 _ inv(1,4,3)] t3 t4 by (metis eq_refl)
  have o': "cr_open_sequence_number r' = ?o"
    using validate_against_spec(2)[OF wf(1), of "concurrent_preds ds n r ?t"] wf(2) ok by simp
  show ?thesis
    using t t4 st t5 o' t3 inv(2)
    by (auto simp: validate_commit_def set_validated_def[abs_def] im_inv_def im_watermark_def keeps_slots_def Let_def)
qed

lemma validate_commit_conflict:
  assumes ready: "ready_to_validate disk ds n r (im_timeline im)" and wf: "cr_wf r"
    "\<And>p. Some p \<in> set (concurrent_preds ds n r (im_timeline im)) \<Longrightarrow> cr_wf p"
    and bad: "validate_against (concurrent_preds ds n r (im_timeline im)) r = (Some c, r')"
      "cr_open_sequence_number r' = cr_open_sequence_number r"
  shows "\<exists>im'. validate_commit disk n r im = Some (im', Inr (CommitConflict c)) \<and> im_inv im' \<and>
    (n < tl_start (im_timeline im') \<or> tl_status (im_timeline im') n = Aborted) \<and> im_watermark im \<le> im_watermark im' \<and>
    keeps_slots n (im_timeline im) (im_timeline im')"
proof -
  let ?t = "im_timeline im" and ?o = "cr_open_sequence_number r"
  have inv: "tl_inv ?t" "tl_watermark ?t < n" "?o \<le> tl_watermark ?t" "covered ?t ?o \<longrightarrow> 0 < tl_readers ?t ?o"
    using ready by (auto simp: ready_to_validate_def)
  note i = tl_invD[OF inv(1)]
  obtain t1 t2 t3 where t: "get_or_create_window n ?t = Some (t1, slot_window ?t n)"
      "update_window (slot_window ?t n) (insert_pending n r) t1 = Some t2"
      "validate_all_concurrent disk n r t2 = Some (Inr (Some c, r'))"
      "update_window (slot_window ?t n) (store_record n r') t2 = Some t3"
    and t3: "windows_wf (tl_windows t3)" "covered t3 n" "tl_start t3 = tl_start ?t" "tl_end ?t \<le> tl_end t3"
      "tl_watermark t3 = tl_watermark ?t" "tl_status t3 = (tl_status ?t)(n := Pending r')" "tl_readers t3 = tl_readers ?t"
    using begin_and_validate[OF ready wf, of r'] bad(1) by auto
  obtain t4 where t4: "update_window (slot_window ?t n) (store_slot SlotAborted n) t3 = Some t4" "windows_wf (tl_windows t4)"
      "tl_start t4 = tl_start t3" "tl_end t4 = tl_end t3" "tl_watermark t4 = tl_watermark t3"
      "tl_status t4 = (tl_status t3)(n := Aborted)" "tl_readers t4 = tl_readers t3"
    using slot_store[OF t3(1,2), of r' SlotAborted] t3(6) slot_window_cong[OF t3(3)] by auto
  have inv4: "tl_inv t4" using i t3 t4 inv(2) unfolding tl_inv_def by auto
  obtain t5 where t5: "may_increment_watermark n t4 = Some t5" "tl_inv t5" "tl_watermark t4 \<le> tl_watermark t5"
      "tl_frees (t4\<lparr> tl_watermark := tl_watermark t5 \<rparr>) t5"
    using may_increment_watermark_wf[OF inv4, of n] inv(2) by auto
  have f: "tl_start t4 \<le> tl_start t5" "\<And>k. tl_start t5 \<le> k \<Longrightarrow> tl_status t5 k = tl_status t4 k"
      "\<And>k. tl_start t5 \<le> k \<Longrightarrow> tl_readers t5 k = tl_readers t4 k"
    using t5(4) by (auto simp: tl_frees_def)
  obtain t6 where t6: "remove_reader ?o t5 = Some t6" "tl_inv t6" "tl_watermark t6 = tl_watermark t5"
      "tl_start t5 \<le> tl_start t6" "\<forall>k. tl_start t6 \<le> k \<longrightarrow> tl_status t6 k = tl_status t5 k"
    using closing_reader[OF t5(2) _ inv(1,4,3)] t3 t4 f t5(3) by (metis order.trans)
  have "n < tl_start t6 \<or> tl_status t6 n = Aborted"
    using t6(4,5) f(2)[of n] t4(6) by (cases "tl_start t6 \<le> n") auto
  then show ?thesis
    using t t4 t5 t6 bad(2) t3 f
    by (auto simp: validate_commit_def set_aborted_def[abs_def] im_inv_def im_watermark_def keeps_slots_def)
qed


lemma handle_dependency_open [simp]:
  "cr_open_sequence_number (snd (handle_dependency d r)) = cr_open_sequence_number r"
  by (cases d) auto

lemma validate_against_open:
  "cr_open_sequence_number (snd (validate_against ps r)) = cr_open_sequence_number r"
proof (induction ps r rule: validate_against.induct)
  case (3 p ps r)
  obtain c r' where h: "handle_dependency (compute_dependency r p) r = (c, r')"
    by (cases "handle_dependency (compute_dependency r p) r")
  have "cr_open_sequence_number r' = cr_open_sequence_number r"
    using handle_dependency_open[of "compute_dependency r p" r] h by simp
  then show ?case using 3 h by (cases c) auto
qed auto

section \<open>Applying a commit\<close>

lemma im_applied_wf:
  assumes "im_inv im" "im_watermark im < n" "tl_status (im_timeline im) n = Validated r"
  shows "\<exists>im'. im_applied n im = Some (Inr im') \<and> im_inv im' \<and> keeps_slots n (im_timeline im) (im_timeline im') \<and>
    tl_start (im_timeline im') \<le> max (tl_start (im_timeline im)) (im_watermark im') \<and>
    (n < tl_start (im_timeline im') \<or> tl_status (im_timeline im') n = Applied r) \<and>
    (im_watermark im + 1 \<noteq> n \<longrightarrow> im_watermark im' = im_watermark im) \<and>
    (im_watermark im + 1 = n \<longrightarrow> n \<le> im_watermark im' \<and>
       \<not> is_final (tl_status (im_timeline im) (im_watermark im' + 1)) \<and>
       (\<forall>k. n < k \<and> k \<le> im_watermark im' \<longrightarrow> is_final (tl_status (im_timeline im) k)))"
proof -
  let ?t = "im_timeline im"
  note i = tl_invD[OF assms(1)[unfolded im_inv_def]]
  have cov: "covered ?t n" using assms(3) by (auto simp: tl_status_def split: if_splits)
  obtain t1 where t1: "update_window (slot_window ?t n) (store_slot SlotApplied n) ?t = Some t1" "windows_wf (tl_windows t1)"
      "tl_start t1 = tl_start ?t" "tl_end t1 = tl_end ?t" "tl_watermark t1 = tl_watermark ?t"
      "tl_status t1 = (tl_status ?t)(n := Applied r)" "tl_readers t1 = tl_readers ?t"
    using slot_store[OF i(1) cov, of r SlotApplied] assms(3) by auto
  have inv1: "tl_inv t1" using i t1 assms(2) unfolding tl_inv_def im_watermark_def by auto
  obtain t2 where t2: "may_increment_watermark n t1 = Some t2" "tl_inv t2" "tl_watermark t1 + 1 \<noteq> n \<longrightarrow> t2 = t1"
      "tl_watermark t1 + 1 = n \<longrightarrow> \<not> is_final (tl_status t1 (tl_watermark t2 + 1)) \<and> tl_watermark t1 \<le> tl_watermark t2 \<and>
        (\<forall>k. tl_watermark t1 < k \<and> k \<le> tl_watermark t2 \<longrightarrow> is_final (tl_status t1 k))"
      "tl_frees (t1\<lparr> tl_watermark := tl_watermark t2 \<rparr>) t2"
    using may_increment_watermark_wf[OF inv1, of n] assms(2) by auto
  have ret: "im_applied n im = Some (Inr (im\<lparr> im_timeline := t2 \<rparr>))"
    using t1(1) t2(1) cov try_get_window_wf[OF i(1), of n] by (simp add: im_applied_def set_applied_def[abs_def])
  have f: "tl_start t1 \<le> tl_start t2" "tl_start t2 \<le> max (tl_start t1) (tl_watermark t2)"
      "\<And>k. tl_start t2 \<le> k \<Longrightarrow> tl_status t2 k = tl_status t1 k"
    using t2(5) by (auto simp: tl_frees_def)
  have "n \<le> tl_watermark t2 \<and> \<not> is_final (tl_status ?t (tl_watermark t2 + 1)) \<and>
       (\<forall>k. n < k \<and> k \<le> tl_watermark t2 \<longrightarrow> is_final (tl_status ?t k))" if wm: "tl_watermark ?t + 1 = n"
  proof -
    have w: "\<not> is_final (tl_status t1 (tl_watermark t2 + 1))" "tl_watermark ?t \<le> tl_watermark t2"
        "\<And>k. tl_watermark ?t < k \<Longrightarrow> k \<le> tl_watermark t2 \<Longrightarrow> is_final (tl_status t1 k)"
      using t2(4) t1(5) wm by auto
    have "tl_watermark t2 + 1 \<noteq> n" using w(1) t1(6) by (metis fun_upd_same is_final.simps(2))
    moreover have "is_final (tl_status ?t k)" if "n < k" "k \<le> tl_watermark t2" for k
      using w(3)[of k] t1(6) wm that by simp
    ultimately show ?thesis using w t1(6) wm by auto
  qed
  moreover have "n < tl_start t2 \<or> tl_status t2 n = Applied r" using f(3)[of n] t1(6) by (cases "tl_start t2 \<le> n") auto
  ultimately show ?thesis
    using ret t2 t1 f by (auto simp: im_inv_def im_watermark_def keeps_slots_def)
qed

section \<open>Recovered commits\<close>

lemma load_validated_wf:
  assumes "im_inv im" "im_watermark im < n" "tl_status (im_timeline im) n = Empty"
  shows "\<exists>im'. load_validated n r im = Some im' \<and> im_inv im' \<and> tl_status (im_timeline im') n = Validated r \<and>
    im_watermark im' = im_watermark im \<and> keeps_slots n (im_timeline im) (im_timeline im')"
proof -
  let ?t = "im_timeline im"
  note inv = assms(1)[unfolded im_inv_def] and i = tl_invD[OF assms(1)[unfolded im_inv_def]]
  obtain t1 t2 where t1: "get_or_create_window n ?t = Some (t1, slot_window ?t n)"
    and t2: "update_window (slot_window ?t n) (insert_pending n r) t1 = Some t2" "windows_wf (tl_windows t2)" "covered t2 n"
      "tl_start t2 = tl_start ?t" "tl_end ?t \<le> tl_end t2" "tl_watermark t2 = tl_watermark ?t"
      "tl_status t2 = (tl_status ?t)(n := Pending r)"
    using begin_commit[OF inv, of n r] assms(2,3) by (auto simp: im_watermark_def)
  obtain t3 where t3: "update_window (slot_window ?t n) (store_slot SlotValidated n) t2 = Some t3" "windows_wf (tl_windows t3)"
      "tl_start t3 = tl_start t2" "tl_end t3 = tl_end t2" "tl_watermark t3 = tl_watermark t2"
      "tl_status t3 = (tl_status t2)(n := Validated r)"
    using slot_store[OF t2(2,3), of r SlotValidated] t2(7) slot_window_cong[OF t2(4)] by auto
  have inv3: "tl_inv t3" using i t2 t3 assms(2) unfolding tl_inv_def im_watermark_def by auto
  obtain t4 where t4: "may_increment_watermark n t3 = Some t4" "tl_inv t4" "tl_watermark t3 + 1 \<noteq> n \<longrightarrow> t4 = t3"
      "tl_watermark t3 + 1 = n \<longrightarrow> tl_watermark t3 \<le> tl_watermark t4 \<and>
        (\<forall>k. tl_watermark t3 < k \<and> k \<le> tl_watermark t4 \<longrightarrow> is_final (tl_status t3 k))"
      "tl_frees (t3\<lparr> tl_watermark := tl_watermark t4 \<rparr>) t4"
    using may_increment_watermark_wf[OF inv3, of n] assms(2) by auto
  have wm: "tl_watermark t4 = tl_watermark t3"
  proof (rule ccontr)
    assume "tl_watermark t4 \<noteq> tl_watermark t3"
    then have "is_final (tl_status t3 n)" using t4(3,4) by (cases "tl_watermark t3 + 1 = n") auto
    then show False using t3(6) by simp
  qed
  have "tl_start t4 \<le> n" using t4(2) wm t3 t2 assms(2) tl_invD(3)[of t4] by (simp add: im_watermark_def)
  then show ?thesis
    using t1 t2 t3 t4 wm
    by (auto simp: load_validated_def set_validated_def[abs_def] im_inv_def im_watermark_def keeps_slots_def tl_frees_def)
qed

text \<open>Loading an aborted commit stores no record, and reading a decided slot unwraps its record.\<close>

lemma try_get_window_same_starts:
  assumes "i < length (tl_windows t)" "tw_start w = tw_start (tl_windows t ! i)"
  shows "try_get_window (t\<lparr> tl_windows := (tl_windows t)[i := w] \<rparr>) n = try_get_window t n"
proof -
  let ?ws = "tl_windows t"
  have ne: "?ws \<noteq> []" "?ws[i := w] \<noteq> []" using assms(1) by auto
  have "tw_start (hd (?ws[i := w])) = tw_start (hd ?ws)"
    using assms ne by (cases "i = 0") (auto simp: hd_conv_nth)
  moreover have "window_end (last (?ws[i := w])) = window_end (last ?ws)"
    using assms ne by (cases "i = length ?ws - 1") (auto simp: window_end_def last_conv_nth nth_list_update)
  moreover have "resolve_window ws n = (if ws = [] then None else
      Some (if tw_start (hd ws) \<le> n \<and> n < window_end (last ws) then Some ((n - tw_start (hd ws)) div TIMELINE_WINDOW_SIZE) else None))" for ws
    by (cases ws) (auto simp: resolve_window_def Let_def)
  ultimately show ?thesis using ne by (simp add: try_get_window_def)
qed

lemma empty_slot_no_record:
  assumes "window_wf w" "in_window w n" "get_status w n = Some Empty"
  shows "tw_commit_records w ! (n - tw_start w) = None"
proof -
  have "n - tw_start w < TIMELINE_WINDOW_SIZE" using assms(2) by (auto simp: in_window_def window_end_def)
  then obtain m where "tw_slot_status w ! (n - tw_start w) = as_u8 m"
      "m = SlotEmpty \<longleftrightarrow> tw_commit_records w ! (n - tw_start w) = None"
    using assms(1) by (auto simp: window_wf_def)
  then show ?thesis
    using assms by (cases m) (auto simp: get_status_wf split: option.splits)
qed

lemma load_aborted_panics_lemma:
  assumes "im_inv im" "im_watermark im + 1 = n" "tl_status (im_timeline im) n = Empty"
  shows "load_aborted n im = None"
proof -
  let ?t = "im_timeline im"
  note i = tl_invD[OF assms(1)[unfolded im_inv_def]]
  obtain t1 where t1: "get_or_create_window n ?t = Some (t1, slot_window t1 n)" "windows_wf (tl_windows t1)"
      "covered t1 n" "tl_watermark t1 = tl_watermark ?t" "tl_status t1 = tl_status ?t"
    using get_or_create_window_wf[OF i(1), of n] i(3) assms(2) by (auto simp: im_watermark_def)
  let ?j = "slot_window t1 n" and ?w = "tl_windows t1 ! slot_window t1 n"
  have w: "window_wf ?w" "in_window ?w n" "?j < length (tl_windows t1)"
    using slot_window_bound[OF t1(2,3)] windows_wf_nth[OF t1(2)] by auto
  have "get_status ?w n = Some Empty" using get_status_slot[OF t1(2,3)] t1(5) assms(3) by simp
  then have none: "tw_commit_records ?w ! (n - tw_start ?w) = None"
    using empty_slot_no_record[OF w(1,2)] by simp
  define w' where "w' = ?w\<lparr> tw_slot_status := (tw_slot_status ?w)[n - tw_start ?w := as_u8 SlotAborted] \<rparr>"
  define t2 where "t2 = t1\<lparr> tl_windows := (tl_windows t1)[?j := w'] \<rparr>"
  have idx: "window_index ?w n = Some (n - tw_start ?w)" using w by (simp add: window_index_wf)
  then have upd: "update_window ?j (set_aborted n) t1 = Some t2"
    by (simp add: update_window_def set_aborted_def store_slot_def t2_def w'_def)
  have "window_index w' n = Some (n - tw_start ?w)" "tw_slot_status w' ! (n - tw_start ?w) = as_u8 SlotAborted"
    using idx w by (auto simp: window_index_def w'_def bind_eq_Some_conv seq_minus_def split: if_splits)
  then have st: "get_status (tl_windows t2 ! ?j) n = None"
    using none w(3) by (simp add: get_status_def t2_def w'_def)
  have "try_get_window t2 n = try_get_window t1 n"
    unfolding t2_def by (rule try_get_window_same_starts) (use w in \<open>auto simp: w'_def\<close>)
  then have "try_get_window t2 n = Some (Some ?j)" using try_get_window_wf[OF t1(2), of n] t1(3) by simp
  moreover have "tl_watermark t2 = n - 1" using t1(4) assms(2) by (simp add: t2_def im_watermark_def)
  moreover have "watermark_loop t2 n (Some ?j) = None"
    using st w(3) by (subst watermark_loop.simps) (simp add: t2_def)
  ultimately have "may_increment_watermark n t2 = None"
    using assms(2) by (simp add: may_increment_watermark_def seq_minus_def)
  then show ?thesis using t1(1) upd by (simp add: load_aborted_def)
qed


section \<open>Reachable states\<close>

text \<open>The states the storage drives the isolation manager through: snapshots open and close, commits are
  validated in their free slot, validated commits are applied, and recovered commits are loaded.\<close>

inductive reachable :: "isolation_manager \<Rightarrow> bool" where
  new: "im_new n = Some im \<Longrightarrow> reachable im"
| opened: "reachable im \<Longrightarrow> opened_for_read n im = Some im' \<Longrightarrow> reachable im'"
| closed: "reachable im \<Longrightarrow> closed_for_read n im = Some im' \<Longrightarrow> reachable im'"
| validated:
    "reachable im \<Longrightarrow> ready_to_validate disk ds n r (im_timeline im) \<Longrightarrow> cr_wf r \<Longrightarrow>
     \<forall>p. Some p \<in> set (disk_preds (im_timeline im) (cr_open_sequence_number r) ds) \<longrightarrow> cr_wf p \<Longrightarrow>
     validate_commit disk n r im = Some (im', res) \<Longrightarrow> reachable im'"
| applied:
    "reachable im \<Longrightarrow> im_watermark im < n \<Longrightarrow> tl_status (im_timeline im) n = Validated r \<Longrightarrow>
     im_applied n im = Some (Inr im') \<Longrightarrow> reachable im'"
| loaded:
    "reachable im \<Longrightarrow> im_watermark im < n \<Longrightarrow> tl_status (im_timeline im) n = Empty \<Longrightarrow> cr_wf r \<Longrightarrow>
     load_validated n r im = Some im' \<Longrightarrow> reachable im'"

definition slots_wf :: "timeline \<Rightarrow> bool" where
  "slots_wf t \<longleftrightarrow> (\<forall>k r. status_record_of (tl_status t k) = Some r \<longrightarrow> cr_wf r)"

lemma slots_wf_keeps:
  assumes "slots_wf t" "keeps_slots n t t'" "tl_status t' n = s" "\<And>r. status_record_of s = Some r \<Longrightarrow> cr_wf r"
  shows "slots_wf t'"
  unfolding slots_wf_def
proof (intro allI impI)
  fix k r assume k: "status_record_of (tl_status t' k) = Some r"
  then have "tl_start t' \<le> k" using tl_status_below[of k t'] by (cases "k < tl_start t'") auto
  then show "cr_wf r" using assms k by (cases "k = n") (auto simp: keeps_slots_def slots_wf_def)
qed

lemma preds_wf:
  assumes "slots_wf t" "\<forall>p. Some p \<in> set (disk_preds t (cr_open_sequence_number r) ds) \<longrightarrow> cr_wf p"
  shows "Some p \<in> set (concurrent_preds ds n r t) \<Longrightarrow> cr_wf p"
proof -
  have "cr_wf q" if "committed_of (tl_status t k) = Some q" for q k
    using assms(1) that by (cases "tl_status t k") (auto simp: slots_wf_def dest: spec[of _ k])
  then show "Some p \<in> set (concurrent_preds ds n r t) \<Longrightarrow> cr_wf p"
    using assms(2) unfolding concurrent_preds_def memory_preds_def by auto
qed

lemma opened_for_read_wf:
  assumes "im_inv im" "opened_for_read n im = Some im'"
  shows "im_inv im' \<and> tl_status (im_timeline im') = tl_status (im_timeline im) \<and> im_watermark im' = im_watermark im"
proof -
  note i = tl_invD[OF assms(1)[unfolded im_inv_def]]
  obtain t where "record_reader n (im_timeline im) = Some t" "windows_wf (tl_windows t)" "tl_start t = tl_start (im_timeline im)"
    "tl_end t = tl_end (im_timeline im)" "tl_watermark t = tl_watermark (im_timeline im)" "tl_status t = tl_status (im_timeline im)"
    using record_reader_wf[OF i(1)] by blast
  then show ?thesis
    using assms(2) i by (auto simp: opened_for_read_def im_inv_def tl_inv_def im_watermark_def split: if_splits)
qed

lemma closed_for_read_wf:
  assumes "im_inv im" "closed_for_read n im = Some im'"
  shows "im_inv im' \<and> im_watermark im' = im_watermark im \<and>
    (\<forall>k. tl_start (im_timeline im') \<le> k \<longrightarrow> tl_status (im_timeline im') k = tl_status (im_timeline im) k)"
proof -
  let ?t = "im_timeline im"
  note i = tl_invD[OF assms(1)[unfolded im_inv_def]]
  have "0 < tl_readers ?t n" if "covered ?t n"
    using assms(2) that try_get_window_wf[OF i(1), of n]
    by (auto simp: closed_for_read_def remove_reader_def decrement_readers_def tl_readers_def bind_eq_Some_conv split: if_splits)
  then obtain t' t'' where "remove_reader n ?t = Some t'" "windows_wf (tl_windows t')" "tl_frees t'' t'"
    "tl_watermark t'' = tl_watermark ?t" "tl_start t'' = tl_start ?t" "tl_end t'' = tl_end ?t" "tl_status t'' = tl_status ?t"
    using remove_reader_wf[OF i(1,2)] by blast
  then show ?thesis
    using assms(2) i by (auto simp: closed_for_read_def im_inv_def im_watermark_def tl_inv_def tl_frees_def)
qed

lemma slots_wf_status:
  "slots_wf t \<Longrightarrow> \<forall>k. tl_start t' \<le> k \<longrightarrow> tl_status t' k = tl_status t k \<Longrightarrow> slots_wf t'"
  unfolding slots_wf_def using tl_status_below[of _ t'] by (metis not_le_imp_less status_record_of.simps(4) option.distinct(1))

lemma validate_commit_cases:
  assumes "ready_to_validate disk ds n r (im_timeline im)" "cr_wf r"
    "\<And>p. Some p \<in> set (concurrent_preds ds n r (im_timeline im)) \<Longrightarrow> cr_wf p"
  obtains (ok) im' r' where "validate_commit disk n r im = Some (im', Inr (CommitWrite (from_operations n (cr_operations r'))))"
      "im_inv im'" "tl_status (im_timeline im') n = Validated r'" "keeps_slots n (im_timeline im) (im_timeline im')"
      "validate_against (concurrent_preds ds n r (im_timeline im)) r = (None, r')" "cr_wf r'"
  | (conflict) im' c r' where "validate_commit disk n r im = Some (im', Inr (CommitConflict c))" "im_inv im'"
      "n < tl_start (im_timeline im') \<or> tl_status (im_timeline im') n = Aborted"
      "keeps_slots n (im_timeline im) (im_timeline im')"
      "validate_against (concurrent_preds ds n r (im_timeline im)) r = (Some c, r')"
proof -
  let ?ps = "concurrent_preds ds n r (im_timeline im)"
  obtain c r' where v: "validate_against ?ps r = (c, r')" by (cases "validate_against ?ps r")
  show ?thesis
  proof (cases c)
    case None
    then have "cr_wf r'" using validate_against_spec(2)[OF assms(2), of ?ps] assms(3) v by simp
    then show ?thesis using validate_commit_write[OF assms] v None ok by blast
  next
    case (Some d)
    have "cr_open_sequence_number r' = cr_open_sequence_number r" using validate_against_open[of ?ps r] v by simp
    then show ?thesis using validate_commit_conflict[OF assms] v Some conflict by blast
  qed
qed

lemma reachable_inv: "reachable im \<Longrightarrow> im_inv im \<and> slots_wf (im_timeline im)"
proof (induction rule: reachable.induct)
  case (new n im)
  then obtain t where t: "timeline_new n = Some t" "im_timeline im = t"
    by (auto simp: im_new_def bind_eq_Some_conv)
  then show ?case using tl_inv_new[OF t(1)] by (auto simp: im_inv_def slots_wf_def)
next
  case (opened im n im')
  then show ?case using opened_for_read_wf[of im n im'] by (auto simp: slots_wf_def)
next
  case (closed im n im')
  then show ?case using closed_for_read_wf[of im n im'] slots_wf_status by blast
next
  case (validated im disk ds n r im' res)
  then have "\<And>p. Some p \<in> set (concurrent_preds ds n r (im_timeline im)) \<Longrightarrow> cr_wf p" using preds_wf by blast
  then show ?case
  proof (rule validate_commit_cases[OF validated(2,3)], goal_cases)
    case (2 im'' r')
    then show ?case
      using validated slots_wf_keeps[of "im_timeline im" n "im_timeline im''" "Validated r'"] by auto
  next
    case (3 im'' c r')
    have "slots_wf (im_timeline im'')"
      using 3 validated tl_status_below[of n "im_timeline im''"]
        slots_wf_keeps[of "im_timeline im" n "im_timeline im''" "tl_status (im_timeline im'') n"] by force
    then show ?case using 3 validated by auto
  qed
next
  case (applied im n r im')
  then obtain im'' where a: "im_applied n im = Some (Inr im'')" "im_inv im''" "keeps_slots n (im_timeline im) (im_timeline im'')"
      "n < tl_start (im_timeline im'') \<or> tl_status (im_timeline im'') n = Applied r"
    using im_applied_wf[of im n r] by blast
  have "cr_wf r" using applied by (auto simp: slots_wf_def dest!: spec[of _ n])
  then have "slots_wf (im_timeline im'')"
    using a applied tl_status_below[of n "im_timeline im''"]
      slots_wf_keeps[of "im_timeline im" n "im_timeline im''" "tl_status (im_timeline im'') n"] by force
  then show ?case using a applied by simp
next
  case (loaded im n r im')
  then obtain im'' where a: "load_validated n r im = Some im''" "im_inv im''" "tl_status (im_timeline im'') n = Validated r"
      "keeps_slots n (im_timeline im) (im_timeline im'')"
    using load_validated_wf[of im n r] by blast
  then have "slots_wf (im_timeline im'')"
    using loaded slots_wf_keeps[of "im_timeline im" n "im_timeline im''" "Validated r"] by auto
  then show ?case using a loaded by simp
qed


section \<open>Properties\<close>


definition no_disk :: disk where
  "no_disk = \<lparr> iter_statuses = (\<lambda>_. Inr []), iter_commits = (\<lambda>_. Inr []) \<rparr>"

text \<open>Two snapshots open on an empty store; the first deletes a key and commits, the second puts it.\<close>

lemma example_first_commit:
  "\<exists>im0 im1. im_new 1 = Some im0 \<and> reachable im1 \<and>
     validate_commit no_disk 1 example_delete im0 = Some (im1, Inr (CommitWrite (from_operations 1 (cr_operations example_delete)))) \<and>
     tl_status (im_timeline im1) 1 = Validated example_delete \<and> tl_status (im_timeline im1) 2 = Empty \<and>
     im_watermark im1 = 0 \<and> tl_start (im_timeline im1) = 1 \<and> tl_inv (im_timeline im1)"
proof -
  obtain im0 t where im0: "im_new 1 = Some im0" "timeline_new 1 = Some t" "im_timeline im0 = t"
    by (auto simp: im_new_def timeline_new_def seq_minus_def)
  note t = tl_inv_new[OF im0(2)]
  have ready: "ready_to_validate no_disk [] 1 example_delete (im_timeline im0)"
    using t im0(3) unfolding ready_to_validate_def disk_supplies_def covered_def
    by (simp add: example_delete_def commit_record_new_def)
  have ps: "concurrent_preds [] 1 example_delete (im_timeline im0) = []"
    using t im0(3) by (simp add: concurrent_preds_def disk_preds_def memory_preds_def)
  obtain im1 where im1: "validate_commit no_disk 1 example_delete im0 =
      Some (im1, Inr (CommitWrite (from_operations 1 (cr_operations example_delete))))"
      "im_inv im1" "tl_status (im_timeline im1) 1 = Validated example_delete" "im_watermark im1 = im_watermark im0"
      "keeps_slots 1 (im_timeline im0) (im_timeline im1)"
    using validate_commit_write[OF ready example_records_wf(2), of example_delete] ps by auto
  have "reachable im1"
    using reachable.validated[OF reachable.new[OF im0(1)] ready example_records_wf(2) _ im1(1)]
    by (simp add: disk_preds_def)
  moreover have "tl_start (im_timeline im1) = 1"
    using im1(2,4,5) t im0(3) tl_invD(3)[of "im_timeline im1"] by (auto simp: keeps_slots_def im_inv_def im_watermark_def)
  ultimately show ?thesis
    using im0 im1 t by (auto simp: keeps_slots_def im_inv_def im_watermark_def)
qed


lemma example_applied:
  "\<exists>im. reachable im \<and> im_watermark im = 1 \<and> tl_start (im_timeline im) \<le> 1"
proof -
  obtain im1 where im1: "reachable im1" "tl_status (im_timeline im1) 1 = Validated example_delete"
      "tl_status (im_timeline im1) 2 = Empty" "im_watermark im1 = 0" "tl_start (im_timeline im1) = 1" "tl_inv (im_timeline im1)"
    using example_first_commit by blast
  have iv: "im_inv im1" using im1(6) by (simp add: im_inv_def)
  obtain im2 where im2: "im_applied 1 im1 = Some (Inr im2)" "1 \<le> im_watermark im2"
      "\<forall>k. 1 < k \<and> k \<le> im_watermark im2 \<longrightarrow> is_final (tl_status (im_timeline im1) k)" "im_inv im2"
      "tl_start (im_timeline im2) \<le> max (tl_start (im_timeline im1)) (im_watermark im2)"
    using im_applied_wf[OF iv, of 1 example_delete] im1 by auto
  have "\<not> 2 \<le> im_watermark im2" using im2(3)[rule_format, of 2] im1(3) by auto
  then have wm: "im_watermark im2 = 1" using im2(2) by simp
  have r: "reachable im2" using reachable.applied[OF im1(1) _ im1(2) im2(1)] im1(4) by simp
  have "tl_start (im_timeline im2) \<le> 1" using im2(5) wm im1(5) by simp
  then show ?thesis using r wm by blast
qed

text \<open>C7: the watermark invariant.  In every state the isolation manager can reach, every slot at or below
  the watermark that is still in memory is aborted or applied, so a snapshot opened at the watermark never
  misses a commit that is still being written.\<close>

theorem watermark_invariant:
  assumes "reachable im" and "tl_start (im_timeline im) \<le> n" and "n \<le> im_watermark im"
  shows "is_final (tl_status (im_timeline im) n)"
  using reachable_inv[OF assms(1)] tl_invD(4)[of "im_timeline im" n] assms(2,3)
  by (simp add: im_inv_def im_watermark_def)

theorem watermark_invariant_witness:
  "\<exists>im. reachable im \<and> im_watermark im = 1 \<and> is_final (tl_status (im_timeline im) 1)"
  using example_applied watermark_invariant[of _ 1] by auto

text \<open>C16: applying a validated commit.  The commit's slot becomes applied and no other slot in memory
  changes; the watermark moves only when the commit is the next one after it, and then over the commit and
  exactly the decided commits that follow it without a gap.\<close>

theorem applied_advances_watermark:
  assumes "reachable im" and "im_watermark im < n" and "tl_status (im_timeline im) n = Validated r"
  shows "\<exists>im'. im_applied n im = Some (Inr im') \<and> reachable im' \<and> keeps_slots n (im_timeline im) (im_timeline im') \<and>
    (n < tl_start (im_timeline im') \<or> tl_status (im_timeline im') n = Applied r) \<and>
    (im_watermark im + 1 \<noteq> n \<longrightarrow> im_watermark im' = im_watermark im) \<and>
    (im_watermark im + 1 = n \<longrightarrow> n \<le> im_watermark im' \<and>
       \<not> is_final (tl_status (im_timeline im) (im_watermark im' + 1)) \<and>
       (\<forall>k. n < k \<and> k \<le> im_watermark im' \<longrightarrow> is_final (tl_status (im_timeline im) k)))"
  using im_applied_wf[OF _ assms(2,3)] reachable_inv[OF assms(1)] reachable.applied[OF assms] by blast

theorem applied_advances_watermark_witness:
  "\<exists>im im'. im_applied 1 im = Some (Inr im') \<and> im_watermark im = 0 \<and> im_watermark im' = 1"
proof -
  obtain im1 where im1: "reachable im1" "tl_status (im_timeline im1) 1 = Validated example_delete"
      "tl_status (im_timeline im1) 2 = Empty" "im_watermark im1 = 0"
    using example_first_commit by blast
  obtain im2 where im2: "im_applied 1 im1 = Some (Inr im2)" "1 \<le> im_watermark im2"
      "\<forall>k. 1 < k \<and> k \<le> im_watermark im2 \<longrightarrow> is_final (tl_status (im_timeline im1) k)"
    using applied_advances_watermark[OF im1(1) _ im1(2)] im1(4) by auto
  have "\<not> 2 \<le> im_watermark im2" using im2(3)[rule_format, of 2] im1(3) by auto
  then show ?thesis using im2 im1(4) by (intro exI[of _ im1] exI[of _ im2]) simp
qed





end
