(* ===== verification/Durability.thy ===== *)
theory Durability
  imports IsolationManager
begin

text \<open>
  The durability client (\<^verbatim>\<open>src/storage/durability_client.rs\<close>): the trait \<^verbatim>\<open>DurabilityClient\<close> is a record of
  operations on the state of a client, what the storage relies on is the locale \<open>durability_client\<close>, and the
  in-memory \<^verbatim>\<open>NoopDurabilityClient\<close>, which hands out sequence numbers and forgets the records, interprets it.
  Serialisation of the records belongs to \<^verbatim>\<open>bincode\<close> and is not modelled.
\<close>

section \<open>The interface\<close>

record 'd durability_ops =
  do_current :: "'d \<Rightarrow> seq"
  do_sequenced_write :: "commit_record \<Rightarrow> 'd \<Rightarrow> (durability_client_error + seq) \<times> 'd"
  do_unsequenced_write :: "status_record \<Rightarrow> 'd \<Rightarrow> (durability_client_error + unit) \<times> 'd"
  do_disk :: "'d \<Rightarrow> disk"
  do_reset :: "'d \<Rightarrow> (durability_client_error + unit) \<times> 'd"
  do_reset_to_sequence :: "seq \<Rightarrow> 'd \<Rightarrow> (durability_client_error + unit) \<times> 'd"

text \<open>As long as the 64-bit counter does not overflow, a sequenced write returns the current number and advances
  it, or fails and leaves it; an unsequenced
  write and the reading operations leave it; a reset to a number that succeeds makes it the current one.\<close>

locale durability_client =
  fixes ops :: "'d durability_ops" and valid :: "'d \<Rightarrow> bool"
  assumes sequenced_write:
      "valid d \<Longrightarrow> seq_ok (seq_next (do_current ops d)) \<Longrightarrow> do_sequenced_write ops r d = (res, d') \<Longrightarrow>
       valid d' \<and> ((\<exists>e. res = Inl e) \<and> do_current ops d' = do_current ops d \<or>
         res = Inr (do_current ops d) \<and> do_current ops d' = seq_next (do_current ops d))"
    and unsequenced_write:
      "valid d \<Longrightarrow> do_unsequenced_write ops s d = (res', d') \<Longrightarrow> valid d' \<and> do_current ops d' = do_current ops d"
    and reset_to_sequence:
      "seq_ok n \<Longrightarrow> do_reset_to_sequence ops n d = (Inr u, d') \<Longrightarrow> do_current ops d' = n"
    and current_ok: "valid d \<Longrightarrow> seq_ok (do_current ops d)"

section \<open>The in-memory client\<close>

record noop_client =
  nc_next_sequence_number :: nat

definition noop_new :: noop_client where
  "noop_new = \<lparr> nc_next_sequence_number = 1 \<rparr>"

definition noop_with_sequence_number :: "seq \<Rightarrow> noop_client" where
  "noop_with_sequence_number start = \<lparr> nc_next_sequence_number = start \<rparr>"

definition noop_current :: "noop_client \<Rightarrow> seq" where
  "noop_current self = nc_next_sequence_number self"

definition noop_previous :: "noop_client \<Rightarrow> seq option" where
  "noop_previous self = seq_previous (noop_current self)"

text \<open>\<^verbatim>\<open>fetch_add\<close> on the 64-bit counter.\<close>

definition noop_sequenced_write :: "commit_record \<Rightarrow> noop_client \<Rightarrow> (durability_client_error + seq) \<times> noop_client" where
  "noop_sequenced_write _ self =
     (let s = nc_next_sequence_number self in (Inr s, self\<lparr> nc_next_sequence_number := (s + 1) mod 2 ^ 64 \<rparr>))"

definition noop_unsequenced_write :: "status_record \<Rightarrow> noop_client \<Rightarrow> (durability_client_error + unit) \<times> noop_client" where
  "noop_unsequenced_write _ self = (Inr (), self)"

definition noop_iter_type_from :: "seq \<Rightarrow> durability_client_error + (durability_client_error + 'r) list" where
  "noop_iter_type_from _ = Inr []"

definition noop_find_last_unsequenced_type :: "noop_client \<Rightarrow> durability_client_error + status_record option" where
  "noop_find_last_unsequenced_type _ = Inr None"

definition noop_reset :: "noop_client \<Rightarrow> (durability_client_error + unit) \<times> noop_client" where
  "noop_reset self = (Inr (), self\<lparr> nc_next_sequence_number := 1 \<rparr>)"

definition noop_reset_to_sequence :: "seq \<Rightarrow> noop_client \<Rightarrow> (durability_client_error + unit) \<times> noop_client" where
  "noop_reset_to_sequence n self = (Inr (), self\<lparr> nc_next_sequence_number := n \<rparr>)"

definition noop_ops :: "noop_client durability_ops" where
  "noop_ops = \<lparr> do_current = noop_current, do_sequenced_write = noop_sequenced_write,
     do_unsequenced_write = noop_unsequenced_write,
     do_disk = (\<lambda>_. \<lparr> iter_statuses = noop_iter_type_from, iter_commits = noop_iter_type_from \<rparr>),
     do_reset = noop_reset, do_reset_to_sequence = noop_reset_to_sequence \<rparr>"

definition noop_valid :: "noop_client \<Rightarrow> bool" where
  "noop_valid c \<longleftrightarrow> nc_next_sequence_number c < 2 ^ 64"

interpretation noop: durability_client noop_ops noop_valid
  by unfold_locales
    (auto simp: noop_ops_def noop_valid_def noop_current_def noop_sequenced_write_def noop_unsequenced_write_def
      noop_reset_to_sequence_def seq_ok_def seq_next_def Let_def)

end
