(* ===== verification/Storage.thy ===== *)
theory Storage
  imports Snapshot Durability
begin

text \<open>
  The multi-version storage (\<^verbatim>\<open>src/storage/storage.rs\<close>, in the build with the in-memory backend): keyspaces, a
  durability client and the isolation manager, with snapshots opened on it and committed to it
  (\<^verbatim>\<open>WriteSnapshot::new\<close>, \<^verbatim>\<open>commit\<close> and \<^verbatim>\<open>close_resources\<close> of \<^verbatim>\<open>src/storage/snapshot/snapshot.rs\<close>).  The operations
  are parameterised by the durability client \<open>ops\<close>.  A call that another thread would have to unblock, such as
  waiting for the watermark, and a panic are both \<open>None\<close>.

  The theorems show that a commit is exactly its pending writes laid over the committed state from its
  sequence number on, that earlier reads are unaffected, and how the storage opens, closes, exports and
  imports.
\<close>

section \<open>The storage\<close>

record 'd mvcc_storage =
  ms_keyspaces :: keyspaces
  ms_durability_client :: 'd
  ms_isolation_manager :: isolation_manager

text \<open>The errors that the in-memory build raises, without the name of the database.\<close>

datatype storage_open_error = SoeKeyspaceOpen keyspace_open_error | SoeKeyspace keyspace_error
  | SoeDurabilityClientWrite durability_client_error

datatype storage_commit_error = SceInternal expected_window_error | SceIsolation isolation_conflict
  | SceKeyspace keyspace_error | SceDurability durability_client_error

datatype storage_reset_error = SreKeyspace keyspace_error | SreDurability durability_client_error

definition create_keyspaces :: "keyspace_set list \<Rightarrow> (storage_open_error + keyspaces) option" where
  "create_keyspaces ks = do {
     r \<leftarrow> kss_open ks;
     Some (case r of Inl err \<Rightarrow> Inl (SoeKeyspaceOpen err) | Inr keyspaces \<Rightarrow> Inr keyspaces) }"

definition storage_create ::
    "'d durability_ops \<Rightarrow> keyspace_set list \<Rightarrow> 'd \<Rightarrow> (storage_open_error + 'd mvcc_storage) option" where
  "storage_create ops ks client = do {
     r \<leftarrow> create_keyspaces ks;
     (case r of
        Inl err \<Rightarrow> Some (Inl err)
      | Inr keyspaces \<Rightarrow> do {
          isolation_manager \<leftarrow> im_new (do_current ops client);
          Some (Inr \<lparr> ms_keyspaces = keyspaces, ms_durability_client = client,
                      ms_isolation_manager = isolation_manager \<rparr>) }) }"

definition snapshot_watermark :: "'d mvcc_storage \<Rightarrow> seq" where
  "snapshot_watermark self = im_watermark (ms_isolation_manager self)"

text \<open>The spin loop returns when the watermark has reached the target.\<close>

definition wait_for_watermark :: "seq \<Rightarrow> 'd mvcc_storage \<Rightarrow> seq option" where
  "wait_for_watermark target self =
     (if snapshot_watermark self < target then None else Some (snapshot_watermark self))"

section \<open>Opening and closing snapshots\<close>

definition ws_new :: "seq \<Rightarrow> 'd mvcc_storage \<Rightarrow> (write_snapshot \<times> 'd mvcc_storage) option" where
  "ws_new open_sequence_number storage = do {
     im \<leftarrow> opened_for_read open_sequence_number (ms_isolation_manager storage);
     Some (\<lparr> ws_operations = ob_new, ws_open_sequence_number = open_sequence_number \<rparr>,
           storage\<lparr> ms_isolation_manager := im \<rparr>) }"

definition open_snapshot_write :: "'d mvcc_storage \<Rightarrow> (write_snapshot \<times> 'd mvcc_storage) option" where
  "open_snapshot_write self = do {
     let possible_sequence_number = im_highest_validated_sequence_number (ms_isolation_manager self);
     open_sequence_number \<leftarrow> wait_for_watermark possible_sequence_number self;
     ws_new open_sequence_number self }"

definition open_snapshot_write_at :: "seq \<Rightarrow> 'd mvcc_storage \<Rightarrow> (write_snapshot \<times> 'd mvcc_storage) option" where
  "open_snapshot_write_at sequence_number self = do {
     _ \<leftarrow> wait_for_watermark sequence_number self;
     ws_new sequence_number self }"

definition open_snapshot_read :: "'d mvcc_storage \<Rightarrow> read_snapshot option" where
  "open_snapshot_read self = do {
     let possible_sequence_number = im_highest_validated_sequence_number (ms_isolation_manager self);
     open_sequence_number \<leftarrow> wait_for_watermark possible_sequence_number self;
     Some (rs_new open_sequence_number) }"

definition open_snapshot_read_at :: "seq \<Rightarrow> 'd mvcc_storage \<Rightarrow> read_snapshot option" where
  "open_snapshot_read_at sequence_number self = do {
     _ \<leftarrow> wait_for_watermark sequence_number self;
     Some (rs_new sequence_number) }"

definition open_snapshot_schema :: "'d mvcc_storage \<Rightarrow> (write_snapshot \<times> 'd mvcc_storage) option" where
  "open_snapshot_schema self = do {
     let possible_sequence_number = im_highest_validated_sequence_number (ms_isolation_manager self);
     open_sequence_number \<leftarrow> wait_for_watermark possible_sequence_number self;
     ws_new open_sequence_number self }"

definition closed_snapshot_write :: "seq \<Rightarrow> 'd mvcc_storage \<Rightarrow> 'd mvcc_storage option" where
  "closed_snapshot_write open_sequence_number self = do {
     im \<leftarrow> closed_for_read open_sequence_number (ms_isolation_manager self);
     Some (self\<lparr> ms_isolation_manager := im \<rparr>) }"

definition ws_close_resources :: "write_snapshot \<Rightarrow> 'd mvcc_storage \<Rightarrow> 'd mvcc_storage option" where
  "ws_close_resources snapshot storage = closed_snapshot_write (ws_open_sequence_number snapshot) storage"

section \<open>Committing\<close>

text \<open>The puts of a snapshot learn whether the key already holds their value.\<close>

fun initial_put_status ::
    "keyspaces \<Rightarrow> seq \<Rightarrow> keyspace_id \<Rightarrow> bytes \<times> buffered_write \<Rightarrow> (bytes \<times> buffered_write) option" where
  "initial_put_status storage n ks (key, Put val _ known) =
     (if known then Some (key, Put val False known)
      else do {
        existing \<leftarrow> storage_get storage (ks, key) n;
        let existing_stored = (existing = Some val);
        Some (key, Put val (\<not> existing_stored) known) })"
| "initial_put_status storage n ks (key, w) = Some (key, w)"

definition set_initial_put_status :: "keyspaces \<Rightarrow> write_snapshot \<Rightarrow> write_snapshot option" where
  "set_initial_put_status storage snapshot = do {
     buffers \<leftarrow> those (map (\<lambda>buffer. do {
         writes \<leftarrow> those (map (initial_put_status storage (ws_open_sequence_number snapshot) (wb_keyspace_id buffer))
                         (wb_writes buffer));
         Some (buffer\<lparr> wb_writes := writes \<rparr>) })
       (ob_write_buffers (ws_operations snapshot)));
     Some (snapshot\<lparr> ws_operations := (ws_operations snapshot)\<lparr> ob_write_buffers := buffers \<rparr> \<rparr>) }"

definition into_commit_record :: "commit_type \<Rightarrow> write_snapshot \<Rightarrow> commit_record" where
  "into_commit_record ct self = commit_record_new (ws_operations self) (ws_open_sequence_number self) ct"

definition persist_commit_status ::
    "'d durability_ops \<Rightarrow> bool \<Rightarrow> seq \<Rightarrow> 'd \<Rightarrow> (durability_client_error + unit) \<times> 'd" where
  "persist_commit_status ops did_apply commit_sequence_number client =
     do_unsequenced_write ops (status_record_new commit_sequence_number did_apply) client"

text \<open>What follows validation: writing the batches and applying, or recording the rejection.\<close>

definition finish_commit ::
    "'d durability_ops \<Rightarrow> seq \<Rightarrow> durability_client_error + validated_commit \<Rightarrow> 'd mvcc_storage \<Rightarrow>
     ((storage_commit_error + seq) \<times> 'd mvcc_storage) option" where
  "finish_commit ops n validate_result self =
     (case validate_result of
        Inr (CommitWrite write_batches) \<Rightarrow> do {
          (written, kss) \<leftarrow> kss_write write_batches (ms_keyspaces self);
          let self = self\<lparr> ms_keyspaces := kss \<rparr>;
          (case written of
             Inl err \<Rightarrow> Some (Inl (SceKeyspace err), self)
           | Inr _ \<Rightarrow> do {
               applied \<leftarrow> im_applied n (ms_isolation_manager self);
               (case applied of
                  Inl err \<Rightarrow> Some (Inl (SceInternal err), self)
                | Inr im \<Rightarrow>
                    let (persisted, d) = persist_commit_status ops True n (ms_durability_client self);
                        self = self\<lparr> ms_isolation_manager := im, ms_durability_client := d \<rparr>
                    in Some (case persisted of Inl err \<Rightarrow> Inl (SceDurability err) | Inr _ \<Rightarrow> Inr n, self)) }) }
      | Inr (CommitConflict conflict) \<Rightarrow>
          let (persisted, d) = persist_commit_status ops False n (ms_durability_client self);
              self = self\<lparr> ms_durability_client := d \<rparr>
          in Some (Inl (case persisted of Inl err \<Rightarrow> SceDurability err | Inr _ \<Rightarrow> SceIsolation conflict), self)
      | Inl err \<Rightarrow> Some (Inl (SceDurability err), self))"

definition snapshot_commit ::
    "'d durability_ops \<Rightarrow> commit_type \<Rightarrow> write_snapshot \<Rightarrow> 'd mvcc_storage \<Rightarrow>
     ((storage_commit_error + seq) \<times> 'd mvcc_storage) option" where
  "snapshot_commit ops ct snapshot self = do {
     snapshot \<leftarrow> set_initial_put_status (ms_keyspaces self) snapshot;
     let commit_record = into_commit_record ct snapshot;
     let (sequenced, d) = do_sequenced_write ops commit_record (ms_durability_client self);
     let self = self\<lparr> ms_durability_client := d \<rparr>;
     case sequenced of
       Inl err \<Rightarrow> Some (Inl (SceDurability err), self)
     | Inr commit_sequence_number \<Rightarrow> do {
         (im, validate_result) \<leftarrow>
           validate_commit (do_disk ops d) commit_sequence_number commit_record (ms_isolation_manager self);
         finish_commit ops commit_sequence_number validate_result (self\<lparr> ms_isolation_manager := im \<rparr>) } }"

definition ws_commit ::
    "'d durability_ops \<Rightarrow> commit_type \<Rightarrow> write_snapshot \<Rightarrow> 'd mvcc_storage \<Rightarrow>
     ((storage_commit_error + seq option) \<times> 'd mvcc_storage) option" where
  "ws_commit ops ct self storage =
     (if ob_is_writes_empty (ws_operations self) \<and> ob_locks_empty (ws_operations self) then Some (Inr None, storage)
      else do {
        (r, storage) \<leftarrow> snapshot_commit ops ct self storage;
        Some (case r of Inr sequence_number \<Rightarrow> Inr (Some sequence_number) | Inl err \<Rightarrow> Inl err, storage) })"

section \<open>Raw access, reset and byte snapshots\<close>

definition put_raw :: "storage_key \<Rightarrow> bytes \<Rightarrow> 'd mvcc_storage \<Rightarrow> 'd mvcc_storage option" where
  "put_raw key val self = do {
     k \<leftarrow> kss_get (ms_keyspaces self) (fst key);
     (case ksp_put (snd key) val k of
        (Inl _, _) \<Rightarrow> None
      | (Inr _, k') \<Rightarrow> Some (self\<lparr> ms_keyspaces := kss_update (ms_keyspaces self) (fst key) k' \<rparr>)) }"

definition get_raw_mapped :: "(bytes \<Rightarrow> 'v) \<Rightarrow> 'd mvcc_storage \<Rightarrow> storage_key \<Rightarrow> 'v option option" where
  "get_raw_mapped mapper self key = do {
     k \<leftarrow> kss_get (ms_keyspaces self) (fst key);
     (case ksp_get k (snd key) of Inl _ \<Rightarrow> None | Inr v \<Rightarrow> Some (map_option mapper v)) }"

definition get_prev_raw :: "(bytes \<Rightarrow> bytes \<Rightarrow> 'v) \<Rightarrow> 'd mvcc_storage \<Rightarrow> storage_key \<Rightarrow> 'v option option" where
  "get_prev_raw key_value_mapper self key = do {
     k \<leftarrow> kss_get (ms_keyspaces self) (fst key);
     Some (map_option (\<lambda>(raw_key, v). key_value_mapper raw_key v) (ksp_get_prev k (snd key))) }"

definition iterate_keyspace_range :: "'d mvcc_storage \<Rightarrow> storage_key key_range \<Rightarrow> range_iterator option" where
  "iterate_keyspace_range self rng = do {
     k \<leftarrow> kss_get (ms_keyspaces self) (fst (start_value (kr_start rng)));
     ksp_iterate_range k (key_range_map snd id rng) }"

definition storage_reset :: "'d durability_ops \<Rightarrow> 'd mvcc_storage \<Rightarrow> ((storage_reset_error + unit) \<times> 'd mvcc_storage) option" where
  "storage_reset ops self = do {
     im \<leftarrow> im_reset (ms_isolation_manager self);
     let self = self\<lparr> ms_isolation_manager := im \<rparr>;
     let (r, kss) = kss_reset (ms_keyspaces self);
     let self = self\<lparr> ms_keyspaces := kss \<rparr>;
     case r of
       Inl err \<Rightarrow> Some (Inl (SreKeyspace err), self)
     | Inr _ \<Rightarrow>
         let (r, d) = do_reset ops (ms_durability_client self);
             self = self\<lparr> ms_durability_client := d \<rparr>
         in Some (case r of Inl err \<Rightarrow> Inl (SreDurability err) | Inr _ \<Rightarrow> Inr (), self) }"

definition storage_estimate_size_in_bytes :: "'d mvcc_storage \<Rightarrow> storage_open_error + nat" where
  "storage_estimate_size_in_bytes self = map_sum SoeKeyspace id (kss_estimate_size_in_bytes (ms_keyspaces self))"

definition storage_estimate_key_count :: "'d mvcc_storage \<Rightarrow> storage_open_error + nat" where
  "storage_estimate_key_count self = map_sum SoeKeyspace id (kss_estimate_key_count (ms_keyspaces self))"

definition export_snapshot :: "'d mvcc_storage \<Rightarrow> storage_open_error + bytes" where
  "export_snapshot self =
     map_sum SoeKeyspace id (export_snapshot_with_watermark (snapshot_watermark self) (ms_keyspaces self))"

definition import_snapshot ::
    "'d durability_ops \<Rightarrow> bytes \<Rightarrow> 'd mvcc_storage \<Rightarrow> ((storage_open_error + seq) \<times> 'd mvcc_storage) option" where
  "import_snapshot ops bytes self = do {
     (r, kss) \<leftarrow> import_snapshot_with_watermark bytes (ms_keyspaces self);
     let self = self\<lparr> ms_keyspaces := kss \<rparr>;
     case r of
       Inl err \<Rightarrow> Some (Inl (SoeKeyspace err), self)
     | Inr watermark \<Rightarrow>
         let next_sequence = seq_next watermark;
             im = im_reset_to_watermark watermark (ms_isolation_manager self);
             (r, d) = do_reset_to_sequence ops next_sequence (ms_durability_client self);
             self = self\<lparr> ms_isolation_manager := im, ms_durability_client := d \<rparr>
         in Some (case r of Inl err \<Rightarrow> Inl (SoeDurabilityClientWrite err) | Inr _ \<Rightarrow> Inr watermark, self) }"

section \<open>Writing a commit\<close>

text \<open>The keys that have a version, and the writes whose keyspaces exist and whose keys are apart from the
  stored ones and from each other.\<close>

definition stored_keys :: "keyspaces \<Rightarrow> keyspace_id \<Rightarrow> bytes set" where
  "stored_keys s i = ukey ` dom (kss_contents s i)"

definition writes_fit :: "keyspaces \<Rightarrow> (storage_key \<rightharpoonup> buffered_write) \<Rightarrow> bool" where
  "writes_fit s w \<longleftrightarrow> (\<forall>key. w key \<noteq> None \<longrightarrow> fst key \<in> kss_ids s) \<and>
     (\<forall>i. \<forall>k \<in> stored_keys s i \<union> {k. w (i, k) \<noteq> None}. \<forall>k' \<in> stored_keys s i \<union> {k. w (i, k) \<noteq> None}. keys_apart k k')"

definition versions_below :: "keyspaces \<Rightarrow> seq \<Rightarrow> bool" where
  "versions_below s n \<longleftrightarrow> (\<forall>i k v op. seq_ok v \<and> kss_contents s i (mvcc_build k v op) \<noteq> None \<longrightarrow> v < n)"

definition cr_writes :: "commit_record \<Rightarrow> storage_key \<rightharpoonup> buffered_write" where
  "cr_writes r key = cr_write r (fst key) (snd key)"

lemma dom_kss_contents:
  assumes "kss_wf s" "kss_get s i = Some k"
  shows "raw \<in> dom (kss_contents s i) \<longleftrightarrow> raw \<in> fst ` set (mb_data (ksp_backend k))"
proof -
  have "bt_wf (mb_data (ksp_backend k))"
    using assms(2) kss_wfD(5)[OF assms(1), of k] by (simp add: kss_get_iff[OF assms(1)] mb_inv_def)
  then show ?thesis
    using assms(2) by (force simp: kss_contents_def mb_contents_def bt_get_eq_Some_iff)
qed

lemma kss_contents_outside: "kss_get s i = None \<Longrightarrow> kss_contents s i = Map.empty"
  by (simp add: kss_contents_def)

text \<open>Well-formedness of the storage in terms of its contents.\<close>

lemma all_ids: "(\<And>i. i \<notin> ksp_id ` set ks \<Longrightarrow> P i) \<Longrightarrow> (\<forall>k \<in> set ks. P (ksp_id k)) \<longleftrightarrow> (\<forall>i. P i)"
  by (metis imageE)

lemma storage_wf_contents:
  "storage_wf s \<longleftrightarrow> kss_wf s \<and> (\<forall>i. \<forall>raw \<in> dom (kss_contents s i). mvcc_decodes raw) \<and>
     (\<forall>i. \<forall>k \<in> stored_keys s i. \<forall>k' \<in> stored_keys s i. keys_apart k k')"
proof (cases "kss_wf s")
  case wf: True
  let ?P = "\<lambda>i. (\<forall>raw \<in> dom (kss_contents s i). mvcc_decodes raw) \<and>
      (\<forall>k \<in> stored_keys s i. \<forall>k' \<in> stored_keys s i. keys_apart k k')"
  have data: "mvcc_wf (mb_data (ksp_backend k)) \<longleftrightarrow> ?P (ksp_id k)" if k: "k \<in> set (kss_keyspaces s)" for k
  proof -
    have g: "kss_get s (ksp_id k) = Some k" using k by (simp add: kss_get_iff[OF wf])
    have "bt_wf (mb_data (ksp_backend k))" using kss_wfD(5)[OF wf k] by (simp add: mb_inv_def)
    moreover have "dom (kss_contents s (ksp_id k)) = fst ` set (mb_data (ksp_backend k))"
      using dom_kss_contents[OF wf g] by blast
    ultimately show ?thesis by (simp add: mvcc_wf_def stored_keys_def)
  qed
  have "kss_contents s i = Map.empty" if "i \<notin> ksp_id ` set (kss_keyspaces s)" for i
    using that kss_contents_outside[of s i] by (cases "kss_get s i") (auto simp: kss_get_iff[OF wf])
  then have "?P i" if "i \<notin> ksp_id ` set (kss_keyspaces s)" for i
    using that by (simp add: stored_keys_def)
  then have "(\<forall>k \<in> set (kss_keyspaces s). ?P (ksp_id k)) \<longleftrightarrow> (\<forall>i. ?P i)"
    by (rule all_ids)
  moreover have "storage_wf s \<longleftrightarrow> (\<forall>k \<in> set (kss_keyspaces s). ?P (ksp_id k))"
    using wf data by (simp add: storage_wf_def)
  ultimately show ?thesis using wf by (simp only: all_conj_distrib simp_thms)
qed (simp add: storage_wf_def)

lemma writes_fit_get_ok:
  assumes "storage_wf s" "writes_fit s w" "w key \<noteq> None"
  shows "get_ok s key"
  unfolding get_ok_def
proof (intro conjI allI impI ballI)
  show "fst key \<in> kss_ids s" using assms(2,3) unfolding writes_fit_def by blast
  fix k e assume k: "kss_get s (fst key) = Some k" "e \<in> set (mb_data (ksp_backend k))"
  have "fst e \<in> dom (kss_contents s (fst key))"
    using k dom_kss_contents[of s "fst key" k] assms(1) by (simp add: storage_wf_def)
  then have "ukey (fst e) \<in> stored_keys s (fst key)" unfolding stored_keys_def by (rule imageI)
  moreover have "snd key \<in> {k. w (fst key, k) \<noteq> None}" using assms(3) by simp
  ultimately have "keys_apart (ukey (fst e)) (snd key)"
    using assms(2) unfolding writes_fit_def by blast
  then show "\<not> strict_prefix (ukey (fst e)) (snd key)" by (auto simp: keys_apart_def strict_prefix_def)
qed

lemma commit_contents:
  assumes "kss_wf s" "cr_wf r" "\<forall>key. cr_writes r key \<noteq> None \<longrightarrow> fst key \<in> kss_ids s" "seq_ok n"
  shows "\<exists>s'. kss_write (from_operations n (cr_operations r)) s = Some (Inr (), s') \<and> kss_wf s' \<and> kss_ids s' = kss_ids s \<and>
    (\<forall>i raw. kss_contents s' i raw =
      (case mvcc_key raw of
         None \<Rightarrow> kss_contents s i raw
       | Some key \<Rightarrow> (case cr_writes r (i, key) of
           None \<Rightarrow> kss_contents s i raw
         | Some w \<Rightarrow> (case write_version w of
             None \<Rightarrow> kss_contents s i raw
           | Some (op, v) \<Rightarrow> if raw = mvcc_build key n op then Some v else kss_contents s i raw))))"
proof -
  let ?bufs = "ob_write_buffers (cr_operations r)" and ?bs = "from_operations n (cr_operations r)"
  have bufs: "length ?bufs = KEYSPACE_MAXIMUM_COUNT" "\<And>i. i < KEYSPACE_MAXIMUM_COUNT \<Longrightarrow> bt_wf (wb_writes (?bufs ! i))"
    using assms(2) by (auto simp: cr_wf_def ob_wf_def wb_wf_def)
  have w: "cr_writes r (i, k) = (if i < KEYSPACE_MAXIMUM_COUNT then bt_get (wb_writes (?bufs ! i)) k else None)" for i k
    using bufs by (simp add: cr_writes_def cr_write_def wb_get_def)
  have "i \<in> kss_ids s" if "i < length ?bs" "?bs ! i \<noteq> None" for i
  proof -
    have "wb_writes (?bufs ! i) \<noteq> []" using that by (auto simp: from_operations_def)
    then obtain k where "bt_get (wb_writes (?bufs ! i)) k \<noteq> None" using bt_wf_Nil_iff by blast
    then have "cr_writes r (i, k) \<noteq> None" using w[of i k] that(1) bufs(1) by (simp add: from_operations_def)
    then show ?thesis using assms(3)[rule_format, of "(i, k)"] by simp
  qed
  then have "fst ` set (batches_iter ?bs) \<subseteq> kss_ids s" by (auto simp: set_batches_iter)
  then obtain s' where s': "kss_write ?bs s = Some (Inr (), s')" "kss_wf s'" "kss_layout s' = kss_layout s"
      "\<forall>i. kss_contents s' i = fold op_effect (batches_for i (batches_iter ?bs)) (kss_contents s i)"
    using kss_write_loop_spec[OF assms(1)] unfolding kss_write_def by blast
  have b: "batches_for i (batches_iter ?bs) =
      (if i < KEYSPACE_MAXIMUM_COUNT then fold (add_write n) (wb_writes (?bufs ! i)) [] else [])" for i
    using bufs(1) by (simp add: batches_for_iter nth_opt_def from_operations_def)
  have "kss_contents s' i raw =
      (case mvcc_key raw of
         None \<Rightarrow> kss_contents s i raw
       | Some key \<Rightarrow> (case cr_writes r (i, key) of
           None \<Rightarrow> kss_contents s i raw
         | Some w \<Rightarrow> (case write_version w of
             None \<Rightarrow> kss_contents s i raw
           | Some (op, v) \<Rightarrow> if raw = mvcc_build key n op then Some v else kss_contents s i raw)))" for i raw
    using s'(4) batch_effect[OF bufs(2) assms(4), of i "kss_contents s i" raw] by (simp add: b w split: option.splits)
  moreover have "kss_ids s' = kss_ids s" using s'(3) by (rule kss_layout_ids)
  ultimately show ?thesis using s'(1,2) by blast
qed

lemma write_commit_spec:
  assumes "storage_wf s" "cr_wf r" "writes_fit s (cr_writes r)" "versions_below s n" "seq_ok n"
  shows "\<exists>s'. kss_write (from_operations n (cr_operations r)) s = Some (Inr (), s') \<and> storage_wf s' \<and>
    kss_ids s' = kss_ids s \<and> versions_below s' (n + 1) \<and>
    (\<forall>m key. committed s' m key =
      (if m < n then committed s m key
       else case cr_writes r key of
         None \<Rightarrow> committed s m key
       | Some w \<Rightarrow> (case write_version w of None \<Rightarrow> committed s m key | Some (op, v) \<Rightarrow> if op = OpInsert then Some v else None)))"
proof -
  have "kss_wf s" "\<forall>key. cr_writes r key \<noteq> None \<longrightarrow> fst key \<in> kss_ids s"
    using assms(1,3) unfolding storage_wf_def writes_fit_def by blast+
  from commit_contents[OF this(1) assms(2) this(2) assms(5)] obtain s' where
    s': "kss_write (from_operations n (cr_operations r)) s = Some (Inr (), s')" "kss_wf s'" "kss_ids s' = kss_ids s"
    and raw: "\<And>i raw. kss_contents s' i raw =
      (case mvcc_key raw of
         None \<Rightarrow> kss_contents s i raw
       | Some key \<Rightarrow> (case cr_writes r (i, key) of
           None \<Rightarrow> kss_contents s i raw
         | Some w \<Rightarrow> (case write_version w of
             None \<Rightarrow> kss_contents s i raw
           | Some (op, v) \<Rightarrow> if raw = mvcc_build key n op then Some v else kss_contents s i raw)))"
    by blast
  have built: "kss_contents s' i (mvcc_build k v op) =
      (case cr_writes r (i, k) of None \<Rightarrow> kss_contents s i (mvcc_build k v op)
       | Some w \<Rightarrow> (case write_version w of None \<Rightarrow> kss_contents s i (mvcc_build k v op)
         | Some (op', x) \<Rightarrow> if v = n \<and> op = op' then Some x else kss_contents s i (mvcc_build k v op)))" if "seq_ok v" for i k v op
    using that assms(5) by (auto simp: raw mvcc_build_inj split: option.splits)
  have dom: "raw \<in> dom (kss_contents s i) \<or> (\<exists>k op. raw = mvcc_build k n op \<and> cr_writes r (i, k) \<noteq> None)"
    if "raw \<in> dom (kss_contents s' i)" for i raw
  proof (rule ccontr)
    assume "\<not> (raw \<in> dom (kss_contents s i) \<or> (\<exists>k op. raw = mvcc_build k n op \<and> cr_writes r (i, k) \<noteq> None))"
    then have no: "kss_contents s i raw = None" "\<And>k op. raw = mvcc_build k n op \<Longrightarrow> cr_writes r (i, k) = None" by blast+
    then have "kss_contents s' i raw = None" by (auto simp: raw split: option.splits)
    then show False using that by auto
  qed
  have sk: "stored_keys s' i \<subseteq> stored_keys s i \<union> {k. cr_writes r (i, k) \<noteq> None}" for i
    unfolding stored_keys_def using dom[of _ i] by fastforce
  have "storage_wf s'"
    unfolding storage_wf_contents
  proof (intro conjI allI ballI)
    fix i raw assume "raw \<in> dom (kss_contents s' i)"
    then show "mvcc_decodes raw"
      using dom[of raw i] assms(1,5) unfolding storage_wf_contents mvcc_decodes_def by blast
  next
    fix i k k' assume "k \<in> stored_keys s' i" "k' \<in> stored_keys s' i"
    then show "keys_apart k k'" using sk[of i] assms(3) unfolding writes_fit_def by blast
  qed (rule s'(2))
  moreover have "versions_below s' (n + 1)"
    using assms(4) built unfolding versions_below_def by (fastforce split: option.splits if_splits)
  moreover have "committed s' m key =
      (if m < n then committed s m key
       else case cr_writes r key of
         None \<Rightarrow> committed s m key
       | Some w \<Rightarrow> (case write_version w of None \<Rightarrow> committed s m key | Some (op, v) \<Rightarrow> if op = OpInsert then Some v else None))"
    for m key
  proof (cases "m < n \<or> Option.bind (cr_writes r key) write_version = None")
    case True
    then have "committed s' m key = committed s m key"
      unfolding committed_def by (intro mvcc_read_cong) (auto simp: built split: option.splits)
    then show ?thesis using True by (auto split: option.splits)
  next
    case False
    then obtain w op v where w: "cr_writes r key = Some w" "write_version w = Some (op, v)" "n \<le> m"
      by (auto simp: bind_eq_Some_conv)
    have "committed s' m key = kss_contents s' (fst key) (mvcc_build (snd key) n OpInsert)"
      unfolding committed_def
    proof (rule mvcc_read_newest[OF assms(5) w(3), where op = op])
      show "kss_contents s' (fst key) (mvcc_build (snd key) n op) \<noteq> None" using w assms(5) by (simp add: built)
    qed (use \<open>versions_below s' (n + 1)\<close> in \<open>fastforce simp: versions_below_def\<close>)
    moreover have "kss_contents s (fst key) (mvcc_build (snd key) n OpInsert) = None"
      using assms(4,5) unfolding versions_below_def by blast
    ultimately show ?thesis using w assms(5) by (simp add: built)
  qed
  ultimately show ?thesis using s' by blast
qed

section \<open>The flags of the puts\<close>

text \<open>The flag a put starts with, and the state that concurrent commits leave.\<close>

fun initial_flag :: "bytes option \<Rightarrow> buffered_write \<Rightarrow> buffered_write" where
  "initial_flag c (Put v _ known) = Put v (\<not> known \<and> c \<noteq> Some v) known"
| "initial_flag c w = w"

fun replay :: "commit_record option list \<Rightarrow> (storage_key \<rightharpoonup> bytes) \<Rightarrow> (storage_key \<rightharpoonup> bytes)" where
  "replay [] c = c"
| "replay (None # ps) c = replay ps c"
| "replay (Some p # ps) c = replay ps (view c (cr_writes p))"

lemma those_map_Some: "(\<And>x. x \<in> set xs \<Longrightarrow> f x = Some (g x)) \<Longrightarrow> those (map f xs) = Some (map g xs)"
  by (induction xs) auto

lemma bt_get_map_values: "bt_get (map (\<lambda>(k, w). (k, h k w)) m) k = map_option (h k) (bt_get m k)"
  by (induction m) (auto simp: bt_get_Cons)

lemma bt_wf_map_values [simp]: "bt_wf (map (\<lambda>(k, w). (k, h k w)) m) = bt_wf m"
  by (simp add: bt_wf_def sorted_wrt_map case_prod_unfold)

lemma set_initial_put_status_spec:
  assumes "storage_wf s" "ws_wf sn" "\<And>key. ws_writes sn key \<noteq> None \<Longrightarrow> get_ok s key"
  shows "\<exists>sn'. set_initial_put_status s sn = Some sn' \<and> ws_wf sn' \<and> ws_locks sn' = ws_locks sn \<and>
    ws_open_sequence_number sn' = ws_open_sequence_number sn \<and>
    (\<forall>key. ws_writes sn' key = map_option (initial_flag (committed s (ws_open_sequence_number sn) key)) (ws_writes sn key))"
proof -
  let ?o = "ws_open_sequence_number sn" and ?bufs = "ob_write_buffers (ws_operations sn)"
  define h where "h ks = (\<lambda>k. initial_flag (committed s ?o (ks, k)))" for ks
  define g where "g = (\<lambda>wb::write_buffer. wb\<lparr> wb_writes := map (\<lambda>(k, w). (k, h (wb_keyspace_id wb) k w)) (wb_writes wb) \<rparr>)"
  have ob: "length ?bufs = KEYSPACE_MAXIMUM_COUNT" "\<And>i. i < KEYSPACE_MAXIMUM_COUNT \<Longrightarrow> wb_keyspace_id (?bufs ! i) = i"
    "\<And>i. i < KEYSPACE_MAXIMUM_COUNT \<Longrightarrow> bt_wf (wb_writes (?bufs ! i))"
    using assms(2) by (auto simp: ws_wf_def ob_wf_def wb_wf_def)
  have one: "initial_put_status s ?o (wb_keyspace_id wb) e = Some (case e of (k, w) \<Rightarrow> (k, h (wb_keyspace_id wb) k w))"
    if wb: "wb \<in> set ?bufs" "e \<in> set (wb_writes wb)" for wb e
  proof -
    obtain i where i: "i < KEYSPACE_MAXIMUM_COUNT" "wb = ?bufs ! i" using wb(1) ob(1) by (metis in_set_conv_nth)
    obtain k w where e: "e = (k, w)" by (cases e)
    have "ws_writes sn (i, k) = Some w"
      using bt_get_eq_Some_iff[OF ob(3)[OF i(1)], of k w] wb(2) i e by (simp add: ws_writes_def wb_get_def)
    then have "storage_get s (i, k) ?o = Some (committed s ?o (i, k))"
      using assms(1,3) storage_get_committed by blast
    then show ?thesis using e i ob(2)[OF i(1)] by (cases w) (auto simp: h_def)
  qed
  have "those (map (\<lambda>wb. do {
         writes \<leftarrow> those (map (initial_put_status s ?o (wb_keyspace_id wb)) (wb_writes wb));
         Some (wb\<lparr> wb_writes := writes \<rparr>) }) ?bufs) = Some (map g ?bufs)"
    by (rule those_map_Some) (simp add: those_map_Some[OF one] g_def)
  then have eq: "set_initial_put_status s sn = Some (sn\<lparr> ws_operations := (ws_operations sn)\<lparr> ob_write_buffers := map g ?bufs \<rparr> \<rparr>)"
    by (simp add: set_initial_put_status_def)
  show ?thesis
    by (rule exI, intro conjI allI, rule eq)
      (use assms(2) ob in \<open>auto simp: ws_wf_def ob_wf_def wb_wf_def g_def ws_locks_def ws_writes_def wb_get_def bt_get_map_values h_def\<close>)
qed

text \<open>When the concurrent commits that write a put's key agree with it on the value, a put that ends up not
  reinserting its value is one whose value is already stored.\<close>

lemma flag_after_sound:
  assumes "\<And>p w x. Some p \<in> set ps \<Longrightarrow> cr_writes p key = Some w \<Longrightarrow> get_value w = Some x \<Longrightarrow> x = v"
    and "re \<or> c key = Some v"
  shows "\<exists>re'. flag_after ps (fst key) (snd key) (Put v re kn) = Put v re' kn \<and> (re' \<or> replay ps c key = Some v)"
  using assms
proof (induction ps c arbitrary: re rule: replay.induct)
  case (3 p ps c)
  have "reinsert_after (cr_writes p key) re \<or> view c (cr_writes p) key = Some v"
  proof (cases "cr_writes p key")
    case (Some w)
    then show ?thesis using "3.prems"(1)[of p w] by (cases w) (auto simp: view_def)
  qed (use "3.prems"(2) in \<open>simp add: view_def\<close>)
  moreover have "x = v" if "Some p' \<in> set ps" "cr_writes p' key = Some w" "get_value w = Some x" for p' w x
    using "3.prems"(1)[of p' w x] that by simp
  ultimately obtain re' where "flag_after ps (fst key) (snd key) (Put v (reinsert_after (cr_writes p key) re) kn) = Put v re' kn"
      "re' \<or> replay ps (view c (cr_writes p)) key = Some v"
    using "3.IH"[of "reinsert_after (cr_writes p key) re"] by blast
  then show ?case by (simp add: cr_writes_def)
qed auto

section \<open>Committing\<close>

text \<open>The commits that a snapshot opened at a sequence number runs concurrently with.\<close>

definition preds_of :: "(seq \<times> commit_status) list \<Rightarrow> seq \<Rightarrow> seq \<Rightarrow> timeline \<Rightarrow> commit_record option list" where
  "preds_of ds n opened t = disk_preds t opened ds @ memory_preds t opened n"

lemma concurrent_preds_of: "concurrent_preds ds n r t = preds_of ds n (cr_open_sequence_number r) t"
  by (simp add: concurrent_preds_def preds_of_def)

text \<open>The situation in which a snapshot is committed: the keys of its writes fit the storage, every stored
  version is older than the commit, the isolation manager can validate it, the committed state is that of the
  opening sequence number followed by the concurrent commits, and the values put to a key agree.\<close>

definition commit_ready ::
    "'d durability_ops \<Rightarrow> (seq \<times> commit_status) list \<Rightarrow> write_snapshot \<Rightarrow> 'd mvcc_storage \<Rightarrow> bool" where
  "commit_ready ops ds sn self \<longleftrightarrow>
     (let s = ms_keyspaces self; im = ms_isolation_manager self; d = ms_durability_client self;
          n = do_current ops d; opened = ws_open_sequence_number sn; ps = preds_of ds n opened (im_timeline im) in
      storage_wf s \<and> ws_wf sn \<and> writes_fit s (ws_writes sn) \<and> versions_below s n \<and> seq_ok (seq_next n) \<and> reachable im \<and>
      (\<forall>r d'. cr_open_sequence_number r = opened \<and> do_sequenced_write ops r d = (Inr n, d') \<longrightarrow>
         ready_to_validate (do_disk ops d') ds n r (im_timeline im)) \<and>
      (\<forall>p. Some p \<in> set (disk_preds (im_timeline im) opened ds) \<longrightarrow> cr_wf p) \<and>
      replay ps (committed s opened) = committed s (n - 1) \<and>
      (\<forall>key v re kn. ws_writes sn key = Some (Put v re kn) \<longrightarrow>
         (kn \<longrightarrow> committed s opened key = Some v) \<and>
         (\<forall>p w x. Some p \<in> set ps \<and> cr_writes p key = Some w \<and> get_value w = Some x \<longrightarrow> x = v)))"

lemma committed_beyond:
  assumes "versions_below s n" "0 < n" "n - 1 \<le> m"
  shows "committed s m = committed s (n - 1)"
proof
  fix key
  have "versions (kss_contents s (fst key)) m (snd key) = versions (kss_contents s (fst key)) (n - 1) (snd key)"
    using assms unfolding versions_def versions_below_def by (smt (verit) Collect_cong One_nat_def Suc_pred le_trans less_Suc_eq_le)
  then show "committed s m key = committed s (n - 1) key" by (simp add: committed_def mvcc_read_def)
qed

lemma cr_writes_into [simp]: "ws_wf sn \<Longrightarrow> cr_writes (into_commit_record ct sn) = ws_writes sn"
  by (auto simp: fun_eq_iff cr_writes_def cr_write_def into_commit_record_def commit_record_new_def ws_writes_def ws_wf_def ob_wf_def)

lemma into_commit_record_fields [simp]:
  "cr_open_sequence_number (into_commit_record ct sn) = ws_open_sequence_number sn"
  "cr_lock (into_commit_record ct sn) = ws_locks sn"
  "ws_wf sn \<Longrightarrow> cr_wf (into_commit_record ct sn)"
  by (auto simp: fun_eq_iff into_commit_record_def commit_record_new_def cr_lock_def ws_locks_def cr_wf_def ws_wf_def)

text \<open>The record that leaves validation writes, over the state before the commit, what the snapshot saw.\<close>

lemma validated_writes:
  assumes flags: "\<And>key. cr_writes r' key =
      map_option (flag_after ps (fst key) (snd key) \<circ> initial_flag (c key)) (w key)"
    and agree: "\<And>key v re kn. w key = Some (Put v re kn) \<Longrightarrow> (kn \<longrightarrow> c key = Some v) \<and>
         (\<forall>p w x. Some p \<in> set ps \<and> cr_writes p key = Some w \<and> get_value w = Some x \<longrightarrow> x = v)"
  shows "(case cr_writes r' key of None \<Rightarrow> replay ps c key
       | Some w' \<Rightarrow> (case write_version w' of None \<Rightarrow> replay ps c key | Some (op, v) \<Rightarrow> if op = OpInsert then Some v else None))
     = view (replay ps c) w key"
proof (cases "w key")
  case (Some b)
  show ?thesis
  proof (cases b)
    case (Insert v)
    then have "flag_after ps (fst key) (snd key) (Insert v) = Insert v" for ps
      by (induction ps "fst key" "snd key" "Insert v" rule: flag_after.induct) auto
    then show ?thesis using flags[of key] Some Insert by (simp add: view_def)
  next
    case (Put v re kn)
    have "\<exists>re'. flag_after ps (fst key) (snd key) (Put v (\<not> kn \<and> c key \<noteq> Some v) kn) = Put v re' kn \<and> (re' \<or> replay ps c key = Some v)"
      by (rule flag_after_sound) (use agree[of key v re kn] Some Put in blast)+
    then show ?thesis using flags[of key] Some Put by (auto simp: view_def)
  next
    case Delete
    have d: "flag_after ps (fst key) (snd key) Delete = Delete" by simp
    show ?thesis using flags[of key] Some Delete by (simp add: view_def d)
  qed
qed (use flags[of key] in \<open>simp add: view_def\<close>)

section \<open>Reliable clients\<close>

text \<open>A client whose writes do not fail, as the in-memory one.\<close>

locale reliable_client = durability_client ops valid for ops :: "'d durability_ops" and valid +
  assumes sequenced_write_ok: "valid d \<Longrightarrow> \<exists>d'. do_sequenced_write ops r d = (Inr (do_current ops d), d')"
    and unsequenced_write_ok: "valid d \<Longrightarrow> \<exists>d'. do_unsequenced_write ops s d = (Inr (), d')"
begin

lemma commit_validates:
  assumes "commit_ready ops ds sn self" "valid (ms_durability_client self)"
  defines "n \<equiv> do_current ops (ms_durability_client self)"
    and "ps \<equiv> preds_of ds (do_current ops (ms_durability_client self)) (ws_open_sequence_number sn)
                (im_timeline (ms_isolation_manager self))"
  obtains d' r im' res where
    "snapshot_commit ops ct sn self =
       finish_commit ops n (Inr res) (self\<lparr> ms_durability_client := d', ms_isolation_manager := im' \<rparr>)"
    "valid d'" "do_current ops d' = seq_next n" "reachable im'" "cr_wf r"
    "\<And>key. cr_writes r key = map_option (initial_flag (committed (ms_keyspaces self) (ws_open_sequence_number sn) key)) (ws_writes sn key)"
    "\<And>p. conflicts_with r p = conflicts_with (into_commit_record ct sn) p"
    "(\<exists>c. res = CommitConflict c) \<longleftrightarrow> (\<exists>p. Some p \<in> set ps \<and> conflicts_with r p)"
    "\<And>bs. res = CommitWrite bs \<Longrightarrow> \<exists>r'. bs = from_operations n (cr_operations r') \<and> cr_wf r' \<and>
        tl_status (im_timeline im') n = Validated r' \<and> im_watermark im' = im_watermark (ms_isolation_manager self) \<and>
        im_watermark im' < n \<and>
        (\<forall>key. cr_writes r' key = map_option (flag_after ps (fst key) (snd key)) (cr_writes r key))"
proof -
  let ?s = "ms_keyspaces self" and ?im = "ms_isolation_manager self" and ?d = "ms_durability_client self"
  let ?o = "ws_open_sequence_number sn"
  note ready = assms(1)[unfolded commit_ready_def Let_def, folded n_def]
  obtain sn' where sn': "set_initial_put_status ?s sn = Some sn'" "ws_wf sn'" "ws_locks sn' = ws_locks sn"
      "ws_open_sequence_number sn' = ?o"
      "\<forall>key. ws_writes sn' key = map_option (initial_flag (committed ?s ?o key)) (ws_writes sn key)"
    using set_initial_put_status_spec[of ?s sn] ready writes_fit_get_ok by blast
  define r where "r = into_commit_record ct sn'"
  have r: "cr_wf r" "cr_open_sequence_number r = ?o" "cr_lock r = ws_locks sn" "cr_writes r = ws_writes sn'"
    using sn' by (auto simp: r_def)
  obtain d' where d': "do_sequenced_write ops r ?d = (Inr n, d')"
    using sequenced_write_ok[OF assms(2)] n_def by blast
  have v: "valid d'" "do_current ops d' = seq_next n"
    using sequenced_write[OF assms(2) _ d'] ready n_def by auto
  have rv: "ready_to_validate (do_disk ops d') ds n r (im_timeline ?im)" using ready r(2) d' by blast
  have pw: "\<forall>p. Some p \<in> set (disk_preds (im_timeline ?im) (cr_open_sequence_number r) ds) \<longrightarrow> cr_wf p" using ready r(2) by simp
  have reach: "reachable ?im" using ready by blast
  have ps: "concurrent_preds ds n r (im_timeline ?im) = ps" by (simp add: concurrent_preds_of ps_def n_def r(2))
  have wf: "cr_wf p" if "Some p \<in> set ps" for p
    using preds_wf[OF _ pw, of p n] reachable_inv[OF reach] that ps by blast
  note va = validate_against_spec[OF r(1), of ps, OF wf]
  have same: "conflicts_with r p = conflicts_with (into_commit_record ct sn) p" for p
  proof -
    have sw: "ws_wf sn" using ready by blast
    have "cr_writes r key = Some Delete \<longleftrightarrow> cr_writes (into_commit_record ct sn) key = Some Delete" for key
      unfolding r(4) cr_writes_into[OF sw] sn'(5)[rule_format] by (cases "ws_writes sn key") (auto elim!: initial_flag.elims)
    from this[of "(i, k)" for i k] show ?thesis
      by (intro conflicts_with_same_writes) (simp_all add: r(3) cr_writes_def)
  qed
  have commit: "snapshot_commit ops ct sn self =
      finish_commit ops n res (self\<lparr> ms_durability_client := d', ms_isolation_manager := im' \<rparr>)"
    if "validate_commit (do_disk ops d') n r ?im = Some (im', res)" for im' res
    using that sn'(1) d' by (simp add: snapshot_commit_def Let_def flip: r_def)
  show thesis
  proof (cases "fst (validate_against ps r)")
    case None
    then obtain r' where r': "validate_against ps r = (None, r')" by (cases "validate_against ps r") simp
    obtain im' where im': "validate_commit (do_disk ops d') n r ?im = Some (im', Inr (CommitWrite (from_operations n (cr_operations r'))))"
        "im_inv im'" "tl_status (im_timeline im') n = Validated r'" "im_watermark im' = im_watermark ?im"
      using validate_commit_write[OF rv r(1), of r'] wf ps r' by auto
    have re: "reachable im'" by (rule reachable.validated[OF reach rv r(1) pw im'(1)])
    have wm: "im_watermark im' < n" using rv im'(4) by (simp add: ready_to_validate_def im_watermark_def)
    have w': "cr_wf r'" "\<forall>key. cr_writes r' key = map_option (flag_after ps (fst key) (snd key)) (cr_writes r key)"
      using va(2) None r' by (auto simp: cr_writes_def)
    show thesis
      by (rule that[OF commit[OF im'(1)] v re r(1)])
        (use sn'(5) r(4) same im' wm w' va(1) None in auto)
  next
    case (Some c)
    then obtain r' where r': "validate_against ps r = (Some c, r')" by (cases "validate_against ps r") simp
    obtain im' where im': "validate_commit (do_disk ops d') n r ?im = Some (im', Inr (CommitConflict c))"
      using validate_commit_conflict[OF rv r(1), of c r'] wf ps r' validate_against_open[of ps r] by auto
    have re: "reachable im'" by (rule reachable.validated[OF reach rv r(1) pw im'(1)])
    show thesis
      by (rule that[OF commit[OF im'] v re r(1)]) (use sn'(5) r(4) same va(1) Some in auto)
  qed
qed

end

lemma writes_fit_cong: "(\<And>key. (w key = None) = (w' key = None)) \<Longrightarrow> writes_fit s w = writes_fit s w'"
  unfolding writes_fit_def by simp

context reliable_client
begin

lemma commit_rejected:
  assumes "commit_ready ops ds sn self" "valid (ms_durability_client self)"
  defines "n \<equiv> do_current ops (ms_durability_client self)"
    and "ps \<equiv> preds_of ds (do_current ops (ms_durability_client self)) (ws_open_sequence_number sn)
                (im_timeline (ms_isolation_manager self))"
  assumes "\<exists>p. Some p \<in> set ps \<and> conflicts_with (into_commit_record ct sn) p"
  shows "\<exists>c self'. snapshot_commit ops ct sn self = Some (Inl (SceIsolation c), self') \<and>
    ms_keyspaces self' = ms_keyspaces self \<and> reachable (ms_isolation_manager self') \<and>
    valid (ms_durability_client self') \<and> do_current ops (ms_durability_client self') = seq_next n"
proof (rule commit_validates[OF assms(1,2), of ct, folded n_def ps_def], goal_cases)
  case (1 d' r im' res)
  then obtain c where c: "res = CommitConflict c" using assms(5) by blast
  obtain d2 where d2: "persist_commit_status ops False n d' = (Inr (), d2)"
    using unsequenced_write_ok[OF 1(2)] unfolding persist_commit_status_def by blast
  have "valid d2 \<and> do_current ops d2 = do_current ops d'"
    using unsequenced_write[OF 1(2)] d2 unfolding persist_commit_status_def by blast
  then show ?case using 1 c d2 by (simp add: finish_commit_def)
qed

lemma commit_accepted:
  assumes "commit_ready ops ds sn self" "valid (ms_durability_client self)"
  defines "n \<equiv> do_current ops (ms_durability_client self)"
    and "ps \<equiv> preds_of ds (do_current ops (ms_durability_client self)) (ws_open_sequence_number sn)
                (im_timeline (ms_isolation_manager self))"
    and "s \<equiv> ms_keyspaces self"
  assumes "\<not> (\<exists>p. Some p \<in> set ps \<and> conflicts_with (into_commit_record ct sn) p)"
  shows "\<exists>self'. snapshot_commit ops ct sn self = Some (Inr n, self') \<and>
    storage_wf (ms_keyspaces self') \<and> kss_ids (ms_keyspaces self') = kss_ids s \<and> versions_below (ms_keyspaces self') (seq_next n) \<and>
    (\<forall>m. committed (ms_keyspaces self') m = (if m < n then committed s m else view (committed s (n - 1)) (ws_writes sn))) \<and>
    reachable (ms_isolation_manager self') \<and> valid (ms_durability_client self') \<and>
    do_current ops (ms_durability_client self') = seq_next n \<and>
    (im_watermark (ms_isolation_manager self) + 1 = n \<longrightarrow> n \<le> im_watermark (ms_isolation_manager self'))"
proof (rule commit_validates[OF assms(1,2), of ct, folded n_def ps_def s_def], goal_cases)
  case (1 d' r im' res)
  note ready = assms(1)[unfolded commit_ready_def Let_def, folded n_def ps_def s_def]
  obtain bs where bs: "res = CommitWrite bs" using 1(7,8) assms(6) by (cases res) auto
  obtain r' where r': "bs = from_operations n (cr_operations r')" "cr_wf r'" "tl_status (im_timeline im') n = Validated r'"
      "im_watermark im' = im_watermark (ms_isolation_manager self)" "im_watermark im' < n"
      "\<And>key. cr_writes r' key = map_option (flag_after ps (fst key) (snd key)) (cr_writes r key)"
    using 1(9)[OF bs] by auto
  have n: "seq_ok n" "0 < n" using ready r'(5) by (auto simp: seq_ok_def seq_next_def)
  have "writes_fit s (cr_writes r') = writes_fit s (ws_writes sn)"
    by (rule writes_fit_cong) (simp add: r'(6) 1(6))
  then obtain s' where s': "kss_write bs s = Some (Inr (), s')" "storage_wf s'" "kss_ids s' = kss_ids s" "versions_below s' (n + 1)"
    and eff: "\<And>m key. committed s' m key =
      (if m < n then committed s m key
       else case cr_writes r' key of
         None \<Rightarrow> committed s m key
       | Some w \<Rightarrow> (case write_version w of None \<Rightarrow> committed s m key | Some (op, v) \<Rightarrow> if op = OpInsert then Some v else None))"
    using write_commit_spec[of s r' n] ready n(1) r'(1,2) by blast
  have "committed s' m = (if m < n then committed s m else view (committed s (n - 1)) (ws_writes sn))" for m
  proof
    fix key
    have flags: "cr_writes r' key = map_option (flag_after ps (fst key) (snd key) \<circ>
        initial_flag (committed s (ws_open_sequence_number sn) key)) (ws_writes sn key)" for key
      by (simp add: r'(6) 1(6) option.map_comp)
    have agree: "(kn \<longrightarrow> committed s (ws_open_sequence_number sn) key = Some v) \<and>
        (\<forall>p w x. Some p \<in> set ps \<and> cr_writes p key = Some w \<and> get_value w = Some x \<longrightarrow> x = v)"
      if "ws_writes sn key = Some (Put v re kn)" for key v re kn
      using ready that by blast
    have rp: "replay ps (committed s (ws_open_sequence_number sn)) = committed s (n - 1)" using ready by blast
    have vw: "(case cr_writes r' key of None \<Rightarrow> committed s (n - 1) key
         | Some w \<Rightarrow> (case write_version w of None \<Rightarrow> committed s (n - 1) key | Some (op, v) \<Rightarrow> if op = OpInsert then Some v else None))
       = view (committed s (n - 1)) (ws_writes sn) key"
      unfolding rp[symmetric] by (rule validated_writes) (rule flags, rule agree)
    show "committed s' m key = (if m < n then committed s m else view (committed s (n - 1)) (ws_writes sn)) key"
    proof (cases "m < n")
      case False
      have "versions_below s n" using ready by blast
      then have m: "committed s m = committed s (n - 1)" using n(2) False by (intro committed_beyond) auto
      show ?thesis unfolding eff m using vw False by (simp only: if_False)
    qed (simp add: eff)
  qed
  moreover obtain im'' where im'': "im_applied n im' = Some (Inr im'')" "reachable im''"
      "im_watermark im' + 1 = n \<longrightarrow> n \<le> im_watermark im''"
    using im_applied_wf[OF _ r'(5,3)] reachable_inv[OF 1(4)] reachable.applied[OF 1(4) r'(5,3)] by blast
  moreover obtain d2 where d2: "persist_commit_status ops True n d' = (Inr (), d2)"
    using unsequenced_write_ok[OF 1(2)] unfolding persist_commit_status_def by blast
  moreover have "valid d2 \<and> do_current ops d2 = do_current ops d'"
    using unsequenced_write[OF 1(2)] d2 unfolding persist_commit_status_def by blast
  ultimately show ?case
    using 1(1,3) bs s' r'(4) by (simp add: finish_commit_def seq_next_def s_def)
qed

end

interpretation noopr: reliable_client noop_ops noop_valid
  by unfold_locales (auto simp: noop_ops_def noop_sequenced_write_def noop_unsequenced_write_def noop_current_def Let_def)

section \<open>Fresh storages\<close>

lemma kss_open_fresh:
  "kss_open ds \<noteq> None \<and> ((\<exists>s. kss_open ds = Some (Inr s)) \<longleftrightarrow> valid_set ds) \<and>
   (\<forall>s. kss_open ds = Some (Inr s) \<longrightarrow> kss_wf s \<and> kss_keyspaces s = map ksp_new ds)"
  using kss_open_loop_spec[OF kss_wf_new, of ds] by (auto simp: kss_open_def kss_ids_def kss_new_def)

lemma fresh_contents: "kss_wf s \<Longrightarrow> kss_keyspaces s = map ksp_new ds \<Longrightarrow> kss_contents s i = Map.empty"
  by (auto simp: kss_contents_def kss_get_iff ksp_new_def mb_new_def mb_contents_def fun_eq_iff split: option.splits)

lemma empty_contents:
  assumes "kss_wf s" "\<And>i. kss_contents s i = Map.empty"
  shows "storage_wf s" "versions_below s n" "committed s m = Map.empty"
  using assms by (auto simp: storage_wf_contents stored_keys_def versions_below_def committed_def mvcc_read_None fun_eq_iff)

lemma new_window_uncovered:
  assumes "tl_windows t = [window_new (k + 1)]"
  shows "windows_wf (tl_windows t)" "\<not> covered t k"
  using assms by (simp_all add: windows_wf_def covered_def tl_start_def)

text \<open>A snapshot opened at the watermark of a storage that has committed nothing since it was created or
  imported lies before the first window, and is not counted.\<close>

lemma open_unregistered:
  assumes "tl_windows (im_timeline (ms_isolation_manager self)) = [window_new (snapshot_watermark self + 1)]"
    and "im_highest_validated_sequence_number (ms_isolation_manager self) = snapshot_watermark self"
  shows "open_snapshot_write self = Some (ws_new_with_operations (snapshot_watermark self) ob_new, self)"
  using new_window_uncovered[OF assms(1)] try_get_window_wf[of "im_timeline (ms_isolation_manager self)" "snapshot_watermark self"]
    assms(2)
  by (simp add: open_snapshot_write_def wait_for_watermark_def ws_new_def opened_for_read_def record_reader_def
      ws_new_with_operations_def Let_def snapshot_watermark_def)

section \<open>Properties\<close>


definition example_put_snapshot :: write_snapshot where
  "example_put_snapshot = ws_new_with_operations 0
     (ob_new\<lparr> ob_write_buffers := (ob_write_buffers ob_new)[0 := wb_put [7] [1] (wb_new 0)] \<rparr>)"

lemma example_put_snapshot_simps:
  "ws_wf example_put_snapshot" "ws_open_sequence_number example_put_snapshot = 0"
  "ws_writes example_put_snapshot key = (if key = (0, [7]) then Some (Put [1] False False) else None)"
  "ws_locks example_put_snapshot = Map.empty"
proof -
  show "ws_wf example_put_snapshot"
    by (auto simp: ws_wf_def example_put_snapshot_def ws_new_with_operations_def ob_wf_def ob_new_def nth_list_update
        KEYSPACE_MAXIMUM_COUNT_def)
  show "ws_writes example_put_snapshot key = (if key = (0, [7]) then Some (Put [1] False False) else None)"
    by (cases key) (auto simp: ws_writes_def example_put_snapshot_def ws_new_with_operations_def ob_new_def nth_list_update
        KEYSPACE_MAXIMUM_COUNT_def)
qed (auto simp: example_put_snapshot_def ws_new_with_operations_def ws_locks_def ob_new_def fun_eq_iff)

lemma example_commit_ready:
  assumes "im_new 1 = Some im"
  shows "commit_ready noop_ops [] example_put_snapshot
    \<lparr> ms_keyspaces = example_keyspaces, ms_durability_client = noop_new, ms_isolation_manager = im \<rparr>"
proof -
  let ?s = "example_keyspaces"
  obtain t where t: "timeline_new 1 = Some t" "im_timeline im = t" using assms by (auto simp: im_new_def bind_eq_Some_conv)
  note tn = tl_inv_new[OF t(1)]
  have "kss_keyspaces ?s = map ksp_new [\<lparr> kst_id = 2, kst_name = [65], kst_prefix_length = None \<rparr>,
      \<lparr> kst_id = 0, kst_name = [66], kst_prefix_length = None \<rparr>]" by (simp add: example_keyspaces_def)
  then have e: "kss_contents ?s i = Map.empty" for i by (rule fresh_contents[OF example_keyspaces_wf])
  have ids: "0 \<in> kss_ids ?s" by (auto simp: kss_ids_def example_keyspaces_def ksp_new_def)
  have fit: "writes_fit ?s (ws_writes example_put_snapshot)"
    using ids e by (auto simp: writes_fit_def stored_keys_def example_put_snapshot_simps keys_apart_def split: if_splits)
  have ready: "ready_to_validate (do_disk noop_ops d') [] 1 r t" if "cr_open_sequence_number r = 0" for r d'
    using tn that unfolding ready_to_validate_def disk_supplies_def covered_def by simp
  have ps: "preds_of [] 1 0 t = []" using tn by (simp add: preds_of_def disk_preds_def memory_preds_def)
  have cur: "do_current noop_ops noop_new = 1" by (simp add: noop_ops_def noop_current_def noop_new_def)
  show ?thesis
    unfolding commit_ready_def Let_def
    using empty_contents[OF example_keyspaces_wf e] fit ready ps cur t reachable.new[OF assms] tn
    by (simp add: example_put_snapshot_simps disk_preds_def seq_ok_def seq_next_def)
qed


text \<open>C17: creating an in-memory storage.  Creation never panics and succeeds exactly for a valid set of keyspaces;
  the new storage is well-formed, empty at every sequence number, reachable, at watermark 0, and a snapshot can be
  opened on it at once.\<close>

theorem storage_create_correct:
  "storage_create noop_ops ks noop_new \<noteq> None \<and>
   ((\<exists>self. storage_create noop_ops ks noop_new = Some (Inr self)) \<longleftrightarrow> valid_set ks) \<and>
   (\<forall>self. storage_create noop_ops ks noop_new = Some (Inr self) \<longrightarrow>
     storage_wf (ms_keyspaces self) \<and> kss_ids (ms_keyspaces self) = kst_id ` set ks \<and>
     (\<forall>m. committed (ms_keyspaces self) m = Map.empty) \<and> versions_below (ms_keyspaces self) 1 \<and>
     reachable (ms_isolation_manager self) \<and> snapshot_watermark self = 0 \<and>
     (\<exists>sn self'. open_snapshot_write self = Some (sn, self') \<and> ws_wf sn \<and> ws_open_sequence_number sn = 0))"
proof -
  obtain im t where im: "im_new 1 = Some im" "timeline_new 1 = Some t" "im_timeline im = t" "im_highest_validated_sequence_number im = 0"
    by (auto simp: im_new_def timeline_new_def seq_minus_def)
  have t: "tl_windows t = [window_new 1]" "tl_watermark t = 0" using im(2) by (auto simp: timeline_new_def seq_minus_def)
  have cur: "do_current noop_ops noop_new = 1" by (simp add: noop_ops_def noop_current_def noop_new_def)
  have good: "storage_wf s \<and> kss_ids s = kst_id ` set ks \<and> (\<forall>m. committed s m = Map.empty) \<and> versions_below s 1"
    if "kss_open ks = Some (Inr s)" for s
  proof -
    have s: "kss_wf s" "kss_keyspaces s = map ksp_new ks" using kss_open_fresh that by blast+
    then show ?thesis
      using empty_contents[OF s(1) fresh_contents[OF s]] by (auto simp: kss_ids_def ksp_new_def image_image)
  qed
  have opened: "open_snapshot_write \<lparr> ms_keyspaces = s, ms_durability_client = noop_new, ms_isolation_manager = im \<rparr> =
      Some (ws_new_with_operations 0 ob_new, \<lparr> ms_keyspaces = s, ms_durability_client = noop_new, ms_isolation_manager = im \<rparr>)" for s
    using open_unregistered[of "\<lparr> ms_keyspaces = s, ms_durability_client = noop_new, ms_isolation_manager = im \<rparr>"] im t
    by (simp add: snapshot_watermark_def im_watermark_def)
  have create: "storage_create noop_ops ks noop_new = map_option (\<lambda>r. case r of Inl err \<Rightarrow> Inl (SoeKeyspaceOpen err)
      | Inr s \<Rightarrow> Inr \<lparr> ms_keyspaces = s, ms_durability_client = noop_new, ms_isolation_manager = im \<rparr>) (kss_open ks)"
    using im(1) cur by (cases "kss_open ks") (auto simp: storage_create_def create_keyspaces_def split: sum.splits)
  have "ws_wf (ws_new_with_operations 0 ob_new)" "ws_open_sequence_number (ws_new_with_operations 0 ob_new) = 0"
    by (simp_all add: ws_wf_def ws_new_with_operations_def)
  note sn = this
  obtain res where res: "kss_open ks = Some res" "(\<exists>s. res = Inr s) \<longleftrightarrow> valid_set ks" using kss_open_fresh[of ks] by auto
  show ?thesis
  proof (cases res)
    case (Inl e)
    then show ?thesis using res create by auto
  next
    case (Inr s)
    let ?self = "\<lparr> ms_keyspaces = s, ms_durability_client = noop_new, ms_isolation_manager = im \<rparr>"
    have "storage_create noop_ops ks noop_new = Some (Inr ?self)" using create res(1) Inr by simp
    moreover have "snapshot_watermark ?self = 0" using im(3) t(2) by (simp add: snapshot_watermark_def im_watermark_def)
    ultimately show ?thesis
      using good[of s] opened[of s] reachable.new[OF im(1)] res Inr sn by auto
  qed
qed

theorem storage_create_correct_witness:
  "\<exists>self. storage_create noop_ops [\<lparr> kst_id = 0, kst_name = [65], kst_prefix_length = None \<rparr>] noop_new = Some (Inr self) \<and>
     storage_wf (ms_keyspaces self)"
proof -
  have "valid_set [\<lparr> kst_id = 0, kst_name = [65], kst_prefix_length = None \<rparr>]"
    by (simp add: valid_set_def KEYSPACE_MAXIMUM_COUNT_def)
  then show ?thesis using storage_create_correct[of "[\<lparr> kst_id = 0, kst_name = [65], kst_prefix_length = None \<rparr>]"] by blast
qed

text \<open>C11: exporting a storage and importing the bytes into a storage with the same keyspaces restores the
  data and the watermark, and brings the isolation manager and the durability client back in step: the next
  snapshot opens at the watermark and the next commit gets the sequence number after it.\<close>

theorem storage_snapshot_roundtrip:
  assumes "kss_wf (ms_keyspaces self)" and "kss_wf (ms_keyspaces self2)"
    and "kss_layout (ms_keyspaces self2) = kss_layout (ms_keyspaces self)"
    and "\<forall>k \<in> set (kss_keyspaces (ms_keyspaces self)). snapshot_fits k" and "snapshot_watermark self + 1 < 2 ^ 64"
  shows "\<exists>bytes self'. export_snapshot self = Inr bytes \<and>
    import_snapshot noop_ops bytes self2 = Some (Inr (snapshot_watermark self), self') \<and>
    ms_keyspaces self' = ms_keyspaces self \<and> snapshot_watermark self' = snapshot_watermark self \<and>
    noop_current (ms_durability_client self') = snapshot_watermark self + 1 \<and>
    open_snapshot_write self' = Some (ws_new_with_operations (snapshot_watermark self) ob_new, self')"
proof -
  let ?w = "snapshot_watermark self"
  obtain bytes where b: "export_snapshot_with_watermark ?w (ms_keyspaces self) = Inr bytes"
      "import_snapshot_with_watermark bytes (ms_keyspaces self2) = Some (Inr ?w, ms_keyspaces self)"
    using export_import_snapshot[OF assms(1-4), of ?w] assms(5) by auto
  let ?self' = "self2\<lparr> ms_keyspaces := ms_keyspaces self,
      ms_isolation_manager := im_reset_to_watermark ?w (ms_isolation_manager self2),
      ms_durability_client := (ms_durability_client self2)\<lparr> nc_next_sequence_number := seq_next ?w \<rparr> \<rparr>"
  have imp: "import_snapshot noop_ops bytes self2 = Some (Inr ?w, ?self')"
    using b(2) by (simp add: import_snapshot_def noop_ops_def noop_reset_to_sequence_def)
  have w: "snapshot_watermark ?self' = ?w"
    by (simp add: snapshot_watermark_def im_watermark_def im_reset_to_watermark_def timeline_new_with_watermark_def Let_def)
  have "open_snapshot_write ?self' = Some (ws_new_with_operations (snapshot_watermark ?self') ob_new, ?self')"
    by (rule open_unregistered)
      (unfold w, simp_all add: im_reset_to_watermark_def timeline_new_with_watermark_def seq_next_def Let_def)
  then show ?thesis using b(1) imp w by (simp add: export_snapshot_def noop_current_def seq_next_def)
qed

theorem storage_snapshot_roundtrip_witness:
  "\<exists>im bytes self'. im_new 1 = Some im \<and>
     export_snapshot \<lparr> ms_keyspaces = example_keyspaces, ms_durability_client = noop_new, ms_isolation_manager = im \<rparr> = Inr bytes \<and>
     import_snapshot noop_ops bytes \<lparr> ms_keyspaces = example_keyspaces, ms_durability_client = noop_new, ms_isolation_manager = im \<rparr>
       = Some (Inr 0, self') \<and> noop_current (ms_durability_client self') = 1"
proof -
  obtain im where im: "im_new 1 = Some im" "im_watermark im = 0"
    by (auto simp: im_new_def timeline_new_def seq_minus_def im_watermark_def)
  have "\<forall>k \<in> set (kss_keyspaces example_keyspaces). snapshot_fits k"
    by (simp add: example_keyspaces_def snapshot_fits_def snapshot_bytes_def exportable_def ksp_new_def mb_new_def)
  then show ?thesis
    using storage_snapshot_roundtrip[of "\<lparr> ms_keyspaces = example_keyspaces, ms_durability_client = noop_new, ms_isolation_manager = im \<rparr>"
        "\<lparr> ms_keyspaces = example_keyspaces, ms_durability_client = noop_new, ms_isolation_manager = im \<rparr>"] im
    by (auto simp: snapshot_watermark_def)
qed

text \<open>C39: committing a snapshot without writes and locks returns without a sequence number and leaves its reader
  registered: the reader count of its window stays above what it was before the snapshot was opened, where
  closing the snapshot would have brought it back.\<close>

theorem empty_commit_keeps_reader:
  assumes "reachable (ms_isolation_manager self)" and "covered (im_timeline (ms_isolation_manager self)) n"
    and "ws_new n self = Some (sn, self')"
  shows "ws_commit ops ct sn self' = Some (Inr None, self') \<and>
    tl_readers (im_timeline (ms_isolation_manager self')) n = tl_readers (im_timeline (ms_isolation_manager self)) n + 1"
proof -
  let ?t = "im_timeline (ms_isolation_manager self)"
  have wf: "windows_wf (tl_windows ?t)" using reachable_inv[OF assms(1)] tl_invD(1) by (auto simp: im_inv_def)
  note u = set_readers_status[OF wf assms(2), of "tw_readers (tl_windows ?t ! slot_window ?t n) + 1"]
  obtain t where t: "record_reader n ?t = Some t"
      "self' = self\<lparr> ms_isolation_manager := (ms_isolation_manager self)\<lparr> im_timeline := t \<rparr> \<rparr>"
      "sn = \<lparr> ws_operations = ob_new, ws_open_sequence_number = n \<rparr>"
    using assms(3) by (auto simp: ws_new_def opened_for_read_def bind_eq_Some_conv split: if_splits)
  have "tl_readers t n = tl_readers ?t n + 1"
    using t(1) assms(2) try_get_window_wf[OF wf, of n] u(6)
    by (auto simp: record_reader_def update_window_def increment_readers_def tl_readers_def[of ?t])
  moreover have "ob_is_writes_empty ob_new \<and> ob_locks_empty ob_new"
    by (simp add: ob_is_writes_empty_def ob_locks_empty_def ob_new_def list_all_iff wb_is_empty_def wb_new_def)
  ultimately show ?thesis using t(2,3) by (simp add: ws_commit_def)
qed

theorem empty_commit_keeps_reader_witness:
  "\<exists>im self' sn. reachable im \<and>
     ws_new 1 \<lparr> ms_keyspaces = example_keyspaces, ms_durability_client = noop_new, ms_isolation_manager = im \<rparr> = Some (sn, self') \<and>
     ws_commit noop_ops Data sn self' = Some (Inr None, self') \<and> 0 < tl_readers (im_timeline (ms_isolation_manager self')) 1"
proof -
  obtain im where im: "reachable im" "im_watermark im = 1" "tl_start (im_timeline im) \<le> 1" using example_applied by blast
  then have "tl_inv (im_timeline im)" using reachable_inv by (simp add: im_inv_def)
  note i = tl_invD[OF this]
  have c: "covered (im_timeline im) 1" using i(2) im by (simp add: covered_def im_watermark_def)
  let ?self = "\<lparr> ms_keyspaces = example_keyspaces, ms_durability_client = noop_new, ms_isolation_manager = im \<rparr>"
  obtain sn self' where s: "ws_new 1 ?self = Some (sn, self')"
    using record_reader_wf[OF i(1), of 1] im(2) by (auto simp: ws_new_def opened_for_read_def)
  have "ws_commit noop_ops Data sn self' = Some (Inr None, self')" "0 < tl_readers (im_timeline (ms_isolation_manager self')) 1"
    using empty_commit_keeps_reader[OF _ _ s, of noop_ops Data] im(1) c by simp_all
  then show ?thesis using im(1) s by blast
qed

text \<open>C40: a snapshot opened before the first commit of a new or imported storage is not counted as a reader, so
  the windows of the commits after it may be freed while it is open; and with the in-memory durability client
  the validation that should fall back to the log for such commits finds nothing there, whatever they wrote.\<close>

theorem first_snapshot_unprotected:
  assumes "im_new n = Some im" and "ms_isolation_manager self = im"
  shows "\<exists>sn. open_snapshot_write self = Some (sn, self) \<and>
    validate_concurrent_from_disk (do_disk noop_ops d) (into_commit_record ct sn) stop = Some (Inr (None, into_commit_record ct sn))"
proof -
  have im: "im = \<lparr> im_initial_sequence_number = n, im_timeline = \<lparr> tl_windows = [window_new n], tl_watermark = n - 1 \<rparr>,
      im_highest_validated_sequence_number = n - 1 \<rparr>" "0 < n"
    using assms(1) by (auto simp: im_new_def timeline_new_def seq_minus_def bind_eq_Some_conv split: if_splits)
  then have "snapshot_watermark self = n - 1" using assms(2) by (simp add: snapshot_watermark_def im_watermark_def)
  then have "tl_windows (im_timeline im) = [window_new (snapshot_watermark self + 1)]"
      "im_highest_validated_sequence_number im = snapshot_watermark self"
    using im by simp_all
  then have "open_snapshot_write self = Some (ws_new_with_operations (snapshot_watermark self) ob_new, self)"
    using open_unregistered[of self] assms(2) by simp
  then show ?thesis
    by (auto simp: validate_concurrent_from_disk_def iterate_commit_status_from_disk_def noop_ops_def noop_iter_type_from_def)
qed

theorem first_snapshot_unprotected_witness:
  "\<exists>im sn. im_new 1 = Some im \<and>
     open_snapshot_write \<lparr> ms_keyspaces = example_keyspaces, ms_durability_client = noop_new, ms_isolation_manager = im \<rparr> =
       Some (sn, \<lparr> ms_keyspaces = example_keyspaces, ms_durability_client = noop_new, ms_isolation_manager = im \<rparr>)"
proof -
  obtain im where im: "im_new 1 = Some im" by (auto simp: im_new_def timeline_new_def seq_minus_def)
  let ?self = "\<lparr> ms_keyspaces = example_keyspaces, ms_durability_client = noop_new, ms_isolation_manager = im \<rparr>"
  have "ms_isolation_manager ?self = im" by simp
  from first_snapshot_unprotected[OF im this, of noop_new Data 5] obtain sn where "open_snapshot_write ?self = Some (sn, ?self)"
    by (elim exE conjE)
  then show ?thesis using im by blast
qed

end
