(* ===== verification/Strings.thy ===== *)
theory Strings
  imports Prelude
begin

text \<open>
  The operations of Rust's string library that the value types use: printing and parsing integers, padding,
  trimming and splitting.  A string is the list of its UTF-8 bytes, as Isabelle characters.
\<close>

section \<open>Printing\<close>

definition digit_char :: "nat \<Rightarrow> char" where
  "digit_char n = char_of (48 + n)"

function show_nat :: "nat \<Rightarrow> string" where
  "show_nat n = (if n < 10 then [digit_char n] else show_nat (n div 10) @ [digit_char (n mod 10)])"
  by auto
termination by (relation "measure id") auto

declare show_nat.simps [simp del]

definition show_int :: "int \<Rightarrow> string" where
  "show_int i = (if i < 0 then CHR ''-'' # show_nat (nat (- i)) else show_nat (nat i))"

text \<open>\<^verbatim>\<open>{:0width$}\<close>.\<close>

definition pad_zeros :: "nat \<Rightarrow> string \<Rightarrow> string" where
  "pad_zeros width s = replicate (width - length s) (CHR ''0'') @ s"

section \<open>Parsing\<close>

definition is_ascii_digit :: "char \<Rightarrow> bool" where
  "is_ascii_digit c \<longleftrightarrow> 48 \<le> (of_char c :: nat) \<and> (of_char c :: nat) \<le> 57"

fun read_digits :: "nat \<Rightarrow> string \<Rightarrow> nat option" where
  "read_digits acc [] = Some acc"
| "read_digits acc (c # cs) = (if is_ascii_digit c then read_digits (acc * 10 + (of_char c - 48)) cs else None)"

text \<open>\<^verbatim>\<open>str::parse\<close> to an unsigned and to a signed 64-bit integer; None is \<^verbatim>\<open>ParseIntError\<close>.\<close>

definition parse_u64 :: "string \<Rightarrow> nat option" where
  "parse_u64 s =
     (let digits = (case s of c # cs \<Rightarrow> if c = CHR ''+'' then cs else s | [] \<Rightarrow> []) in
      if digits = [] then None
      else do { n \<leftarrow> read_digits 0 digits; if n < 2 ^ 64 then Some n else None })"

definition parse_i64 :: "string \<Rightarrow> int option" where
  "parse_i64 s =
     (let (negative, digits) =
        (case s of c # cs \<Rightarrow> if c = CHR ''+'' then (False, cs) else if c = CHR ''-'' then (True, cs) else (False, s)
         | [] \<Rightarrow> (False, [])) in
      if digits = [] then None
      else do {
        n \<leftarrow> read_digits 0 digits;
        let i = (if negative then - int n else int n);
        if - (2 ^ 63) \<le> i \<and> i < 2 ^ 63 then Some i else None })"

definition ends_with :: "string \<Rightarrow> string \<Rightarrow> bool" where
  "ends_with s p = suffix p s"

function trim_end_matches :: "string \<Rightarrow> string \<Rightarrow> string" where
  "trim_end_matches p s =
     (if p \<noteq> [] \<and> ends_with s p then trim_end_matches p (take (length s - length p) s) else s)"
  by auto
termination by (relation "measure (length \<circ> snd)") (auto simp: ends_with_def suffix_def)

declare trim_end_matches.simps [simp del]

definition trim_start_matches :: "char \<Rightarrow> string \<Rightarrow> string" where
  "trim_start_matches c s = dropWhile ((=) c) s"

definition split_once :: "char \<Rightarrow> string \<Rightarrow> (string \<times> string) option" where
  "split_once c s = (if c \<in> set s then Some (takeWhile ((\<noteq>) c) s, tl (dropWhile ((\<noteq>) c) s)) else None)"

section \<open>Digits\<close>

definition all_digits :: "string \<Rightarrow> bool" where
  "all_digits s \<longleftrightarrow> list_all is_ascii_digit s"

lemma of_char_digit_char [simp]: "n < 10 \<Longrightarrow> (of_char (digit_char n) :: nat) = 48 + n"
  by (simp add: digit_char_def)

lemma is_ascii_digit_digit_char [simp]: "n < 10 \<Longrightarrow> is_ascii_digit (digit_char n)"
  by (simp add: is_ascii_digit_def)

lemma all_digits_simps [simp]:
  "all_digits []" "all_digits (c # cs) \<longleftrightarrow> is_ascii_digit c \<and> all_digits cs"
  "all_digits (s @ t) \<longleftrightarrow> all_digits s \<and> all_digits t" "all_digits (replicate n (CHR ''0''))"
  by (auto simp: all_digits_def is_ascii_digit_def list_all_iff)

lemma all_digits_show_nat [simp]: "all_digits (show_nat n)"
  by (induction n rule: show_nat.induct) (subst show_nat.simps, simp)

lemma show_nat_not_Nil [simp]: "show_nat n \<noteq> []"
  by (subst show_nat.simps) simp

lemma all_digits_pad [simp]: "all_digits (pad_zeros w s) = all_digits s"
  by (simp add: pad_zeros_def)

lemma read_digits_append:
  "read_digits acc (s @ t) = (case read_digits acc s of None \<Rightarrow> None | Some acc' \<Rightarrow> read_digits acc' t)"
  by (induction acc s rule: read_digits.induct) auto

lemma read_digits_show_nat [simp]: "read_digits 0 (show_nat n) = Some n"
  by (induction n rule: show_nat.induct) (subst show_nat.simps, simp add: read_digits_append)

lemma read_digits_zeros [simp]: "read_digits 0 (replicate k (CHR ''0'')) = Some 0"
  by (induction k) (auto simp: is_ascii_digit_def)

lemma read_digits_pad [simp]: "read_digits 0 (pad_zeros w (show_nat n)) = Some n"
  by (simp add: pad_zeros_def read_digits_append)

lemma length_pad_zeros [simp]: "length (pad_zeros w s) = max w (length s)"
  by (simp add: pad_zeros_def)

lemma length_show_nat: "0 < w \<Longrightarrow> n < 10 ^ w \<Longrightarrow> length (show_nat n) \<le> w"
proof (induction w arbitrary: n)
  case (Suc w)
  show ?case
  proof (cases "n < 10")
    case False
    then have "0 < w" using Suc.prems by (cases w) auto
    moreover have "n div 10 < 10 ^ w" using Suc.prems by (simp add: less_mult_imp_div_less mult.commute)
    ultimately have "length (show_nat (n div 10)) \<le> w" by (rule Suc.IH)
    then show ?thesis using False by (subst show_nat.simps) simp
  qed (subst show_nat.simps, simp)
qed simp

lemma digit_not_sign: "is_ascii_digit c \<Longrightarrow> c \<noteq> CHR ''+'' \<and> c \<noteq> CHR ''-'' \<and> c \<noteq> CHR ''.'' \<and> c \<noteq> CHR ''d'' \<and> c \<noteq> CHR ''c''"
  by (auto simp: is_ascii_digit_def)

lemma all_digits_no_dot: "all_digits s \<Longrightarrow> CHR ''.'' \<notin> set s"
  using digit_not_sign by (auto simp: all_digits_def list_all_iff)

lemma parse_u64_digits:
  assumes "all_digits s" "s \<noteq> []" "read_digits 0 s = Some n" "n < 2 ^ 64"
  shows "parse_u64 s = Some n"
proof -
  obtain c cs where s: "s = c # cs" using assms(2) by (cases s) auto
  then have "c \<noteq> CHR ''+''" using assms(1) digit_not_sign by auto
  then show ?thesis using assms(2-4) s by (simp add: parse_u64_def)
qed

lemma parse_i64_digits:
  assumes "all_digits s" "s \<noteq> []" "read_digits 0 s = Some n"
  shows "parse_i64 s = (if n < 2 ^ 63 then Some (int n) else None)"
proof -
  obtain c cs where s: "s = c # cs" using assms(2) by (cases s) auto
  then have "c \<noteq> CHR ''+''" "c \<noteq> CHR ''-''" using assms(1) digit_not_sign by auto
  then show ?thesis using assms(2,3) s by (simp add: parse_i64_def)
qed

lemma length_trim_end_matches: "length (trim_end_matches p s) \<le> length s"
proof (induction p s rule: trim_end_matches.induct)
  case (1 p s)
  have step: "trim_end_matches p s =
      (if p \<noteq> [] \<and> ends_with s p then trim_end_matches p (take (length s - length p) s) else s)"
    by (rule trim_end_matches.simps)
  show ?case
  proof (cases "p \<noteq> [] \<and> ends_with s p")
    case True
    then show ?thesis using "1.IH" step by auto
  next
    case False
    then show ?thesis using step by auto
  qed
qed

lemma trim_end_matches_once:
  assumes "p \<noteq> []" "\<not> ends_with s p"
  shows "trim_end_matches p (s @ p) = s"
  using assms by (subst trim_end_matches.simps, simp add: ends_with_def suffixI) (subst trim_end_matches.simps, simp add: ends_with_def)

lemma split_once_first:
  assumes "c \<notin> set s"
  shows "split_once c (s @ c # t) = Some (s, t)"
  using assms by (simp add: split_once_def takeWhile_append dropWhile_append takeWhile_eq_all_conv)

lemma read_digits_bound: "read_digits acc s = Some n \<Longrightarrow> n < (acc + 1) * 10 ^ length s"
proof (induction s arbitrary: acc)
  case (Cons c s)
  let ?k = "of_char c - 48 :: nat"
  have c: "is_ascii_digit c" "read_digits (acc * 10 + ?k) s = Some n" using Cons.prems by (auto split: if_splits)
  from c(1) have "?k \<le> 9" unfolding is_ascii_digit_def by linarith
  then have "(acc * 10 + ?k + 1) * 10 ^ length s \<le> ((acc + 1) * 10) * 10 ^ length s" by (intro mult_right_mono) simp_all
  then show ?case using Cons.IH[OF c(2)] by (simp add: algebra_simps)
qed simp

lemma parse_u64_bound:
  assumes "parse_u64 s = Some n"
  shows "n < 2 ^ 64" "n < 10 ^ length s" "s \<noteq> []"
proof -
  define t where "t = (case s of c # cs \<Rightarrow> if c = CHR ''+'' then cs else s | [] \<Rightarrow> [])"
  have t: "t \<noteq> []" "read_digits 0 t = Some n" "n < 2 ^ 64"
    using assms unfolding parse_u64_def t_def[symmetric] by (auto simp: Let_def bind_eq_Some_conv split: if_splits)
  have len: "length t \<le> length s" by (auto simp: t_def split: list.splits)
  have "n < 10 ^ length t" using read_digits_bound[OF t(2)] by simp
  also have "\<dots> \<le> 10 ^ length s" using len by (intro power_increasing) simp_all
  finally show "n < 10 ^ length s" .
  show "n < 2 ^ 64" "s \<noteq> []" using t len by auto
qed

end
