(* ===== verification/Decimal.thy ===== *)
theory Decimal
  imports Strings
begin

text \<open>
  Fixed-point decimals (\<^verbatim>\<open>src/encoding/value/decimal_value.rs\<close>): a signed 64-bit integer part, rounded down, and
  an unsigned 64-bit count of 10^-19 parts.  The integer parts wrap as in a build without overflow checks; the
  128-bit intermediate results cannot overflow and are plain integers.  \<open>dec_value\<close> is the number of 10^-19 parts
  a decimal stands for; the theorems show that the arithmetic is exact on it, or correctly rounded, whenever the
  result is representable, and that printing and parsing are inverse.  Conversions to and from floating point are
  not modelled.
\<close>

section \<open>Decimals\<close>

definition FRACTIONAL_PART_DENOMINATOR_LOG10 :: nat where "FRACTIONAL_PART_DENOMINATOR_LOG10 = 19"

definition FRACTIONAL_PART_DENOMINATOR :: "64 word" where
  "FRACTIONAL_PART_DENOMINATOR = 10 ^ FRACTIONAL_PART_DENOMINATOR_LOG10"

record decimal =
  dec_integer :: "64 word"
  dec_fractional :: "64 word"

definition dec_new :: "64 word \<Rightarrow> 64 word \<Rightarrow> decimal" where
  "dec_new integer fractional_parts = \<lparr> dec_integer = integer, dec_fractional = fractional_parts \<rparr>"

definition dec_MIN :: decimal where
  "dec_MIN = dec_new (word_of_int (- (2 ^ 63))) 0"

definition dec_MAX :: decimal where
  "dec_MAX = dec_new (word_of_int (2 ^ 63 - 1)) (FRACTIONAL_PART_DENOMINATOR - 1)"

text \<open>Signed comparisons read the integer part with \<^const>\<open>sint\<close>.\<close>

definition dec_abs :: "decimal \<Rightarrow> decimal" where
  "dec_abs self =
     (if 0 \<le> sint (dec_integer self) then self
      else if dec_fractional self = 0 then \<lparr> dec_integer = - dec_integer self, dec_fractional = 0 \<rparr>
      else \<lparr> dec_integer = - dec_integer self - 1,
             dec_fractional = FRACTIONAL_PART_DENOMINATOR - dec_fractional self \<rparr>)"

definition dec_floor :: "decimal \<Rightarrow> 64 word" where
  "dec_floor self = dec_integer self"

definition dec_ceil :: "decimal \<Rightarrow> 64 word" where
  "dec_ceil self = (if dec_fractional self = 0 then dec_integer self else dec_integer self + 1)"

text \<open>\<^verbatim>\<open>rem_euclid(2)\<close> is the parity of the integer part.\<close>

definition dec_round :: "decimal \<Rightarrow> 64 word" where
  "dec_round self =
     (let half = FRACTIONAL_PART_DENOMINATOR div 2 in
      if dec_fractional self < half then dec_integer self
      else if dec_fractional self = half then dec_integer self + word_of_int (sint (dec_integer self) mod 2)
      else dec_integer self + 1)"

section \<open>Arithmetic\<close>

definition overflowing_add :: "'a::len word \<Rightarrow> 'a word \<Rightarrow> 'a word \<times> bool" where
  "overflowing_add x y = (x + y, 2 ^ LENGTH('a) \<le> uint x + uint y)"

definition overflowing_sub :: "'a::len word \<Rightarrow> 'a word \<Rightarrow> 'a word \<times> bool" where
  "overflowing_sub x y = (x - y, uint x < uint y)"

text \<open>The last branch of the match is \<^verbatim>\<open>unreachable!\<close>.\<close>

definition dec_add :: "decimal \<Rightarrow> decimal \<Rightarrow> decimal option" where
  "dec_add lhs rhs = do {
     (fractional, carry) \<leftarrow>
       (case overflowing_add (dec_fractional lhs) (dec_fractional rhs) of
          (frac, False) \<Rightarrow>
            if frac < FRACTIONAL_PART_DENOMINATOR then Some (frac, 0)
            else Some (frac - FRACTIONAL_PART_DENOMINATOR, 1)
        | (frac, True) \<Rightarrow>
            if frac < FRACTIONAL_PART_DENOMINATOR then Some (frac + (0 - FRACTIONAL_PART_DENOMINATOR), 1)
            else None);
     let integer = dec_integer lhs + dec_integer rhs + carry;
     Some (dec_new integer fractional) }"

definition dec_sub :: "decimal \<Rightarrow> decimal \<Rightarrow> decimal" where
  "dec_sub lhs rhs =
     (let (fractional, carry) =
        (case overflowing_sub (dec_fractional lhs) (dec_fractional rhs) of
           (frac, False) \<Rightarrow> (frac, 0)
         | (frac, True) \<Rightarrow> (frac + FRACTIONAL_PART_DENOMINATOR, 1));
        integer = dec_integer lhs - dec_integer rhs - carry
      in dec_new integer fractional)"

definition dec_neg :: "decimal \<Rightarrow> decimal" where
  "dec_neg self = dec_sub (dec_new 0 0) self"

text \<open>Division and remainder of \<^verbatim>\<open>i128\<close> truncate towards zero.\<close>

definition quot :: "int \<Rightarrow> int \<Rightarrow> int" where
  "quot a b = sgn a * sgn b * (\<bar>a\<bar> div \<bar>b\<bar>)"

definition rem' :: "int \<Rightarrow> int \<Rightarrow> int" where
  "rem' a b = a - quot a b * b"

text \<open>The loop that makes the fractional part non-negative.\<close>

function normalise_fraction :: "int \<Rightarrow> int \<Rightarrow> int \<Rightarrow> int \<times> int" where
  "normalise_fraction denominator carry fractional =
     (if fractional < 0 \<and> 0 < denominator
      then normalise_fraction denominator (carry - 1) (fractional + denominator)
      else (carry, fractional))"
  by auto
termination by (relation "measure (\<lambda>(d, c, f). nat (- f))") auto

declare normalise_fraction.simps [simp del]

definition dec_mul :: "decimal \<Rightarrow> decimal \<Rightarrow> decimal" where
  "dec_mul lhs rhs =
     (let extended_denominator = uint FRACTIONAL_PART_DENOMINATOR;
          lf = uint (dec_fractional lhs); rf = uint (dec_fractional rhs);
          li = sint (dec_integer lhs); ri = sint (dec_integer rhs);
          fractional = quot (lf * rf + quot extended_denominator 2) extended_denominator
            + rem' (lf * ri) extended_denominator + rem' (li * rf) extended_denominator;
          carry = quot fractional extended_denominator;
          fractional = rem' fractional extended_denominator;
          (carry, fractional) = normalise_fraction extended_denominator carry fractional;
          integer = sint (dec_integer lhs * dec_integer rhs)
            + quot (lf * ri) extended_denominator + quot (li * rf) extended_denominator + carry
      in dec_new (word_of_int integer) (word_of_int fractional))"

definition dec_div :: "decimal \<Rightarrow> 64 word \<Rightarrow> decimal option" where
  "dec_div self rhs =
     (if rhs = 0 then None
      else
        let d = uint FRACTIONAL_PART_DENOMINATOR;
            i128 = quot (sint (dec_integer self) * d + uint (dec_fractional self)) (uint rhs);
            int' = word_of_int (i128 div d);
            frac = word_of_int (i128 mod d)
        in Some (dec_new int' frac))"

definition dec_from :: "64 word \<Rightarrow> decimal" where
  "dec_from value' = dec_new value' 0"

text \<open>The derived order compares the integer parts, then the fractional parts.\<close>

definition dec_less :: "decimal \<Rightarrow> decimal \<Rightarrow> bool" where
  "dec_less a b \<longleftrightarrow> sint (dec_integer a) < sint (dec_integer b) \<or>
     dec_integer a = dec_integer b \<and> dec_fractional a < dec_fractional b"

section \<open>Text\<close>

datatype parse_int_error = ParseIntError

text \<open>The number of digits after the point is a \<^verbatim>\<open>u32\<close>; beyond 19 digits the subtraction wraps.\<close>

definition dec_from_str :: "string \<Rightarrow> parse_int_error + decimal" where
  "dec_from_str str =
     (let str = (if ends_with str ''dec'' then trim_end_matches ''dec'' str else str);
          is_negative = starts_with str ''-'';
          str = (if is_negative then trim_start_matches (CHR ''-'') str else str);
          (integer_part, fractional_part) = (case split_once (CHR ''.'') str of Some p \<Rightarrow> p | None \<Rightarrow> (str, ''0''))
      in case parse_i64 integer_part of
           None \<Rightarrow> Inl ParseIntError
         | Some i \<Rightarrow>
             let num_fractional_digits = of_nat (length fractional_part) :: 32 word in
             (case parse_u64 fractional_part of
                None \<Rightarrow> Inl ParseIntError
              | Some n \<Rightarrow>
                  let integer = word_of_int i :: 64 word;
                      fractional = of_nat n * 10 ^ unat (of_nat FRACTIONAL_PART_DENOMINATOR_LOG10 - num_fractional_digits) :: 64 word
                  in Inr (if is_negative then dec_neg (dec_new integer fractional) else dec_new integer fractional)))"

text \<open>The loop that drops trailing zeros is entered with a positive fraction.\<close>

function count_tail_zeros :: "nat \<Rightarrow> nat \<Rightarrow> nat \<times> nat" where
  "count_tail_zeros tail_0s fractional =
     (if fractional mod 10 = 0 \<and> 0 < fractional then count_tail_zeros (tail_0s + 1) (fractional div 10)
      else (tail_0s, fractional))"
  by auto
termination by (relation "measure snd") auto

declare count_tail_zeros.simps [simp del]

definition dec_fmt :: "decimal \<Rightarrow> string" where
  "dec_fmt self =
     (if dec_fractional self = 0 then show_int (sint (dec_integer self)) @ ''.0dec''
      else
        let (is_negative, int', frac) =
              (if sint (dec_integer self) < 0
               then (True, \<bar>sint (dec_integer self + 1)\<bar>, FRACTIONAL_PART_DENOMINATOR - dec_fractional self)
               else (False, sint (dec_integer self), dec_fractional self));
            (tail_0s, fractional) = count_tail_zeros 0 (unat frac);
            sign = (if is_negative then ''-'' else '''');
            fractional_width = FRACTIONAL_PART_DENOMINATOR_LOG10 - tail_0s
        in sign @ show_int int' @ ''.'' @ pad_zeros fractional_width (show_nat fractional) @ ''dec'')"

section \<open>The number a decimal stands for\<close>

abbreviation DENOM :: int where "DENOM \<equiv> 10 ^ 19"

definition dec_wf :: "decimal \<Rightarrow> bool" where
  "dec_wf d \<longleftrightarrow> uint (dec_fractional d) < DENOM"

definition dec_value :: "decimal \<Rightarrow> int" where
  "dec_value d = sint (dec_integer d) * DENOM + uint (dec_fractional d)"

definition dec_representable :: "int \<Rightarrow> bool" where
  "dec_representable v \<longleftrightarrow> - (2 ^ 63) * DENOM \<le> v \<and> v < 2 ^ 63 * DENOM"

lemma uint_DENOM [simp]: "uint FRACTIONAL_PART_DENOMINATOR = DENOM" "FRACTIONAL_PART_DENOMINATOR \<noteq> 0"
  by (simp_all add: FRACTIONAL_PART_DENOMINATOR_def FRACTIONAL_PART_DENOMINATOR_LOG10_def)

lemma sint_bound: "- (2 ^ 63) \<le> sint (x :: 64 word)" "sint (x :: 64 word) < 2 ^ 63"
  using sint_ge[of x] sint_lt[of x] by simp_all

lemma sint_word_of_int: "- (2 ^ 63) \<le> i \<Longrightarrow> i < 2 ^ 63 \<Longrightarrow> sint (word_of_int i :: 64 word) = i"
  by (simp add: signed_of_int signed_take_bit_int_eq_self)

lemma uint_word_of_int: "0 \<le> i \<Longrightarrow> i < 2 ^ 64 \<Longrightarrow> uint (word_of_int i :: 64 word) = i"
  by (simp add: unsigned_of_int take_bit_int_eq_self)

lemma dec_split:
  assumes "0 \<le> f" "f < DENOM" "dec_representable (i * DENOM + f)"
  shows "- (2 ^ 63) \<le> i" "i < 2 ^ 63"
  using assms by (simp_all add: dec_representable_def)

text \<open>A decimal whose parts are those of a representable number stands for it.\<close>

lemma dec_value_new:
  assumes "0 \<le> f" "f < DENOM"
  shows "dec_wf (dec_new (word_of_int i) (word_of_int f))"
    and "dec_representable (i * DENOM + f) \<Longrightarrow> dec_value (dec_new (word_of_int i) (word_of_int f)) = i * DENOM + f"
proof -
  have f: "uint (word_of_int f :: 64 word) = f" using assms by (intro uint_word_of_int) simp_all
  then show "dec_wf (dec_new (word_of_int i) (word_of_int f))" using assms by (simp add: dec_wf_def dec_new_def)
  assume "dec_representable (i * DENOM + f)"
  then have "sint (word_of_int i :: 64 word) = i" using dec_split[OF assms] by (intro sint_word_of_int)
  then show "dec_value (dec_new (word_of_int i) (word_of_int f)) = i * DENOM + f"
    using f by (simp add: dec_value_def dec_new_def)
qed

lemma dec_representable_parts:
  "- (2 ^ 63) \<le> i \<Longrightarrow> i < 2 ^ 63 \<Longrightarrow> 0 \<le> f \<Longrightarrow> f < DENOM \<Longrightarrow> dec_representable (i * DENOM + f)"
  by (simp add: dec_representable_def)

lemma dec_representable_value: "dec_wf d \<Longrightarrow> dec_representable (dec_value d)"
  unfolding dec_value_def dec_wf_def by (intro dec_representable_parts sint_bound uint_ge_0)

lemma word_int_parts: "(x :: 64 word) = word_of_int (sint x)" "(x :: 64 word) = word_of_int (uint x)"
  by simp_all

lemma dec_add_eq:
  assumes "dec_wf a" "dec_wf b"
  defines "c \<equiv> if uint (dec_fractional a) + uint (dec_fractional b) < DENOM then 0 else 1"
  shows "dec_add a b = Some (dec_new (word_of_int (sint (dec_integer a) + sint (dec_integer b) + c))
    (word_of_int (uint (dec_fractional a) + uint (dec_fractional b) - c * DENOM)))"
proof -
  let ?x = "dec_fractional a" and ?y = "dec_fractional b"
  have i: "dec_integer a + dec_integer b + word_of_int c = word_of_int (sint (dec_integer a) + sint (dec_integer b) + c)" by simp
  have f: "word_of_int (uint ?x + uint ?y - k * DENOM) = ?x + ?y - word_of_int k * FRACTIONAL_PART_DENOMINATOR" for k
    by (simp add: FRACTIONAL_PART_DENOMINATOR_def FRACTIONAL_PART_DENOMINATOR_LOG10_def)
  have less: "w < FRACTIONAL_PART_DENOMINATOR \<longleftrightarrow> uint w < DENOM" for w :: "64 word"
    by (simp add: word_less_def)
  have sum: "uint (?x + ?y) = (if uint ?x + uint ?y < 2 ^ 64 then uint ?x + uint ?y else uint ?x + uint ?y - 2 ^ 64)"
    using uint_lt2p[of ?x] uint_lt2p[of ?y] uint_ge_0[of ?x] uint_ge_0[of ?y] by (simp add: uint_plus_if')
  show ?thesis
    using assms(1,2) unfolding dec_add_def overflowing_add_def i[symmetric] f c_def dec_wf_def
    by (auto simp: less sum Let_def split: bool.splits)
qed

lemma dec_sub_eq:
  assumes "dec_wf a" "dec_wf b"
  defines "c \<equiv> if uint (dec_fractional b) \<le> uint (dec_fractional a) then 0 else 1"
  shows "dec_sub a b = dec_new (word_of_int (sint (dec_integer a) - sint (dec_integer b) - c))
    (word_of_int (uint (dec_fractional a) - uint (dec_fractional b) + c * DENOM))"
proof -
  have i: "dec_integer a - dec_integer b - word_of_int c = word_of_int (sint (dec_integer a) - sint (dec_integer b) - c)" by simp
  have f: "word_of_int (uint (dec_fractional a) - uint (dec_fractional b) + k * DENOM) =
      dec_fractional a - dec_fractional b + word_of_int k * FRACTIONAL_PART_DENOMINATOR" for k
    by (simp add: FRACTIONAL_PART_DENOMINATOR_def FRACTIONAL_PART_DENOMINATOR_LOG10_def)
  show ?thesis
    unfolding dec_sub_def overflowing_sub_def i[symmetric] f c_def by (auto simp: not_le split: bool.splits)
qed

lemma dec_add_spec:
  assumes "dec_wf a" "dec_wf b"
  shows "\<exists>c. dec_add a b = Some c \<and> dec_wf c \<and>
    (dec_representable (dec_value a + dec_value b) \<longrightarrow> dec_value c = dec_value a + dec_value b)"
proof -
  let ?f = "uint (dec_fractional a) + uint (dec_fractional b)"
  let ?c = "if ?f < DENOM then 0 else 1 :: int"
  have "0 \<le> ?f - ?c * DENOM" "?f - ?c * DENOM < DENOM" using assms unfolding dec_wf_def by auto
  moreover have "dec_value a + dec_value b = (sint (dec_integer a) + sint (dec_integer b) + ?c) * DENOM + (?f - ?c * DENOM)"
    by (simp add: dec_value_def algebra_simps)
  ultimately show ?thesis using dec_add_eq[OF assms] dec_value_new by metis
qed

lemma dec_sub_spec:
  assumes "dec_wf a" "dec_wf b"
  shows "dec_wf (dec_sub a b) \<and>
    (dec_representable (dec_value a - dec_value b) \<longrightarrow> dec_value (dec_sub a b) = dec_value a - dec_value b)"
proof -
  let ?f = "uint (dec_fractional a) - uint (dec_fractional b)"
  let ?c = "if uint (dec_fractional b) \<le> uint (dec_fractional a) then 0 else 1 :: int"
  have "0 \<le> x \<Longrightarrow> 0 \<le> y \<Longrightarrow> x < DENOM \<Longrightarrow> y < DENOM \<Longrightarrow>
      0 \<le> x - y + (if y \<le> x then 0 else 1) * DENOM \<and> x - y + (if y \<le> x then 0 else 1) * DENOM < DENOM" for x y by simp
  then have "0 \<le> ?f + ?c * DENOM" "?f + ?c * DENOM < DENOM" using assms unfolding dec_wf_def by blast+
  moreover have "dec_value a - dec_value b = (sint (dec_integer a) - sint (dec_integer b) - ?c) * DENOM + (?f + ?c * DENOM)"
    by (simp add: dec_value_def algebra_simps)
  ultimately show ?thesis using dec_sub_eq[OF assms] dec_value_new by metis
qed

lemma normalise_fraction_spec:
  assumes "0 < d" "f < d"
  shows "\<exists>c' f'. normalise_fraction d c f = (c', f') \<and> c' * d + f' = c * d + f \<and> 0 \<le> f' \<and> f' < d"
  using assms
proof (induction d c f rule: normalise_fraction.induct)
  case (1 d c f)
  show ?case
  proof (cases "f < 0")
    case True
    then show ?thesis
      using 1 by (subst normalise_fraction.simps) (auto simp: algebra_simps)
  qed (use 1 in \<open>subst normalise_fraction.simps; simp\<close>)
qed

lemma quot_rem: "quot a b * b + rem' a b = a"
  by (simp add: rem'_def)

lemma quot_nonneg: "0 \<le> a \<Longrightarrow> 0 < b \<Longrightarrow> quot a b = a div b"
  by (cases "a = 0") (simp_all add: quot_def)

lemma quot_neg: "a < 0 \<Longrightarrow> 0 < b \<Longrightarrow> quot a b = - ((- a) div b)"
  by (simp add: quot_def)

lemma rem'_less: "0 < b \<Longrightarrow> rem' a b < b"
proof (cases "0 \<le> a")
  case True
  assume "0 < b"
  then show ?thesis using True pos_mod_bound[of b a] by (simp add: rem'_def quot_nonneg minus_div_mult_eq_mod)
next
  case False
  assume "0 < b"
  then show ?thesis using False pos_mod_sign[of b "- a"] by (simp add: rem'_def quot_neg minus_div_mult_eq_mod[symmetric])
qed

text \<open>Multiplication rounds the exact product to the nearest part, halves upwards.\<close>

lemma dec_mul_spec:
  assumes "dec_wf a" "dec_wf b"
  defines "v \<equiv> (dec_value a * dec_value b + DENOM div 2) div DENOM"
  shows "dec_wf (dec_mul a b) \<and> (dec_representable v \<longrightarrow> dec_value (dec_mul a b) = v)"
proof -
  define lf rf li ri where parts: "lf = uint (dec_fractional a)" "rf = uint (dec_fractional b)"
    "li = sint (dec_integer a)" "ri = sint (dec_integer b)"
  define q where "q = (lf * rf + DENOM div 2) div DENOM"
  define F where "F = q + rem' (lf * ri) DENOM + rem' (li * rf) DENOM"
  obtain c f where n: "normalise_fraction DENOM (quot F DENOM) (rem' F DENOM) = (c, f)" "c * DENOM + f = F" "0 \<le> f" "f < DENOM"
    using normalise_fraction_spec[of DENOM "rem' F DENOM" "quot F DENOM"] rem'_less[of DENOM F] quot_rem[of F DENOM] by auto
  define I where "I = li * ri + quot (lf * ri) DENOM + quot (li * rf) DENOM + c"
  have "0 \<le> lf" "0 \<le> rf" by (simp_all add: parts)
  then have q: "quot (lf * rf + quot DENOM 2) DENOM = q" by (simp add: q_def quot_nonneg)
  have i: "(word_of_int (sint (dec_integer a * dec_integer b) + quot (lf * ri) DENOM + quot (li * rf) DENOM + c) :: 64 word)
      = word_of_int I"
    by (simp add: I_def parts)
  have mul: "dec_mul a b = dec_new (word_of_int I) (word_of_int f)"
    unfolding dec_mul_def Let_def uint_DENOM parts[symmetric] q F_def[symmetric] n(1) prod.case i ..
  have "v = (DENOM * (li * ri * DENOM + lf * ri + li * rf) + (lf * rf + DENOM div 2)) div DENOM"
    unfolding v_def dec_value_def parts[symmetric] by (simp only: algebra_simps)
  also have "\<dots> = li * ri * DENOM + lf * ri + li * rf + q"
    unfolding q_def by (subst div_mult_self4) simp_all
  also have "\<dots> = I * DENOM + f"
    using n(2) quot_rem[of "lf * ri" DENOM] quot_rem[of "li * rf" DENOM] unfolding I_def F_def
    by (simp add: algebra_simps)
  finally show ?thesis using dec_value_new[OF n(3,4), of I] mul by simp
qed

lemma quot_representable:
  assumes "dec_representable v" "0 < r"
  shows "dec_representable (quot v r)"
proof (cases "0 \<le> v")
  case True
  then have "0 \<le> v div r" "v div r \<le> v" using assms(2) zdiv_mono2[of v 1 r] by (simp_all add: pos_imp_zdiv_nonneg_iff)
  then show ?thesis using assms True by (simp add: dec_representable_def quot_nonneg)
next
  case False
  then have "0 \<le> (- v) div r" "(- v) div r \<le> - v" using assms(2) zdiv_mono2[of "- v" 1 r] by (simp_all add: pos_imp_zdiv_nonneg_iff)
  then show ?thesis using assms False by (simp add: dec_representable_def quot_neg)
qed

lemma dec_div_spec:
  assumes "dec_wf a" "r \<noteq> 0"
  shows "\<exists>c. dec_div a r = Some c \<and> dec_wf c \<and> dec_value c = quot (dec_value a) (uint r)"
proof -
  let ?q = "quot (dec_value a) (uint r)"
  have "0 < uint r" using assms(2) by (simp add: order_less_le uint_0_iff eq_commute[of 0])
  then have "dec_representable ?q" using dec_representable_value[OF assms(1)] by (intro quot_representable)
  moreover have "0 \<le> ?q mod DENOM" "?q mod DENOM < DENOM" "?q div DENOM * DENOM + ?q mod DENOM = ?q" by simp_all
  ultimately show ?thesis
    using assms(2) dec_value_new[of "?q mod DENOM" "?q div DENOM"]
    by (simp add: dec_div_def Let_def dec_value_def)
qed

lemma dec_abs_spec:
  assumes "dec_wf a"
  shows "dec_wf (dec_abs a) \<and> (dec_representable \<bar>dec_value a\<bar> \<longrightarrow> dec_value (dec_abs a) = \<bar>dec_value a\<bar>)"
proof -
  let ?i = "sint (dec_integer a)" and ?f = "uint (dec_fractional a)"
  have f: "0 \<le> ?f" "?f < DENOM" using assms by (simp_all add: dec_wf_def)
  consider "0 \<le> ?i" | "?i < 0" "?f = 0" | "?i < 0" "0 < ?f" using f by linarith
  then show ?thesis
  proof cases
    case 1
    then show ?thesis using assms f by (simp add: dec_abs_def dec_value_def)
  next
    case 2
    then have "dec_abs a = dec_new (word_of_int (- ?i)) (word_of_int 0)" "\<bar>dec_value a\<bar> = (- ?i) * DENOM + 0"
      by (auto simp: dec_abs_def dec_new_def dec_value_def uint_0_iff)
    then show ?thesis using dec_value_new[of 0 "- ?i"] by simp
  next
    case 3
    then have "dec_abs a = dec_new (word_of_int (- ?i - 1)) (word_of_int (DENOM - ?f))"
      "\<bar>dec_value a\<bar> = (- ?i - 1) * DENOM + (DENOM - ?f)"
      using f by (auto simp: dec_abs_def dec_new_def dec_value_def FRACTIONAL_PART_DENOMINATOR_def
          FRACTIONAL_PART_DENOMINATOR_LOG10_def)
    then show ?thesis using dec_value_new[of "DENOM - ?f" "- ?i - 1"] 3 f by simp
  qed
qed

section \<open>Order and text\<close>

lemma dec_value_eq_iff:
  assumes "dec_wf a" "dec_wf b"
  shows "dec_value a = dec_value b \<longleftrightarrow> a = b" "dec_value a < dec_value b \<longleftrightarrow> dec_less a b"
proof -
  have f: "0 \<le> uint (dec_fractional a)" "uint (dec_fractional a) < DENOM" "0 \<le> uint (dec_fractional b)" "uint (dec_fractional b) < DENOM"
    using assms by (simp_all add: dec_wf_def)
  have digits: "i * DENOM + f = j * DENOM + g \<longleftrightarrow> i = j \<and> f = g" "i * DENOM + f < j * DENOM + g \<longleftrightarrow> i < j \<or> i = j \<and> f < g"
    if "0 \<le> f" "f < DENOM" "0 \<le> g" "g < DENOM" for i j f g :: int
  proof -
    have "i = j" if "i * DENOM + f = j * DENOM + g"
      using arg_cong[OF that, of "\<lambda>x. x div DENOM"] \<open>0 \<le> f\<close> \<open>f < DENOM\<close> \<open>0 \<le> g\<close> \<open>g < DENOM\<close> by simp
    then show "i * DENOM + f = j * DENOM + g \<longleftrightarrow> i = j \<and> f = g" by auto
    show "i * DENOM + f < j * DENOM + g \<longleftrightarrow> i < j \<or> i = j \<and> f < g"
      using that by (cases i j rule: linorder_cases) auto
  qed
  have inj: "sint x = sint y \<longleftrightarrow> x = y" "uint x = uint y \<longleftrightarrow> x = y" for x y :: "64 word"
    using signed_word_eqI word_uint_eqI by blast+
  show "dec_value a = dec_value b \<longleftrightarrow> a = b"
    unfolding dec_value_def digits(1)[OF f] by (cases a; cases b) (simp add: inj)
  show "dec_value a < dec_value b \<longleftrightarrow> dec_less a b"
    unfolding dec_value_def digits(2)[OF f] dec_less_def by (simp add: word_less_def inj)
qed

lemma dec_ext: "dec_wf a \<Longrightarrow> dec_wf b \<Longrightarrow> dec_value a = dec_value b \<Longrightarrow> a = b"
  by (simp add: dec_value_eq_iff)

lemma count_tail_zeros_spec:
  "0 < n \<Longrightarrow> \<exists>k m. count_tail_zeros t n = (t + k, m) \<and> n = m * 10 ^ k \<and> 0 < m"
proof (induction t n rule: count_tail_zeros.induct)
  case (1 t n)
  show ?case
  proof (cases "n mod 10 = 0")
    case True
    then have "0 < n div 10" "n = n div 10 * 10" using "1.prems" by auto
    then obtain k m where "count_tail_zeros (t + 1) (n div 10) = (t + 1 + k, m)" "n div 10 = m * 10 ^ k" "0 < m"
      using "1.IH" True "1.prems" by blast
    then show ?thesis
      using True "1.prems" \<open>n = n div 10 * 10\<close> by (subst count_tail_zeros.simps) (auto intro!: exI[of _ "Suc k"])
  qed (use "1.prems" in \<open>subst count_tail_zeros.simps; auto intro!: exI[of _ "0::nat"]\<close>)
qed

text \<open>Parsing a sign, digits, a point and at most 19 digits.\<close>

definition signed_text :: "bool \<Rightarrow> nat \<Rightarrow> string \<Rightarrow> string" where
  "signed_text neg i frac = (if neg then ''-'' else '''') @ show_nat i @ ''.'' @ frac @ ''dec''"

lemma dec_from_str_text:
  assumes "all_digits frac" "frac \<noteq> []" "length frac \<le> 19" "read_digits 0 frac = Some n" "n < 2 ^ 64"
  shows "dec_from_str (signed_text neg i frac) =
    (if i < 2 ^ 63
     then let d = dec_new (of_nat i) (of_nat n * 10 ^ (19 - length frac)) in Inr (if neg then dec_neg d else d)
     else Inl ParseIntError)"
proof -
  let ?body = "show_nat i @ ''.'' @ frac" and ?sign = "if neg then ''-'' else ''''"
  have st: "signed_text neg i frac = (?sign @ ?body) @ ''dec''" by (simp add: signed_text_def)
  have "is_ascii_digit (last frac)" using assms(1,2) by (simp add: all_digits_def list_all_iff)
  then have "last (?sign @ ?body) \<noteq> CHR ''c''" using digit_not_sign assms(2) by auto
  moreover have "last (zs @ ''dec'') = CHR ''c''" for zs by simp
  ultimately have "\<not> ends_with (?sign @ ?body) ''dec''" unfolding ends_with_def suffix_def by metis
  then have trim: "trim_end_matches ''dec'' (signed_text neg i frac) = ?sign @ ?body"
    unfolding st by (intro trim_end_matches_once) simp_all
  have "ends_with (signed_text neg i frac) ''dec''" unfolding st ends_with_def by (rule suffixI) simp
  obtain c cs where c: "show_nat i = c # cs" "is_ascii_digit c"
    using all_digits_show_nat[of i] show_nat_not_Nil[of i] by (cases "show_nat i") auto
  then have neg: "starts_with (?sign @ ?body) ''-'' = neg" "trim_start_matches (CHR ''-'') (''-'' @ ?body) = ?body"
    using digit_not_sign[OF c(2)] by (auto simp: starts_with_def trim_start_matches_def)
  have split: "split_once (CHR ''.'') ?body = Some (show_nat i, frac)"
    using split_once_first[of "CHR ''.''" "show_nat i" frac] all_digits_no_dot[of "show_nat i"] by simp
  have u: "unat (19 - (of_nat (length frac) :: 32 word)) = 19 - length frac"
  proof -
    have l: "unat (of_nat (length frac) :: 32 word) = length frac" using assms(3) by (simp add: unsigned_of_nat take_bit_nat_eq_self)
    then show ?thesis using assms(3) by (subst unat_sub) (simp_all add: word_le_nat_alt)
  qed
  have "dec_from_str (signed_text neg i frac) =
    (case parse_i64 (show_nat i) of None \<Rightarrow> Inl ParseIntError
     | Some j \<Rightarrow> (case parse_u64 frac of None \<Rightarrow> Inl ParseIntError
       | Some n \<Rightarrow> let d = dec_new (word_of_int j) (of_nat n * 10 ^ (19 - length frac)) in Inr (if neg then dec_neg d else d)))"
    using \<open>ends_with (signed_text neg i frac) ''dec''\<close> neg split
    by (auto simp: dec_from_str_def trim u FRACTIONAL_PART_DENOMINATOR_LOG10_def Let_def split: option.splits)
  then show ?thesis
    using parse_i64_digits[of "show_nat i" i] parse_u64_digits[OF assms(1,2,4,5)] by simp
qed

lemma dec_neg_value:
  assumes "dec_wf d" "dec_representable (- dec_value d)"
  shows "dec_wf (dec_neg d) \<and> dec_value (dec_neg d) = - dec_value d"
  using dec_sub_spec[of "dec_new 0 0" d] assms by (simp add: dec_neg_def dec_wf_def dec_value_def dec_new_def)

text \<open>The digits after the point, without the trailing zeros, read back as the fraction.\<close>

lemma fraction_text:
  assumes "0 < f" "f < 10 ^ 19" "count_tail_zeros 0 f = (t, m)"
  defines "frac \<equiv> pad_zeros (19 - t) (show_nat m)"
  shows "all_digits frac" "frac \<noteq> []" "length frac \<le> 19" "read_digits 0 frac = Some m" "m < 2 ^ 64"
    "(of_nat m * 10 ^ (19 - length frac) :: 64 word) = of_nat f"
proof -
  have f: "f = m * 10 ^ t" "0 < m" using count_tail_zeros_spec[OF assms(1), of 0] assms(3) by auto
  have "t < 19"
  proof (rule ccontr)
    assume "\<not> t < 19"
    then have "(10 :: nat) ^ 19 \<le> 10 ^ t" by (intro power_increasing) simp_all
    also have "\<dots> \<le> f" using f by simp
    finally show False using assms(2) by simp
  qed
  have "m < 10 ^ (19 - t)"
  proof (rule ccontr)
    assume "\<not> m < 10 ^ (19 - t)"
    then have "10 ^ (19 - t) * 10 ^ t \<le> f" unfolding f(1) by simp
    then show False using assms(2) \<open>t < 19\<close> by (simp flip: power_add)
  qed
  then have len: "length frac = 19 - t" using length_show_nat[of "19 - t" m] \<open>t < 19\<close> by (simp add: frac_def)
  have "m \<le> f" using f by simp
  then show "m < 2 ^ 64" using assms(2) by simp
  show "all_digits frac" "read_digits 0 frac = Some m" by (simp_all add: frac_def)
  show "frac \<noteq> []" "length frac \<le> 19" using len \<open>t < 19\<close> by auto
  show "(of_nat m * 10 ^ (19 - length frac) :: 64 word) = of_nat f"
    unfolding len f(1) using \<open>t < 19\<close> by simp
qed

definition dec_parts_text :: "decimal \<Rightarrow> bool \<Rightarrow> nat \<Rightarrow> nat \<Rightarrow> bool" where
  "dec_parts_text d neg i f \<longleftrightarrow> f < 10 ^ 19 \<and> i \<le> 2 ^ 63 \<and>
     dec_value d = (if neg then -1 else 1) * (int i * DENOM + int f) \<and>
     dec_fmt d = signed_text neg i
       (if f = 0 then ''0'' else case count_tail_zeros 0 f of (t, m) \<Rightarrow> pad_zeros (19 - t) (show_nat m))"

lemma dec_fmt_parts:
  assumes "dec_wf d"
  shows "\<exists>neg i f. dec_parts_text d neg i f \<and> (i = 2 ^ 63 \<longrightarrow> f = 0 \<and> neg)"
proof -
  let ?i = "sint (dec_integer d)" and ?f = "uint (dec_fractional d)"
  have f: "0 \<le> ?f" "?f < DENOM" using assms by (simp_all add: dec_wf_def)
  have b: "- (2 ^ 63) \<le> ?i" "?i < 2 ^ 63" by (rule sint_bound)+
  have zero: "dec_fractional d = 0 \<longleftrightarrow> ?f = 0" by (simp add: uint_0_iff)
  consider "?f = 0" "0 \<le> ?i" | "?f = 0" "?i < 0" | "0 < ?f" "0 \<le> ?i" | "0 < ?f" "?i < 0" using f(1) by linarith
  then show ?thesis
  proof cases
    case 1
    then have "dec_parts_text d False (nat ?i) 0"
      using b by (simp add: dec_parts_text_def dec_value_def dec_fmt_def signed_text_def show_int_def zero)
    then show ?thesis using b 1 by (intro exI conjI) auto
  next
    case 2
    then have "dec_parts_text d True (nat (- ?i)) 0"
      using b by (simp add: dec_parts_text_def dec_value_def dec_fmt_def signed_text_def show_int_def zero)
    then show ?thesis using b 2 by (intro exI conjI) auto
  next
    case 3
    define n where "n = unat (dec_fractional d)"
    then have n: "unat (dec_fractional d) = n" "?f = int n" by simp_all
    then have "dec_parts_text d False (nat ?i) n"
      using 3 b f by (simp add: dec_parts_text_def dec_value_def dec_fmt_def signed_text_def show_int_def zero
          FRACTIONAL_PART_DENOMINATOR_LOG10_def split: prod.splits)
    then show ?thesis using b 3 by (intro exI conjI) auto
  next
    case 4
    define n where "n = unat (FRACTIONAL_PART_DENOMINATOR - dec_fractional d)"
    have "sint (dec_integer d + 1) = ?i + 1"
      using sint_word_of_int[of "?i + 1"] 4 b by simp
    moreover have "uint (FRACTIONAL_PART_DENOMINATOR - dec_fractional d) = DENOM - ?f"
      using f by (simp add: uint_sub_if')
    then have n: "unat (FRACTIONAL_PART_DENOMINATOR - dec_fractional d) = n" "?f = DENOM - int n"
      by (simp_all add: n_def)
    moreover have "nat (- 1 - ?i) \<le> 2 ^ 63" using b by simp
    ultimately have "dec_parts_text d True (nat (- 1 - ?i)) n"
      using 4 b f by (simp add: dec_parts_text_def dec_value_def dec_fmt_def signed_text_def show_int_def zero
          FRACTIONAL_PART_DENOMINATOR_LOG10_def algebra_simps split: prod.splits)
    then show ?thesis using b 4 by (intro exI conjI) auto
  qed
qed

lemma dec_text_roundtrip_cases:
  assumes "dec_wf d"
  shows "dec_from_str (dec_fmt d) = (if d = dec_MIN then Inl ParseIntError else Inr d)"
proof -
  obtain neg i f where p: "dec_parts_text d neg i f" and top: "i = 2 ^ 63 \<longrightarrow> f = 0 \<and> neg"
    using dec_fmt_parts[OF assms] by blast
  define frac where "frac = (if f = 0 then ''0'' else case count_tail_zeros 0 f of (t, m) \<Rightarrow> pad_zeros (19 - t) (show_nat m))"
  have "\<exists>n. all_digits frac \<and> frac \<noteq> [] \<and> length frac \<le> 19 \<and> read_digits 0 frac = Some n \<and> n < 2 ^ 64 \<and>
    (of_nat n * 10 ^ (19 - length frac) :: 64 word) = of_nat f"
  proof (cases "f = 0")
    case False
    obtain t m where tm: "count_tail_zeros 0 f = (t, m)" by fastforce
    then show ?thesis
      using fraction_text[of f t m] False p by (intro exI[of _ m]) (simp add: frac_def dec_parts_text_def)
  qed (auto simp: frac_def all_digits_def is_ascii_digit_def)
  then obtain n where n: "all_digits frac" "frac \<noteq> []" "length frac \<le> 19" "read_digits 0 frac = Some n" "n < 2 ^ 64"
    "(of_nat n * 10 ^ (19 - length frac) :: 64 word) = of_nat f" by blast
  let ?d = "dec_new (of_nat i) (of_nat f)"
  have parsed: "dec_from_str (dec_fmt d) = (if i < 2 ^ 63 then Inr (if neg then dec_neg ?d else ?d) else Inl ParseIntError)"
    using p dec_from_str_text[OF n(1-5), of neg i] n(6) by (simp add: dec_parts_text_def frac_def Let_def)
  have v: "dec_value d = (if neg then -1 else 1) * (int i * DENOM + int f)" "f < 10 ^ 19" "i \<le> 2 ^ 63"
    using p by (simp_all add: dec_parts_text_def)
  have "dec_representable (dec_value d)" using assms by (rule dec_representable_value)
  have min: "dec_value dec_MIN = - (2 ^ 63) * DENOM" "dec_wf dec_MIN"
    by (simp_all add: dec_MIN_def dec_value_def dec_wf_def dec_new_def)
  show ?thesis
  proof (cases "i < 2 ^ 63")
    case True
    have r: "dec_representable (int i * DENOM + int f)"
      using True v(2) by (simp add: dec_representable_def)
    have new: "dec_wf ?d" "dec_value ?d = int i * DENOM + int f"
      using dec_value_new[of "int f" "int i"] v(2) r by simp_all
    have "dec_value d \<noteq> dec_value dec_MIN" using v True min by (cases neg) simp_all
    then have "d \<noteq> dec_MIN" by blast
    moreover have "(if neg then dec_neg ?d else ?d) = d"
      using dec_ext[OF _ assms] new dec_neg_value[OF new(1)] v(1) \<open>dec_representable (dec_value d)\<close> by (cases neg) simp_all
    ultimately show ?thesis using parsed True by simp
  next
    case False
    then have "i = 2 ^ 63" "f = 0" "neg" using v(3) top by auto
    then have "dec_value d = dec_value dec_MIN" using v(1) min by simp
    then have "d = dec_MIN" using dec_ext[OF assms min(2)] by blast
    then show ?thesis using parsed False by simp
  qed
qed

section \<open>Rounding and parsed values\<close>

lemma dec_floor_spec: "dec_wf d \<Longrightarrow> sint (dec_floor d) = dec_value d div DENOM"
  by (simp add: dec_floor_def dec_value_def dec_wf_def)

lemma sint_Suc: "sint x + 1 < 2 ^ 63 \<Longrightarrow> sint (x + 1 :: 64 word) = sint x + 1"
  using sint_word_of_int[of "sint x + 1"] sint_bound(1)[of x] by simp

lemma dec_ceil_spec:
  assumes "dec_wf d" "dec_value d \<le> (2 ^ 63 - 1) * DENOM"
  shows "sint (dec_ceil d) = - ((- dec_value d) div DENOM)"
proof (cases "dec_fractional d = 0")
  case False
  let ?i = "sint (dec_integer d)" and ?f = "uint (dec_fractional d)"
  have f: "0 < ?f" "?f < DENOM" using False assms(1) by (simp_all add: dec_wf_def order_less_le uint_0_iff eq_commute[of 0])
  have "- dec_value d = (- ?i - 1) * DENOM + (DENOM - ?f)" by (simp add: dec_value_def algebra_simps)
  then have "(- dec_value d) div DENOM = - ?i - 1" using f by simp
  moreover have "?i + 1 < 2 ^ 63" using assms(2) f by (simp add: dec_value_def)
  ultimately show ?thesis using False sint_Suc by (simp add: dec_ceil_def)
qed (simp add: dec_ceil_def dec_value_def)

text \<open>The nearest integer, ties to even.\<close>

lemma dec_round_spec:
  assumes "dec_wf d" "2 * dec_value d < (2 ^ 64 - 1) * DENOM"
  defines "r \<equiv> sint (dec_round d)"
  shows "2 * \<bar>r * DENOM - dec_value d\<bar> \<le> DENOM \<and> (2 * \<bar>r * DENOM - dec_value d\<bar> = DENOM \<longrightarrow> even r)"
proof -
  let ?i = "sint (dec_integer d)" and ?f = "uint (dec_fractional d)"
  have f: "0 \<le> ?f" "?f < DENOM" using assms(1) by (simp_all add: dec_wf_def)
  have h: "uint (FRACTIONAL_PART_DENOMINATOR div 2) = DENOM div 2" by (simp add: uint_div)
  consider (less) "?f < DENOM div 2" | (even) "?f = DENOM div 2" "even ?i" | (odd) "?f = DENOM div 2" "odd ?i"
    | (greater) "DENOM div 2 < ?f" by linarith
  then show ?thesis
  proof cases
    case less
    then have "r = ?i" unfolding r_def dec_round_def Let_def word_less_def h by simp
    then show ?thesis using less f by (simp add: dec_value_def)
  next
    case even
    then have "dec_fractional d = FRACTIONAL_PART_DENOMINATOR div 2" using h by (intro word_uint_eqI) simp
    then have "r = ?i" using even(2) unfolding r_def dec_round_def Let_def by simp
    then show ?thesis using even by (simp add: dec_value_def)
  next
    case odd
    then have "dec_fractional d = FRACTIONAL_PART_DENOMINATOR div 2" using h by (intro word_uint_eqI) simp
    then have "r = sint (dec_integer d + 1)" using odd(2) unfolding r_def dec_round_def Let_def by (simp add: odd_iff_mod_2_eq_one)
    moreover have "?i + 1 < 2 ^ 63" using assms(2) odd by (simp add: dec_value_def)
    ultimately have "r = ?i + 1" using sint_Suc by simp
    then show ?thesis using odd by (simp add: dec_value_def algebra_simps)
  next
    case greater
    then have "\<not> dec_fractional d < FRACTIONAL_PART_DENOMINATOR div 2" "dec_fractional d \<noteq> FRACTIONAL_PART_DENOMINATOR div 2"
      using h by (auto simp: word_less_def)
    then have "r = sint (dec_integer d + 1)" unfolding r_def dec_round_def Let_def by simp
    moreover have "?i + 1 < 2 ^ 63" using assms(2) greater by (simp add: dec_value_def)
    ultimately have "r = ?i + 1" using sint_Suc by simp
    then show ?thesis using greater f by (simp add: dec_value_def algebra_simps)
  qed
qed

text \<open>The scaled fraction stays below one: with more than 19 digits the wrapped exponent makes the power zero.\<close>

lemma scaled_fraction_bound:
  assumes "parse_u64 s = Some n" "length s < 2 ^ 32 - 64"
  shows "uint (of_nat n * 10 ^ unat (of_nat FRACTIONAL_PART_DENOMINATOR_LOG10 - (of_nat (length s) :: 32 word)) :: 64 word) < DENOM"
proof (cases "length s \<le> 19")
  case True
  have "unat (of_nat (length s) :: 32 word) = length s" using assms(2) by (simp add: unsigned_of_nat take_bit_nat_eq_self)
  then have e: "unat (19 - (of_nat (length s) :: 32 word)) = 19 - length s"
    using True by (subst unat_sub) (simp_all add: word_le_nat_alt)
  have b: "uint (of_nat m :: 64 word) < DENOM" if "m = n * 10 ^ (19 - length s)" for m
  proof -
    have "m < 10 ^ length s * 10 ^ (19 - length s)"
      using parse_u64_bound(2)[OF assms(1)] that by simp
    then have "m < 10 ^ 19" using True by (simp flip: power_add)
    then show ?thesis by (simp add: unsigned_of_nat take_bit_nat_eq_self)
  qed
  have m: "of_nat n * 10 ^ (19 - length s) = (of_nat (n * 10 ^ (19 - length s)) :: 64 word)" by simp
  show ?thesis unfolding FRACTIONAL_PART_DENOMINATOR_LOG10_def of_nat_numeral e m by (rule b[OF refl])
next
  case False
  let ?e = "unat (19 - (of_nat (length s) :: 32 word))"
  have l: "uint (of_nat (length s) :: 32 word) = int (length s)"
    using assms(2) by (simp add: unsigned_of_nat take_bit_nat_eq_self)
  have "uint (19 - (of_nat (length s) :: 32 word)) = 19 - int (length s) + 2 ^ 32"
    unfolding uint_sub_if' l using False by simp
  then have "int 64 \<le> int ?e" using assms(2) by simp
  then have "64 \<le> ?e" by (simp only: of_nat_le_iff)
  then have "(10 :: 64 word) ^ ?e = 10 ^ 64 * 10 ^ (?e - 64)" by (simp only: power_add[symmetric] le_add_diff_inverse)
  also have "(10 :: 64 word) ^ 64 = 0" by simp
  finally show ?thesis by (simp add: FRACTIONAL_PART_DENOMINATOR_LOG10_def)
qed

lemma dec_from_str_wf:
  assumes "dec_from_str s = Inr d" "length s < 2 ^ 32 - 64"
  shows "dec_wf d"
proof -
  define u where "u = (if ends_with s ''dec'' then trim_end_matches ''dec'' s else s)"
  define v where "v = (if starts_with u ''-'' then trim_start_matches (CHR ''-'') u else u)"
  obtain ip fp where fp: "(case split_once (CHR ''.'') v of Some p \<Rightarrow> p | None \<Rightarrow> (v, ''0'')) = (ip, fp)" by fastforce
  note body = assms(1)[unfolded dec_from_str_def Let_def u_def[symmetric] v_def[symmetric] fp prod.case]
  obtain n where n: "parse_u64 fp = Some n" using body by (auto split: option.splits)
  let ?f = "of_nat n * 10 ^ unat (of_nat FRACTIONAL_PART_DENOMINATOR_LOG10 - (of_nat (length fp) :: 32 word)) :: 64 word"
  obtain i where d: "d = (if starts_with u ''-'' then dec_neg (dec_new i ?f) else dec_new i ?f)"
    using body n by (auto split: option.splits)
  have "length u \<le> length s" unfolding u_def by (simp add: length_trim_end_matches)
  moreover have "length v \<le> length u" unfolding v_def trim_start_matches_def by (simp add: length_dropWhile_le)
  moreover have "length fp \<le> length v \<or> fp = ''0''"
    using fp length_dropWhile_le[of "(\<noteq>) (CHR ''.'')" v]
    by (auto simp: split_once_def split: if_splits)
  ultimately have "length fp < 2 ^ 32 - 64" using assms(2) by auto
  then have "dec_wf (dec_new i ?f)" using scaled_fraction_bound[OF n] by (simp add: dec_wf_def dec_new_def)
  then show ?thesis
    using dec_sub_spec[of "dec_new 0 0" "dec_new i ?f"] unfolding d dec_neg_def by (auto simp: dec_wf_def dec_new_def)
qed

section \<open>Properties\<close>

text \<open>C35: Every decimal the arithmetic or the parser makes is well formed: from operands whose fractional part is
  below 10^19, addition never reaches its \<^verbatim>\<open>unreachable!\<close> branch, and sum, difference, negation, absolute value,
  product, quotient by a non-zero integer and conversion from an integer have a fractional part below 10^19, whatever
  the integer part does; so has every decimal parsed from a text shorter than 4 GiB, also when the text has more than
  19 digits after the point.\<close>

theorem decimal_operations_well_formed:
  assumes "dec_wf a" "dec_wf b" "length s < 2 ^ 32 - 64"
  shows "(\<exists>c. dec_add a b = Some c \<and> dec_wf c) \<and> dec_wf (dec_sub a b) \<and> dec_wf (dec_neg a) \<and> dec_wf (dec_abs a) \<and>
    dec_wf (dec_mul a b) \<and> (r \<noteq> 0 \<longrightarrow> (\<exists>c. dec_div a r = Some c \<and> dec_wf c)) \<and> dec_wf (dec_from i) \<and>
    (\<forall>d. dec_from_str s = Inr d \<longrightarrow> dec_wf d)"
proof -
  have z: "dec_wf (dec_new x 0)" for x by (simp add: dec_wf_def dec_new_def)
  have "\<exists>c. dec_add a b = Some c \<and> dec_wf c" "r \<noteq> 0 \<longrightarrow> (\<exists>c. dec_div a r = Some c \<and> dec_wf c)"
    using dec_add_spec[OF assms(1,2)] dec_div_spec[OF assms(1), of r] by blast+
  moreover have "dec_wf (dec_neg a)" using dec_sub_spec[OF z assms(1), of 0] by (simp add: dec_neg_def)
  ultimately show ?thesis
    using dec_sub_spec[OF assms(1,2)] dec_abs_spec[OF assms(1)] dec_mul_spec[OF assms(1,2)] z dec_from_str_wf[of s] assms(3)
    by (simp add: dec_from_def)
qed

theorem decimal_operations_well_formed_witness:
  "(\<exists>c. dec_add dec_MAX dec_MAX = Some c \<and> dec_wf c) \<and> dec_wf (dec_neg dec_MAX)"
proof -
  have "dec_wf dec_MAX"
    by (simp add: dec_wf_def dec_MAX_def dec_new_def FRACTIONAL_PART_DENOMINATOR_def FRACTIONAL_PART_DENOMINATOR_LOG10_def)
  then show ?thesis using decimal_operations_well_formed[of dec_MAX dec_MAX "''1.5''" 1 0] by simp
qed

text \<open>C31: Addition, subtraction, negation and absolute value are exact in units of 10^-19 whenever the result lies
  between \<^verbatim>\<open>Decimal::MIN\<close> and \<^verbatim>\<open>Decimal::MAX\<close>; the derived order is the order of the values.\<close>

theorem decimal_arithmetic_exact_in_range:
  assumes "dec_wf a" "dec_wf b"
  shows "(dec_representable (dec_value a + dec_value b) \<longrightarrow>
      (\<exists>c. dec_add a b = Some c \<and> dec_value c = dec_value a + dec_value b)) \<and>
    (dec_representable (dec_value a - dec_value b) \<longrightarrow> dec_value (dec_sub a b) = dec_value a - dec_value b) \<and>
    (dec_representable (- dec_value a) \<longrightarrow> dec_value (dec_neg a) = - dec_value a) \<and>
    (dec_representable \<bar>dec_value a\<bar> \<longrightarrow> dec_value (dec_abs a) = \<bar>dec_value a\<bar>) \<and>
    (dec_less a b \<longleftrightarrow> dec_value a < dec_value b) \<and> (dec_value a = dec_value b \<longleftrightarrow> a = b) \<and>
    dec_value dec_MIN \<le> dec_value a \<and> dec_value a \<le> dec_value dec_MAX"
proof -
  have "dec_value dec_MIN = - (2 ^ 63) * DENOM" "dec_value dec_MAX = 2 ^ 63 * DENOM - 1"
    by (simp_all add: dec_value_def dec_MIN_def dec_MAX_def dec_new_def FRACTIONAL_PART_DENOMINATOR_def FRACTIONAL_PART_DENOMINATOR_LOG10_def)
  then have "dec_value dec_MIN \<le> dec_value a" "dec_value a \<le> dec_value dec_MAX"
    using dec_representable_value[OF assms(1)] by (simp_all add: dec_representable_def)
  then show ?thesis
    using dec_add_spec[OF assms] dec_sub_spec[OF assms] dec_neg_value[OF assms(1)] dec_abs_spec[OF assms(1)]
      dec_value_eq_iff[OF assms] by blast
qed

theorem decimal_arithmetic_exact_in_range_witness:
  "\<exists>c. dec_add (dec_new (-1) 9999999999999999999) (dec_new 0 1) = Some c \<and> dec_value c = 0"
  using decimal_arithmetic_exact_in_range[of "dec_new (-1) 9999999999999999999" "dec_new 0 1"]
  by (simp add: dec_wf_def dec_value_def dec_new_def dec_representable_def)

text \<open>C30: Multiplication, computed from the four partial products of integer and fractional parts, equals the
  reference computation on the values: the exact product rounded to the nearest 10^-19, halves upwards, whenever that is
  representable.  Division by a positive integer is the truncated quotient, and is always representable; division by
  zero panics.\<close>

theorem decimal_mul_div_rounding:
  assumes "dec_wf a" "dec_wf b"
  shows "(let v = (dec_value a * dec_value b + DENOM div 2) div DENOM in
      dec_representable v \<longrightarrow> dec_value (dec_mul a b) = v) \<and>
    (case dec_div a r of None \<Rightarrow> r = 0 | Some c \<Rightarrow> dec_value c = quot (dec_value a) (uint r))"
proof (cases "r = 0")
  case True
  then show ?thesis using dec_mul_spec[OF assms] by (simp add: Let_def dec_div_def)
next
  case False
  obtain c where "dec_div a r = Some c" "dec_value c = quot (dec_value a) (uint r)"
    using dec_div_spec[OF assms(1) False] by blast
  then show ?thesis using dec_mul_spec[OF assms] by (simp add: Let_def)
qed

theorem decimal_mul_div_rounding_witness:
  "dec_value (dec_mul (dec_new (-2) 5000000000000000000) (dec_new 1 5000000000000000000)) = - 22500000000000000000"
  using decimal_mul_div_rounding[of "dec_new (-2) 5000000000000000000" "dec_new 1 5000000000000000000" 1]
  by (simp add: dec_wf_def dec_value_def dec_new_def dec_representable_def Let_def)

text \<open>\<^verbatim>\<open>floor\<close> and \<^verbatim>\<open>ceil\<close> are the greatest integer below and the least above the value, and \<^verbatim>\<open>round\<close> is a
  nearest integer, the even one of two equally near, wherever the result is an \<^verbatim>\<open>i64\<close>.\<close>

theorem decimal_rounding_modes:
  assumes "dec_wf d"
  shows "sint (dec_floor d) = dec_value d div DENOM \<and>
    (dec_value d \<le> (2 ^ 63 - 1) * DENOM \<longrightarrow> sint (dec_ceil d) = - ((- dec_value d) div DENOM)) \<and>
    (2 * dec_value d < (2 ^ 64 - 1) * DENOM \<longrightarrow>
      2 * \<bar>sint (dec_round d) * DENOM - dec_value d\<bar> \<le> DENOM \<and>
      (2 * \<bar>sint (dec_round d) * DENOM - dec_value d\<bar> = DENOM \<longrightarrow> even (sint (dec_round d))))"
  using assms dec_floor_spec dec_ceil_spec dec_round_spec by blast

theorem decimal_rounding_modes_witness:
  "sint (dec_ceil (dec_new (-2) 5000000000000000000)) = -1 \<and> even (sint (dec_round (dec_new (-2) 5000000000000000000)))"
  using decimal_rounding_modes[of "dec_new (-2) 5000000000000000000"]
  by (simp add: dec_wf_def dec_value_def dec_new_def dec_round_def FRACTIONAL_PART_DENOMINATOR_def FRACTIONAL_PART_DENOMINATOR_LOG10_def)

text \<open>C33: The text of every well-formed decimal except \<^verbatim>\<open>Decimal::MIN\<close> parses back to that decimal; the text of
  \<^verbatim>\<open>Decimal::MIN\<close> is rejected, since the parser reads the digits before applying the sign.\<close>

theorem decimal_text_roundtrip:
  assumes "dec_wf d"
  shows "dec_from_str (dec_fmt d) = (if d = dec_MIN then Inl ParseIntError else Inr d)"
  using assms by (rule dec_text_roundtrip_cases)

theorem decimal_text_roundtrip_witness:
  "dec_from_str (dec_fmt (dec_new (-2) 5000000000000000000)) = Inr (dec_new (-2) 5000000000000000000) \<and>
   dec_from_str (dec_fmt dec_MIN) = Inl ParseIntError"
  using decimal_text_roundtrip[of "dec_new (-2) 5000000000000000000"] decimal_text_roundtrip[of dec_MIN]
  by (simp add: dec_wf_def dec_MIN_def dec_new_def)

end
