(* ===== verification/DurationValue.thy ===== *)
theory DurationValue
  imports Strings
begin

text \<open>
  Durations (\<^verbatim>\<open>src/encoding/value/duration_value.rs\<close>): months, days and nanoseconds, their ISO-8601 text and its
  parser.  A text is its UTF-8 bytes.  \<^const>\<open>None\<close> is a panic, or a loop that does not end: the parser's loop is a
  \<^theory_text>\<open>partial_function\<close>, so that it returns is a theorem.  Unsigned arithmetic wraps as in a build
  without overflow checks.  The calendar arithmetic on date-times belongs to the \<^verbatim>\<open>chrono\<close> crate and enters as a record
  of functions.
\<close>

section \<open>Durations\<close>

definition NANOS_PER_SEC :: "64 word" where "NANOS_PER_SEC = 1000000000"

definition NANOS_PER_MINUTE :: "64 word" where "NANOS_PER_MINUTE = 60 * NANOS_PER_SEC"

definition NANOS_PER_HOUR :: "64 word" where "NANOS_PER_HOUR = 60 * 60 * NANOS_PER_SEC"

definition MAX_YEAR :: int where "MAX_YEAR = drop_bit 13 (2 ^ 31 - 1) - 1"

definition MIN_YEAR :: int where "MIN_YEAR = drop_bit 13 (- (2 ^ 31)) + 1"

definition MONTHS_PER_YEAR :: "32 word" where "MONTHS_PER_YEAR = 12"

definition MAX_MONTHS :: "32 word" where
  "MAX_MONTHS = word_of_int (MAX_YEAR - MIN_YEAR + 1) * MONTHS_PER_YEAR"

definition DAYS_PER_WEEK :: "32 word" where "DAYS_PER_WEEK = 7"

record duration =
  dur_months :: "32 word"
  dur_days :: "32 word"
  dur_nanos :: "64 word"

definition dur_new :: "32 word \<Rightarrow> 32 word \<Rightarrow> 64 word \<Rightarrow> duration option" where
  "dur_new months days nanos =
     (if months \<le> MAX_MONTHS then Some \<lparr> dur_months = months, dur_days = days, dur_nanos = nanos \<rparr> else None)"

definition dur_is_empty :: "duration \<Rightarrow> bool" where
  "dur_is_empty self \<longleftrightarrow> dur_months self = 0 \<and> dur_days self = 0 \<and> dur_nanos self = 0"

definition dur_of_years :: "32 word \<Rightarrow> duration" where
  "dur_of_years years = \<lparr> dur_months = years * MONTHS_PER_YEAR, dur_days = 0, dur_nanos = 0 \<rparr>"

definition dur_of_months :: "32 word \<Rightarrow> duration" where
  "dur_of_months months = \<lparr> dur_months = months, dur_days = 0, dur_nanos = 0 \<rparr>"

definition dur_of_weeks :: "32 word \<Rightarrow> duration" where
  "dur_of_weeks weeks = \<lparr> dur_months = 0, dur_days = weeks * DAYS_PER_WEEK, dur_nanos = 0 \<rparr>"

definition dur_of_days :: "32 word \<Rightarrow> duration" where
  "dur_of_days days = \<lparr> dur_months = 0, dur_days = days, dur_nanos = 0 \<rparr>"

definition dur_of_hours :: "64 word \<Rightarrow> duration" where
  "dur_of_hours hours = \<lparr> dur_months = 0, dur_days = 0, dur_nanos = hours * NANOS_PER_HOUR \<rparr>"

definition dur_of_minutes :: "64 word \<Rightarrow> duration" where
  "dur_of_minutes minutes = \<lparr> dur_months = 0, dur_days = 0, dur_nanos = minutes * NANOS_PER_MINUTE \<rparr>"

definition dur_of_seconds :: "64 word \<Rightarrow> duration" where
  "dur_of_seconds seconds = \<lparr> dur_months = 0, dur_days = 0, dur_nanos = seconds * NANOS_PER_SEC \<rparr>"

definition dur_of_nanos :: "64 word \<Rightarrow> duration" where
  "dur_of_nanos nanos = \<lparr> dur_months = 0, dur_days = 0, dur_nanos = nanos \<rparr>"

definition dur_add :: "duration \<Rightarrow> duration \<Rightarrow> duration option" where
  "dur_add lhs rhs =
     dur_new (dur_months lhs + dur_months rhs) (dur_days lhs + dur_days rhs) (dur_nanos lhs + dur_nanos rhs)"

definition dur_sub :: "duration \<Rightarrow> duration \<Rightarrow> duration option" where
  "dur_sub lhs rhs =
     dur_new (dur_months lhs - dur_months rhs) (dur_days lhs - dur_days rhs) (dur_nanos lhs - dur_nanos rhs)"

section \<open>Date-times\<close>

text \<open>
  What the code calls of \<^verbatim>\<open>chrono\<close>: moving a naive date-time \<^typ>\<open>'n\<close> by months, days or a time delta \<^typ>\<open>'d\<close>,
  and the mapping of a time zone \<^typ>\<open>'z\<close> between local date-times, zoned date-times \<^typ>\<open>'t\<close> and offsets
  \<^typ>\<open>'o\<close>.  \<^const>\<open>None\<close> is a panic, or the \<^verbatim>\<open>None\<close> of \<^verbatim>\<open>TimeDelta::new\<close>, which the code unwraps.
\<close>

datatype 't mapped_local_time = Single 't | Ambiguous 't 't | NoLocalTime

record ('n, 't, 'z, 'd, 'o) chrono =
  ch_add_months :: "'n \<Rightarrow> nat \<Rightarrow> 'n option"
  ch_sub_months :: "'n \<Rightarrow> nat \<Rightarrow> 'n option"
  ch_add_days :: "'n \<Rightarrow> nat \<Rightarrow> 'n option"
  ch_sub_days :: "'n \<Rightarrow> nat \<Rightarrow> 'n option"
  ch_delta_new :: "int \<Rightarrow> nat \<Rightarrow> 'd option"
  ch_delta_hours :: "int \<Rightarrow> 'd"
  ch_add_delta :: "'n \<Rightarrow> 'd \<Rightarrow> 'n option"
  ch_sub_delta :: "'n \<Rightarrow> 'd \<Rightarrow> 'n option"
  ch_add_offset :: "'n \<Rightarrow> 'o \<Rightarrow> 'n option"
  ch_sub_offset :: "'n \<Rightarrow> 'o \<Rightarrow> 'n option"
  ch_add_delta_tz :: "'t \<Rightarrow> 'd \<Rightarrow> 't option"
  ch_sub_delta_tz :: "'t \<Rightarrow> 'd \<Rightarrow> 't option"
  ch_naive_local :: "'t \<Rightarrow> 'n"
  ch_timezone :: "'t \<Rightarrow> 'z"
  ch_from_local :: "'z \<Rightarrow> 'n \<Rightarrow> 't mapped_local_time"
  ch_offset_from_utc :: "'z \<Rightarrow> 'n \<Rightarrow> 'o"

definition nanos_delta :: "('n, 't, 'z, 'd, 'o) chrono \<Rightarrow> 64 word \<Rightarrow> 'd option" where
  "nanos_delta ch nanos = ch_delta_new ch (sint (nanos div NANOS_PER_SEC)) (unat (nanos mod NANOS_PER_SEC))"

definition naive_add_duration :: "('n, 't, 'z, 'd, 'o) chrono \<Rightarrow> 'n \<Rightarrow> duration \<Rightarrow> 'n option" where
  "naive_add_duration ch self rhs = do {
     t \<leftarrow> ch_add_months ch self (unat (dur_months rhs));
     t \<leftarrow> ch_add_days ch t (unat (dur_days rhs));
     delta \<leftarrow> nanos_delta ch (dur_nanos rhs);
     ch_add_delta ch t delta }"

definition naive_sub_duration :: "('n, 't, 'z, 'd, 'o) chrono \<Rightarrow> 'n \<Rightarrow> duration \<Rightarrow> 'n option" where
  "naive_sub_duration ch self rhs = do {
     t \<leftarrow> ch_sub_months ch self (unat (dur_months rhs));
     t \<leftarrow> ch_sub_days ch t (unat (dur_days rhs));
     delta \<leftarrow> nanos_delta ch (dur_nanos rhs);
     ch_sub_delta ch t delta }"

definition resolve_date_time :: "('n, 't, 'z, 'd, 'o) chrono \<Rightarrow> 'n \<Rightarrow> 'z \<Rightarrow> 't option" where
  "resolve_date_time ch local tz =
     (case ch_from_local ch tz local of
        Single dt \<Rightarrow> Some dt
      | Ambiguous dt _ \<Rightarrow> Some dt
      | NoLocalTime \<Rightarrow> do {
          let safe_shift = ch_delta_hours ch 72;
          earlier \<leftarrow> ch_sub_delta ch local safe_shift;
          later \<leftarrow> ch_add_delta ch local safe_shift;
          let before_offset = ch_offset_from_utc ch tz earlier;
          let after_offset = ch_offset_from_utc ch tz later;
          t \<leftarrow> ch_sub_offset ch local before_offset;
          t \<leftarrow> ch_add_offset ch t after_offset;
          (case ch_from_local ch tz t of Single dt \<Rightarrow> Some dt | _ \<Rightarrow> None) })"

definition zoned_add_duration :: "('n, 't, 'z, 'd, 'o) chrono \<Rightarrow> 't \<Rightarrow> duration \<Rightarrow> 't option" where
  "zoned_add_duration ch self rhs = do {
     t \<leftarrow> ch_add_months ch (ch_naive_local ch self) (unat (dur_months rhs));
     t \<leftarrow> ch_add_days ch t (unat (dur_days rhs));
     dt \<leftarrow> resolve_date_time ch t (ch_timezone ch self);
     delta \<leftarrow> nanos_delta ch (dur_nanos rhs);
     ch_add_delta_tz ch dt delta }"

definition zoned_sub_duration :: "('n, 't, 'z, 'd, 'o) chrono \<Rightarrow> 't \<Rightarrow> duration \<Rightarrow> 't option" where
  "zoned_sub_duration ch self rhs = do {
     t \<leftarrow> ch_sub_months ch (ch_naive_local ch self) (unat (dur_months rhs));
     t \<leftarrow> ch_sub_days ch t (unat (dur_days rhs));
     dt \<leftarrow> resolve_date_time ch t (ch_timezone ch self);
     delta \<leftarrow> nanos_delta ch (dur_nanos rhs);
     ch_sub_delta_tz ch dt delta }"

section \<open>Text\<close>

datatype duration_parse_error = DurationParseError

record segment =
  seg_number :: "64 word"
  seg_symbol :: char
  seg_number_len :: nat

text \<open>The index after the leading digits, which never passes the last byte.\<close>

fun digit_prefix :: "string \<Rightarrow> nat" where
  "digit_prefix [] = 0"
| "digit_prefix [c] = 0"
| "digit_prefix (c # d # cs) = (if is_ascii_digit c then Suc (digit_prefix (d # cs)) else 0)"

text \<open>Cutting the text behind the symbol panics inside a multi-byte character, whose first byte is at least 128.\<close>

definition read_u32 :: "string \<Rightarrow> (duration_parse_error + segment \<times> string) option" where
  "read_u32 str =
     (let i = digit_prefix str in
      if i = 0 then Some (Inl DurationParseError)
      else case parse_u64 (take i str) of
             None \<Rightarrow> Some (Inl DurationParseError)
           | Some number \<Rightarrow>
               let symbol = str ! i in
               if 128 \<le> (of_char symbol :: nat) then None
               else Some (Inr (\<lparr> seg_number = of_nat number, seg_symbol = symbol, seg_number_len = i \<rparr>, drop (i + 1) str)))"

record dur_parser =
  dp_months :: "32 word"
  dp_days :: "32 word"
  dp_nanos :: "64 word"
  dp_parsing_time :: bool
  dp_previous_symbol :: "char option"

text \<open>The \<^verbatim>\<open>match symbol\<close> of the loop; the digits of a fraction are scaled to nanoseconds.\<close>

definition dur_segment :: "dur_parser \<Rightarrow> segment \<Rightarrow> dur_parser option" where
  "dur_segment p seg =
     (let number = seg_number seg; symbol = seg_symbol seg; number32 = ucast number :: 32 word;
          fraction = (dp_previous_symbol p = Some (CHR ''.''))
      in if symbol = CHR ''Y'' then Some (p\<lparr> dp_months := dp_months p + number32 * MONTHS_PER_YEAR \<rparr>)
         else if symbol = CHR ''M'' \<and> \<not> dp_parsing_time p then Some (p\<lparr> dp_months := dp_months p + number32 \<rparr>)
         else if symbol = CHR ''W'' then Some (p\<lparr> dp_days := dp_days p + number32 * DAYS_PER_WEEK \<rparr>)
         else if symbol = CHR ''D'' then Some (p\<lparr> dp_days := dp_days p + number32 \<rparr>)
         else if symbol = CHR ''H'' then Some (p\<lparr> dp_nanos := dp_nanos p + number * NANOS_PER_HOUR \<rparr>)
         else if symbol = CHR ''M'' \<and> dp_parsing_time p then Some (p\<lparr> dp_nanos := dp_nanos p + number * NANOS_PER_MINUTE \<rparr>)
         else if symbol = CHR ''.'' then Some (p\<lparr> dp_nanos := dp_nanos p + number * NANOS_PER_SEC \<rparr>)
         else if symbol = CHR ''S'' \<and> \<not> fraction then Some (p\<lparr> dp_nanos := dp_nanos p + number * NANOS_PER_SEC \<rparr>)
         else if symbol = CHR ''S'' \<and> fraction then
           Some (p\<lparr> dp_nanos := dp_nanos p + number * 10 ^ unat (9 - (of_nat (seg_number_len seg) :: 32 word)) \<rparr>)
         else None)"

partial_function (option) dur_parse_loop :: "string \<Rightarrow> dur_parser \<Rightarrow> (duration_parse_error + dur_parser) option" where
  "dur_parse_loop str p =
     (if str = [] then Some (Inr p)
      else
        let (str, p) = (if hd str = CHR ''T'' then (tl str, p\<lparr> dp_parsing_time := True \<rparr>) else (str, p)) in
        Option.bind (read_u32 str) (\<lambda>r. case r of
            Inl e \<Rightarrow> Some (Inl e)
          | Inr (seg, tail) \<Rightarrow>
              if dp_previous_symbol p = Some (CHR ''.'') \<and> seg_symbol seg \<noteq> CHR ''S'' then Some (Inl DurationParseError)
              else (case dur_segment p seg of
                      None \<Rightarrow> Some (Inl DurationParseError)
                    | Some p \<Rightarrow> dur_parse_loop tail (p\<lparr> dp_previous_symbol := Some (seg_symbol seg) \<rparr>))))"

definition dur_from_str :: "string \<Rightarrow> (duration_parse_error + duration) option" where
  "dur_from_str str =
     (if str = [] then None
      else if hd str \<noteq> CHR ''P'' then Some (Inl DurationParseError)
      else Option.bind (dur_parse_loop (tl str)
             \<lparr> dp_months = 0, dp_days = 0, dp_nanos = 0, dp_parsing_time = False, dp_previous_symbol = None \<rparr>)
           (\<lambda>r. case r of
              Inl e \<Rightarrow> Some (Inl e)
            | Inr p \<Rightarrow> Some (Inr \<lparr> dur_months = dp_months p, dur_days = dp_days p, dur_nanos = dp_nanos p \<rparr>)))"

definition dur_fmt :: "duration \<Rightarrow> string" where
  "dur_fmt self =
     (if dur_is_empty self then ''PT0S''
      else
        let show_part = (\<lambda>n s. if 0 < n then show_nat n @ s else '''');
            years = unat (dur_months self) div unat MONTHS_PER_YEAR;
            months = unat (dur_months self) mod unat MONTHS_PER_YEAR; days = unat (dur_days self);
            total_nanos = unat (dur_nanos self);
            hours = total_nanos div unat NANOS_PER_HOUR;
            minutes = total_nanos mod unat NANOS_PER_HOUR div unat NANOS_PER_MINUTE;
            seconds = total_nanos mod unat NANOS_PER_MINUTE div unat NANOS_PER_SEC;
            nanos = total_nanos mod unat NANOS_PER_SEC
        in ''P'' @
           (if 0 < dur_months self \<or> 0 < dur_days self
            then show_part years ''Y'' @ show_part months ''M'' @ show_part days ''D'' else '''') @
           (if 0 < total_nanos
            then ''T'' @ show_part hours ''H'' @ show_part minutes ''M'' @
              (if 0 < seconds \<and> nanos = 0 then show_nat seconds @ ''S''
               else if 0 < nanos then show_nat seconds @ ''.'' @ pad_zeros 9 (show_nat nanos) @ ''S'' else '''')
            else ''''))"

section \<open>The parser on printed text\<close>

lemma digit_prefix_digits:
  "all_digits ds \<Longrightarrow> \<not> is_ascii_digit c \<Longrightarrow> digit_prefix (ds @ c # rest) = length ds"
proof (induction ds)
  case Nil
  then show ?case by (cases rest) simp_all
next
  case (Cons d ds)
  then show ?case by (cases ds) (simp_all add: all_digits_def)
qed

lemma read_u32_digits:
  assumes "all_digits ds" "ds \<noteq> []" "read_digits 0 ds = Some n" "n < 2 ^ 64" "\<not> is_ascii_digit c" "(of_char c :: nat) < 128"
  shows "read_u32 (ds @ c # rest) =
    Some (Inr (\<lparr> seg_number = of_nat n, seg_symbol = c, seg_number_len = length ds \<rparr>, rest))"
  using assms parse_u64_digits[OF assms(1-4)] by (simp add: read_u32_def digit_prefix_digits nth_append)

lemma loop_digits:
  assumes "all_digits ds" "ds \<noteq> []" "read_digits 0 ds = Some n" "n < 2 ^ 64" "\<not> is_ascii_digit c" "(of_char c :: nat) < 128"
    and "dp_previous_symbol p = Some (CHR ''.'') \<longrightarrow> c = CHR ''S''"
    and "dur_segment p \<lparr> seg_number = of_nat n, seg_symbol = c, seg_number_len = length ds \<rparr> = Some q"
  shows "dur_parse_loop (ds @ c # rest) p = dur_parse_loop rest (q\<lparr> dp_previous_symbol := Some c \<rparr>)"
proof -
  have "is_ascii_digit (hd ds)" using assms(1,2) by (cases ds) (simp_all add: all_digits_def)
  then have "hd (ds @ c # rest) \<noteq> CHR ''T''" using assms(2) by (auto simp: is_ascii_digit_def)
  then show ?thesis
    using assms read_u32_digits[OF assms(1-6), of rest] by (subst dur_parse_loop.simps) auto
qed

definition starts_with_digit :: "string \<Rightarrow> bool" where
  "starts_with_digit s \<longleftrightarrow> s \<noteq> [] \<and> is_ascii_digit (hd s)"

lemma loop_T:
  assumes "starts_with_digit s"
  shows "dur_parse_loop (CHR ''T'' # s) p = dur_parse_loop s (p\<lparr> dp_parsing_time := True \<rparr>)"
proof -
  have "hd s \<noteq> CHR ''T''" "s \<noteq> []" using assms by (auto simp: starts_with_digit_def is_ascii_digit_def)
  then show ?thesis by (subst (1 2) dur_parse_loop.simps) simp
qed

definition show_part :: "nat \<Rightarrow> string \<Rightarrow> string" where
  "show_part n s = (if 0 < n then show_nat n @ s else '''')"

lemma starts_with_digit_show:
  "starts_with_digit (show_nat n @ s)" "starts_with_digit t \<Longrightarrow> starts_with_digit (show_part n s @ t)"
  "0 < n \<Longrightarrow> starts_with_digit (show_part n s @ t)"
proof -
  show a: "starts_with_digit (show_nat n @ s)" for s
    using all_digits_show_nat[of n] show_nat_not_Nil[of n] by (cases "show_nat n") (simp_all add: starts_with_digit_def all_digits_def)
  show "starts_with_digit t \<Longrightarrow> starts_with_digit (show_part n s @ t)" "0 < n \<Longrightarrow> starts_with_digit (show_part n s @ t)"
    using a[of "s @ t"] by (simp_all add: show_part_def)
qed

text \<open>A printed part, possibly empty, updates one field.\<close>

lemma loop_part:
  assumes "n < 2 ^ 64" "dp_previous_symbol p \<noteq> Some (CHR ''.'')" "\<not> is_ascii_digit c" "(of_char c :: nat) < 128" "c \<noteq> CHR ''.''"
    and "\<And>l. dur_segment p \<lparr> seg_number = of_nat n, seg_symbol = c, seg_number_len = l \<rparr> = Some q"
    and "n = 0 \<Longrightarrow> q = p"
  shows "\<exists>s. s \<noteq> Some (CHR ''.'') \<and>
    dur_parse_loop (show_part n [c] @ rest) p = dur_parse_loop rest (q\<lparr> dp_previous_symbol := s \<rparr>)"
proof (cases "n = 0")
  case True
  then show ?thesis using assms(2,7) by (intro exI[of _ "dp_previous_symbol p"]) (simp add: show_part_def)
next
  case False
  then have "dur_parse_loop (show_part n [c] @ rest) p = dur_parse_loop rest (q\<lparr> dp_previous_symbol := Some c \<rparr>)"
    using loop_digits[of "show_nat n" n c p q rest] assms by (simp add: show_part_def)
  then show ?thesis using assms(5) by blast
qed

lemma word_number: "n < 2 ^ 64 \<Longrightarrow> ucast (of_nat n :: 64 word) = (of_nat n :: 32 word)"
  by (simp add: unsigned_of_nat take_bit_nat_eq_self)

lemmas loop_symbol_simps = dur_segment_def Let_def word_number is_ascii_digit_def

lemma loop_date_part:
  assumes "n < 2 ^ 64" "dp_previous_symbol p \<noteq> Some (CHR ''.'')" "\<not> dp_parsing_time p"
  shows "\<exists>s. s \<noteq> Some (CHR ''.'') \<and> dur_parse_loop (show_part n ''Y'' @ rest) p =
      dur_parse_loop rest (p\<lparr> dp_months := dp_months p + of_nat n * MONTHS_PER_YEAR, dp_previous_symbol := s \<rparr>)"
    and "\<exists>s. s \<noteq> Some (CHR ''.'') \<and> dur_parse_loop (show_part n ''M'' @ rest) p =
      dur_parse_loop rest (p\<lparr> dp_months := dp_months p + of_nat n, dp_previous_symbol := s \<rparr>)"
    and "\<exists>s. s \<noteq> Some (CHR ''.'') \<and> dur_parse_loop (show_part n ''D'' @ rest) p =
      dur_parse_loop rest (p\<lparr> dp_days := dp_days p + of_nat n, dp_previous_symbol := s \<rparr>)"
  by (rule loop_part; use assms in \<open>simp add: loop_symbol_simps\<close>)+

lemma loop_time_part:
  assumes "n < 2 ^ 64" "dp_previous_symbol p \<noteq> Some (CHR ''.'')" "dp_parsing_time p"
  shows "\<exists>s. s \<noteq> Some (CHR ''.'') \<and> dur_parse_loop (show_part n ''H'' @ rest) p =
      dur_parse_loop rest (p\<lparr> dp_nanos := dp_nanos p + of_nat n * NANOS_PER_HOUR, dp_previous_symbol := s \<rparr>)"
    and "\<exists>s. s \<noteq> Some (CHR ''.'') \<and> dur_parse_loop (show_part n ''M'' @ rest) p =
      dur_parse_loop rest (p\<lparr> dp_nanos := dp_nanos p + of_nat n * NANOS_PER_MINUTE, dp_previous_symbol := s \<rparr>)"
    and "\<exists>s. s \<noteq> Some (CHR ''.'') \<and> dur_parse_loop (show_part n ''S'' @ rest) p =
      dur_parse_loop rest (p\<lparr> dp_nanos := dp_nanos p + of_nat n * NANOS_PER_SEC, dp_previous_symbol := s \<rparr>)"
  by (rule loop_part; use assms in \<open>simp add: loop_symbol_simps\<close>)+

lemma loop_fraction:
  assumes "n < 2 ^ 64" "k < 10 ^ 9" "dp_previous_symbol p \<noteq> Some (CHR ''.'')"
  shows "dur_parse_loop (show_nat n @ ''.'' @ pad_zeros 9 (show_nat k) @ ''S'') p =
    dur_parse_loop '''' (p\<lparr> dp_nanos := dp_nanos p + of_nat n * NANOS_PER_SEC + of_nat k, dp_previous_symbol := Some (CHR ''S'') \<rparr>)"
proof -
  let ?ds = "pad_zeros 9 (show_nat k)"
  let ?q = "p\<lparr> dp_nanos := dp_nanos p + of_nat n * NANOS_PER_SEC, dp_previous_symbol := Some (CHR ''.'') \<rparr>"
  have len: "length ?ds = 9" using length_show_nat[of 9 k] assms(2) by simp
  have "dur_parse_loop (show_nat n @ CHR ''.'' # ?ds @ ''S'') p = dur_parse_loop (?ds @ CHR ''S'' # []) ?q"
    using loop_digits[of "show_nat n" n "CHR ''.''" p "p\<lparr> dp_nanos := dp_nanos p + of_nat n * NANOS_PER_SEC \<rparr>" "?ds @ ''S''"] assms
    by (simp add: loop_symbol_simps)
  also have "\<dots> = dur_parse_loop [] (?q\<lparr> dp_nanos := dp_nanos ?q + of_nat k, dp_previous_symbol := Some (CHR ''S'') \<rparr>)"
  proof -
    have "?ds \<noteq> []" "k < 2 ^ 64" using assms(2) show_nat_not_Nil[of k] by (simp_all add: pad_zeros_def)
    moreover have "dur_segment ?q \<lparr> seg_number = of_nat k, seg_symbol = CHR ''S'', seg_number_len = length ?ds \<rparr>
      = Some (?q\<lparr> dp_nanos := dp_nanos ?q + of_nat k \<rparr>)"
      unfolding len by (simp add: dur_segment_def)
    ultimately show ?thesis
      by (intro trans[OF loop_digits[of ?ds k "CHR ''S''" ?q "?q\<lparr> dp_nanos := dp_nanos ?q + of_nat k \<rparr>" "[]"]])
        (simp_all add: is_ascii_digit_def)
  qed
  finally show ?thesis by simp
qed

definition date_text :: "duration \<Rightarrow> string" where
  "date_text d = show_part (unat (dur_months d) div unat MONTHS_PER_YEAR) ''Y'' @
     show_part (unat (dur_months d) mod unat MONTHS_PER_YEAR) ''M'' @ show_part (unat (dur_days d)) ''D''"

definition seconds_text :: "nat \<Rightarrow> nat \<Rightarrow> string" where
  "seconds_text s k = (if 0 < s \<and> k = 0 then show_nat s @ ''S''
     else if 0 < k then show_nat s @ ''.'' @ pad_zeros 9 (show_nat k) @ ''S'' else '''')"

definition time_text :: "nat \<Rightarrow> string" where
  "time_text t = show_part (t div unat NANOS_PER_HOUR) ''H'' @
     show_part (t mod unat NANOS_PER_HOUR div unat NANOS_PER_MINUTE) ''M'' @
     seconds_text (t mod unat NANOS_PER_MINUTE div unat NANOS_PER_SEC) (t mod unat NANOS_PER_SEC)"

lemma dur_fmt_texts:
  assumes "\<not> dur_is_empty d"
  shows "dur_fmt d = ''P'' @ date_text d @ (if dur_nanos d = 0 then '''' else ''T'' @ time_text (unat (dur_nanos d)))"
proof -
  have "dur_fmt d = ''P'' @ (if 0 < dur_months d \<or> 0 < dur_days d then date_text d else '''') @
      (if 0 < unat (dur_nanos d) then ''T'' @ time_text (unat (dur_nanos d)) else '''')"
    unfolding dur_fmt_def Let_def show_part_def[symmetric] date_text_def time_text_def seconds_text_def using assms by simp
  moreover have "date_text d = ''''" if "\<not> (0 < dur_months d \<or> 0 < dur_days d)"
    using that by (simp add: date_text_def show_part_def word_gt_0)
  ultimately show ?thesis by (auto simp: word_gt_0 unat_gt_0)
qed

lemma nanos_units:
  "unat NANOS_PER_SEC = 10 ^ 9" "unat NANOS_PER_MINUTE = 60 * 10 ^ 9" "unat NANOS_PER_HOUR = 3600 * 10 ^ 9"
  "unat MONTHS_PER_YEAR = 12"
  by (simp_all add: NANOS_PER_SEC_def NANOS_PER_MINUTE_def NANOS_PER_HOUR_def MONTHS_PER_YEAR_def)

lemma word_div_mod_nat: "of_nat (a div unat u) * u + of_nat (a mod unat u) = (of_nat a :: 'a::len word)"
proof -
  have "(of_nat a :: 'a word) = of_nat (a div unat u * unat u + a mod unat u)" by (simp only: div_mult_mod_eq)
  also have "\<dots> = of_nat (a div unat u) * of_nat (unat u) + of_nat (a mod unat u)" by (simp only: of_nat_add of_nat_mult)
  finally show ?thesis by simp
qed

lemma loop_date_text:
  assumes "dp_previous_symbol p \<noteq> Some (CHR ''.'')" "\<not> dp_parsing_time p" "dp_months p = 0" "dp_days p = 0"
  shows "\<exists>s. s \<noteq> Some (CHR ''.'') \<and> dur_parse_loop (date_text d @ rest) p =
    dur_parse_loop rest (p\<lparr> dp_months := dur_months d, dp_days := dur_days d, dp_previous_symbol := s \<rparr>)"
proof -
  let ?m = "unat (dur_months d)"
  have w: "unat w < 2 ^ 32" for w :: "32 word" using unsigned_less[of w, where 'a = nat] by simp
  have b: "?m div unat MONTHS_PER_YEAR < 2 ^ 64" "?m mod unat MONTHS_PER_YEAR < 2 ^ 64" "unat (dur_days d) < 2 ^ 64"
    using w[of "dur_months d"] w[of "dur_days d"] by (simp_all add: nanos_units)
  have months: "of_nat (?m div unat MONTHS_PER_YEAR) * MONTHS_PER_YEAR + of_nat (?m mod unat MONTHS_PER_YEAR) = dur_months d"
    by (simp add: word_div_mod_nat)
  let ?q = "\<lambda>s m. p\<lparr> dp_months := m, dp_previous_symbol := s \<rparr>"
  obtain s where s: "s \<noteq> Some (CHR ''.'')" "dur_parse_loop (date_text d @ rest) p =
      dur_parse_loop (show_part (?m mod unat MONTHS_PER_YEAR) ''M'' @ show_part (unat (dur_days d)) ''D'' @ rest)
        (?q s (of_nat (?m div unat MONTHS_PER_YEAR) * MONTHS_PER_YEAR))"
    using loop_date_part(1)[OF b(1) assms(1,2), of "show_part (?m mod unat MONTHS_PER_YEAR) ''M'' @ show_part (unat (dur_days d)) ''D'' @ rest"]
      assms(3) by (auto simp: date_text_def)
  obtain t where t: "t \<noteq> Some (CHR ''.'')" "dur_parse_loop (date_text d @ rest) p =
      dur_parse_loop (show_part (unat (dur_days d)) ''D'' @ rest) (?q t (dur_months d))"
    using loop_date_part(2)[OF b(2), of "?q s (of_nat (?m div unat MONTHS_PER_YEAR) * MONTHS_PER_YEAR)" "show_part (unat (dur_days d)) ''D'' @ rest"]
      s assms(2) months by auto
  show ?thesis
    using loop_date_part(3)[OF b(3), of "?q t (dur_months d)" rest] t assms(2,4) by auto
qed

lemma loop_seconds_text:
  assumes "n < 2 ^ 64" "k < 10 ^ 9" "dp_previous_symbol p \<noteq> Some (CHR ''.'')" "dp_parsing_time p"
  shows "\<exists>q. dur_parse_loop (seconds_text n k) p = Some (Inr q) \<and> dp_months q = dp_months p \<and> dp_days q = dp_days p \<and>
    dp_nanos q = dp_nanos p + of_nat n * NANOS_PER_SEC + of_nat k"
proof -
  have done': "dur_parse_loop [] q = Some (Inr q)" for q by (subst dur_parse_loop.simps) simp
  consider "n = 0" "k = 0" | "0 < n" "k = 0" | "0 < k" by linarith
  then show ?thesis
  proof cases
    case 1
    then show ?thesis by (simp add: seconds_text_def done')
  next
    case 2
    then show ?thesis
      using loop_time_part(3)[OF assms(1,3,4), of "[]"] by (auto simp: seconds_text_def show_part_def done')
  next
    case 3
    then show ?thesis using loop_fraction[OF assms(1-3)] by (simp add: seconds_text_def done')
  qed
qed

lemma time_units:
  fixes w :: "64 word"
  defines "t \<equiv> unat w"
  shows "of_nat (t div unat NANOS_PER_HOUR) * NANOS_PER_HOUR +
    of_nat (t mod unat NANOS_PER_HOUR div unat NANOS_PER_MINUTE) * NANOS_PER_MINUTE +
    of_nat (t mod unat NANOS_PER_MINUTE div unat NANOS_PER_SEC) * NANOS_PER_SEC + of_nat (t mod unat NANOS_PER_SEC) = w"
proof -
  have "t mod unat NANOS_PER_HOUR mod unat NANOS_PER_MINUTE = t mod unat NANOS_PER_MINUTE"
    "t mod unat NANOS_PER_MINUTE mod unat NANOS_PER_SEC = t mod unat NANOS_PER_SEC"
    by (simp_all add: nanos_units mod_mod_cancel)
  then have "of_nat (t mod unat NANOS_PER_HOUR div unat NANOS_PER_MINUTE) * NANOS_PER_MINUTE + of_nat (t mod unat NANOS_PER_MINUTE)
      = (of_nat (t mod unat NANOS_PER_HOUR) :: 64 word)"
    "of_nat (t mod unat NANOS_PER_MINUTE div unat NANOS_PER_SEC) * NANOS_PER_SEC + of_nat (t mod unat NANOS_PER_SEC)
      = (of_nat (t mod unat NANOS_PER_MINUTE) :: 64 word)"
    using word_div_mod_nat[of "t mod unat NANOS_PER_HOUR" NANOS_PER_MINUTE]
      word_div_mod_nat[of "t mod unat NANOS_PER_MINUTE" NANOS_PER_SEC] by simp_all
  then show ?thesis using word_div_mod_nat[of t NANOS_PER_HOUR] by (simp add: t_def add.assoc)
qed

lemma loop_time_text:
  assumes "dp_previous_symbol p \<noteq> Some (CHR ''.'')" "dp_parsing_time p" "dp_nanos p = 0"
  shows "\<exists>q. dur_parse_loop (time_text (unat w)) p = Some (Inr q) \<and> dp_months q = dp_months p \<and> dp_days q = dp_days p \<and>
    dp_nanos q = w"
proof -
  define h m s k where hms: "h = unat w div unat NANOS_PER_HOUR" "m = unat w mod unat NANOS_PER_HOUR div unat NANOS_PER_MINUTE"
    "s = unat w mod unat NANOS_PER_MINUTE div unat NANOS_PER_SEC" "k = unat w mod unat NANOS_PER_SEC"
  have "unat w < 2 ^ 64" using unsigned_less[of w, where 'a = nat] by simp
  then have b: "h < 2 ^ 64" "m < 2 ^ 64" "s < 2 ^ 64" "k < 10 ^ 9"
    by (simp_all add: hms nanos_units less_mult_imp_div_less)
  have w: "of_nat h * NANOS_PER_HOUR + of_nat m * NANOS_PER_MINUTE + of_nat s * NANOS_PER_SEC + of_nat k = w"
    unfolding hms by (rule time_units)
  let ?q = "\<lambda>y n. p\<lparr> dp_nanos := n, dp_previous_symbol := y \<rparr>"
  obtain x where x: "x \<noteq> Some (CHR ''.'')" "dur_parse_loop (time_text (unat w)) p =
      dur_parse_loop (show_part m ''M'' @ seconds_text s k) (?q x (of_nat h * NANOS_PER_HOUR))"
    using loop_time_part(1)[OF b(1) assms(1,2), of "show_part m ''M'' @ seconds_text s k"] assms(3)
    by (auto simp: time_text_def hms)
  obtain y where y: "y \<noteq> Some (CHR ''.'')" "dur_parse_loop (time_text (unat w)) p =
      dur_parse_loop (seconds_text s k) (?q y (of_nat h * NANOS_PER_HOUR + of_nat m * NANOS_PER_MINUTE))"
    using loop_time_part(2)[OF b(2), of "?q x (of_nat h * NANOS_PER_HOUR)" "seconds_text s k"] x assms(2) by auto
  show ?thesis
    using loop_seconds_text[OF b(3,4), of "?q y (of_nat h * NANOS_PER_HOUR + of_nat m * NANOS_PER_MINUTE)"] y assms(2) w by auto
qed

lemma time_text_digit:
  assumes "0 < t"
  shows "starts_with_digit (time_text t)"
proof -
  have "0 < t div unat NANOS_PER_HOUR \<or> 0 < t mod unat NANOS_PER_HOUR div unat NANOS_PER_MINUTE \<or>
    0 < t mod unat NANOS_PER_MINUTE div unat NANOS_PER_SEC \<or> 0 < t mod unat NANOS_PER_SEC"
  proof (rule ccontr)
    assume "\<not> ?thesis"
    then have z: "t div (3600 * 10 ^ 9) = 0" "t mod (3600 * 10 ^ 9) div (60 * 10 ^ 9) = 0"
      "t mod (60 * 10 ^ 9) div 10 ^ 9 = 0" "t mod 10 ^ 9 = 0" unfolding nanos_units by simp_all
    then show False using assms by (simp add: div_eq_0_iff mod_less)
  qed
  moreover have "starts_with_digit (seconds_text s k)" if "0 < s \<or> 0 < k" for s k
    using that starts_with_digit_show(1) by (auto simp: seconds_text_def)
  ultimately show ?thesis
    unfolding time_text_def using starts_with_digit_show(2,3) by metis
qed

lemma dur_fmt_parses: "dur_from_str (dur_fmt d) = Some (Inr d)"
proof (cases "dur_is_empty d")
  case True
  then have "d = \<lparr> dur_months = 0, dur_days = 0, dur_nanos = 0 \<rparr>" "dur_fmt d = ''PT0S''"
    by (simp_all add: dur_is_empty_def dur_fmt_def)
  moreover have "dur_from_str ''PT0S'' = Some (Inr \<lparr> dur_months = 0, dur_days = 0, dur_nanos = 0 \<rparr>)"
  proof -
    have "dur_parse_loop ''0S'' p = dur_parse_loop [] (p\<lparr> dp_previous_symbol := Some (CHR ''S'') \<rparr>)"
      if "dp_previous_symbol p = None" "dp_parsing_time p" for p
      using loop_digits[of "''0''" 0 "CHR ''S''" p p "[]"] that by (simp add: loop_symbol_simps all_digits_def)
    moreover have "starts_with_digit ''0S''" by (simp add: starts_with_digit_def is_ascii_digit_def)
    moreover have "dur_parse_loop [] q = Some (Inr q)" for q by (subst dur_parse_loop.simps) simp
    ultimately show ?thesis by (simp add: dur_from_str_def loop_T)
  qed
  ultimately show ?thesis by simp
next
  case False
  let ?p = "\<lparr> dp_months = 0, dp_days = 0, dp_nanos = 0, dp_parsing_time = False, dp_previous_symbol = None \<rparr>"
  let ?time = "if dur_nanos d = 0 then '''' else ''T'' @ time_text (unat (dur_nanos d))"
  obtain s where s: "s \<noteq> Some (CHR ''.'')" "dur_parse_loop (date_text d @ ?time) ?p =
      dur_parse_loop ?time (?p\<lparr> dp_months := dur_months d, dp_days := dur_days d, dp_previous_symbol := s \<rparr>)"
    using loop_date_text[of ?p d ?time] by auto
  let ?q = "?p\<lparr> dp_months := dur_months d, dp_days := dur_days d, dp_previous_symbol := s \<rparr>"
  have "\<exists>q. dur_parse_loop ?time ?q = Some (Inr q) \<and> dp_months q = dur_months d \<and> dp_days q = dur_days d \<and> dp_nanos q = dur_nanos d"
  proof (cases "dur_nanos d = 0")
    case True
    then show ?thesis by (subst dur_parse_loop.simps) simp
  next
    case False
    then have "starts_with_digit (time_text (unat (dur_nanos d)))" by (intro time_text_digit) (simp add: unat_gt_0)
    then show ?thesis
      using False loop_time_text[of "?q\<lparr> dp_parsing_time := True \<rparr>" "dur_nanos d"] s(1) by (simp add: loop_T)
  qed
  then show ?thesis using s(2) by (auto simp: dur_from_str_def dur_fmt_texts[OF False])
qed

text \<open>Every iteration consumes at least one byte, so the loop ends.\<close>

lemma digit_prefix_less:
  assumes "digit_prefix s \<noteq> 0"
  shows "digit_prefix s < length s"
proof -
  have "s \<noteq> []" using assms by auto
  then show ?thesis by (induction s rule: digit_prefix.induct) auto
qed

lemma dur_parse_loop_returns:
  "list_all (\<lambda>c. (of_char c :: nat) < 128) s \<Longrightarrow> \<exists>r. dur_parse_loop s p = Some r"
proof (induction "length s" arbitrary: s p rule: less_induct)
  case less
  show ?case
  proof (cases "s = []")
    case False
    define t where "t = (if hd s = CHR ''T'' then tl s else s)"
    define q where "q = (if hd s = CHR ''T'' then p\<lparr> dp_parsing_time := True \<rparr> else p)"
    have t: "list_all (\<lambda>c. (of_char c :: nat) < 128) t" "length t \<le> length s"
      using less.prems False by (cases s; simp add: t_def)+
    have step: "dur_parse_loop s p = Option.bind (read_u32 t) (\<lambda>r. case r of
            Inl e \<Rightarrow> Some (Inl e)
          | Inr (seg, tail) \<Rightarrow>
              if dp_previous_symbol q = Some (CHR ''.'') \<and> seg_symbol seg \<noteq> CHR ''S'' then Some (Inl DurationParseError)
              else (case dur_segment q seg of
                      None \<Rightarrow> Some (Inl DurationParseError)
                    | Some p \<Rightarrow> dur_parse_loop tail (p\<lparr> dp_previous_symbol := Some (seg_symbol seg) \<rparr>)))"
      unfolding t_def q_def using False by (subst dur_parse_loop.simps) (cases "hd s = CHR ''T''"; simp cong: if_cong)
    have tail: "\<exists>r. dur_parse_loop (drop (digit_prefix t + 1) t) p' = Some r" if "digit_prefix t \<noteq> 0" for p'
    proof (rule less.hyps)
      show "length (drop (digit_prefix t + 1) t) < length s" using t(2) digit_prefix_less[OF that] by simp
      show "list_all (\<lambda>c. (of_char c :: nat) < 128) (drop (digit_prefix t + 1) t)"
        using t(1) set_drop_subset[of "digit_prefix t + 1" t] by (auto simp: list_all_iff)
    qed
    show ?thesis
    proof (cases "digit_prefix t = 0")
      case True
      then show ?thesis by (simp add: step read_u32_def)
    next
      case False
      then have "(of_char (t ! digit_prefix t) :: nat) < 128" using t(1) digit_prefix_less by (simp add: list_all_length)
      then show ?thesis using False tail[OF False] by (simp add: step read_u32_def Let_def split: option.split)
    qed
  qed (subst dur_parse_loop.simps, simp)
qed

text \<open>Adding a day and adding 24 hours to a naive date-time agree.\<close>

lemma naive_day_is_24_hours:
  fixes position :: "'n \<Rightarrow> int"
  assumes months: "\<And>t. ch_add_months ch t 0 = Some t"
    and days: "\<And>t n t'. ch_add_days ch t n = Some t' \<Longrightarrow> position t' = position t + int n * 86400 * 10 ^ 9"
    and zero: "\<And>t. ch_add_days ch t 0 = Some t"
    and delta: "\<And>t s k d t'. ch_delta_new ch s k = Some d \<Longrightarrow> ch_add_delta ch t d = Some t' \<Longrightarrow>
      position t' = position t + s * 10 ^ 9 + int k"
    and inj: "\<And>t t'. position t = position t' \<Longrightarrow> t = t'"
    and a: "naive_add_duration ch t (dur_of_days 1) = Some t1" and b: "naive_add_duration ch t (dur_of_hours 24) = Some t2"
  shows "t1 = t2"
proof (rule inj)
  obtain t' d0 where d: "ch_add_days ch t 1 = Some t'" "ch_delta_new ch 0 0 = Some d0" "ch_add_delta ch t' d0 = Some t1"
    using a by (auto simp: naive_add_duration_def dur_of_days_def nanos_delta_def months bind_eq_Some_conv)
  have "(24 * NANOS_PER_HOUR) div NANOS_PER_SEC = 86400" "(24 * NANOS_PER_HOUR) mod NANOS_PER_SEC = 0"
    by (simp_all add: NANOS_PER_HOUR_def NANOS_PER_SEC_def)
  then obtain d1 where h: "ch_delta_new ch 86400 0 = Some d1" "ch_add_delta ch t d1 = Some t2"
    using b by (auto simp: naive_add_duration_def dur_of_hours_def nanos_delta_def months zero bind_eq_Some_conv)
  show "position t1 = position t2"
    using days[OF d(1)] delta[OF d(2,3)] delta[OF h] by simp
qed

section \<open>Properties\<close>

text \<open>C32: The text of every duration, whatever its months, days and nanoseconds, parses back to that duration.\<close>

theorem duration_text_roundtrip: "dur_from_str (dur_fmt d) = Some (Inr d)"
  by (rule dur_fmt_parses)

text \<open>C34: On every non-empty ASCII text the parser's loop ends and the parser returns a duration or
  \<^verbatim>\<open>DurationParseError\<close>, without panicking; on the empty text it panics, since it indexes the first byte before
  checking that there is one.\<close>

theorem duration_parser_returns:
  "dur_from_str [] = None \<and>
   (s \<noteq> [] \<and> list_all (\<lambda>c. (of_char c :: nat) < 128) s \<longrightarrow> (\<exists>r. dur_from_str s = Some r))"
proof -
  have "\<exists>r. dur_from_str s = Some r" if "s \<noteq> []" "list_all (\<lambda>c. (of_char c :: nat) < 128) s"
  proof -
    have "list_all (\<lambda>c. (of_char c :: nat) < 128) (tl s)" using that by (cases s) simp_all
    then obtain r where r: "dur_parse_loop (tl s)
        \<lparr> dp_months = 0, dp_days = 0, dp_nanos = 0, dp_parsing_time = False, dp_previous_symbol = None \<rparr> = Some r"
      using dur_parse_loop_returns by blast
    show ?thesis using that(1) by (cases r) (simp_all add: dur_from_str_def r)
  qed
  moreover have "dur_from_str [] = None" by (simp add: dur_from_str_def)
  ultimately show ?thesis by blast
qed

theorem duration_parser_returns_witness: "\<exists>r. dur_from_str ''P1YT'' = Some r"
  using duration_parser_returns[of "''P1YT''"] by simp

end
