(* ===== verification/ValueBytes.thy ===== *)
theory ValueBytes
  imports MvccKey Decimal DurationValue
begin

text \<open>
  Inline encodings of attribute values (\<^verbatim>\<open>src/encoding/value/*_bytes.rs\<close>, \<^verbatim>\<open>primitive_encoding.rs\<close>): fixed-width byte
  strings whose lexicographic order is the order of the values.  A double is its bit pattern; its order is that of
  IEEE 754 on finite values.  Dates and date-times belong to the \<^verbatim>\<open>chrono\<close> crate: the functions that number them are
  arguments.  The locale \<open>value_codec\<close> is the contract of such an encoding and \<open>sortable_codec\<close> adds the order; each
  encoding interprets them.
\<close>

unbundle bit_operations_syntax

section \<open>Integers\<close>

definition encode_u32 :: "32 word \<Rightarrow> bytes" where "encode_u32 value' = be_encode 4 (unat value')"

definition decode_u32 :: "bytes \<Rightarrow> 32 word" where "decode_u32 bytes' = of_nat (be_decode bytes')"

definition encode_i32 :: "32 word \<Rightarrow> bytes" where "encode_i32 value' = be_encode 4 (unat (value' XOR 2 ^ 31))"

definition decode_i32 :: "bytes \<Rightarrow> 32 word" where "decode_i32 bytes' = of_nat (be_decode bytes') XOR 2 ^ 31"

definition encode_u64 :: "64 word \<Rightarrow> bytes" where "encode_u64 value' = be_encode 8 (unat value')"

definition decode_u64 :: "bytes \<Rightarrow> 64 word" where "decode_u64 bytes' = of_nat (be_decode bytes')"

definition encode_i64 :: "64 word \<Rightarrow> bytes" where "encode_i64 value' = be_encode 8 (unat (value' XOR 2 ^ 63))"

definition decode_i64 :: "bytes \<Rightarrow> 64 word" where "decode_i64 bytes' = of_nat (be_decode bytes') XOR 2 ^ 63"

section \<open>Values\<close>

datatype value_encoding_length = Short | Long

definition SHORT_LENGTH :: nat where "SHORT_LENGTH = 8"

definition LONG_LENGTH :: nat where "LONG_LENGTH = 17"

fun encoding_length :: "value_encoding_length \<Rightarrow> nat" where
  "encoding_length Short = SHORT_LENGTH"
| "encoding_length Long = LONG_LENGTH"

text \<open>Reading checks the length of the slice; the encoded structs hold an array of exactly that length.\<close>

definition boolean_build :: "bool \<Rightarrow> bytes" where
  "boolean_build b = (replicate (encoding_length Short) 0)[0 := of_bool b]"

definition as_bool :: "bytes \<Rightarrow> bool" where "as_bool self \<longleftrightarrow> self ! 0 \<noteq> 0"

definition boolean_read :: "bytes \<Rightarrow> bytes option" where
  "boolean_read bs = (if length bs = encoding_length Short then Some bs else None)"

definition integer_build :: "64 word \<Rightarrow> bytes" where "integer_build integer = encode_i64 integer"

definition as_i64 :: "bytes \<Rightarrow> 64 word" where "as_i64 self = decode_i64 self"

definition integer_read :: "bytes \<Rightarrow> bytes option" where
  "integer_read bs = (if length bs = encoding_length Short then Some bs else None)"

text \<open>Negating a double flips its sign bit.\<close>

definition ENCODED_NEGATIVE_ZERO :: "64 word" where "ENCODED_NEGATIVE_ZERO = 2 ^ 63 - 1"

definition f64_neg :: "64 word \<Rightarrow> 64 word" where "f64_neg bits = bits XOR 2 ^ 63"

definition double_build :: "64 word \<Rightarrow> bytes" where
  "double_build bits =
     (let encoded_bits = (if \<not> bit bits 63 then f64_neg bits else NOT bits) in encode_u64 encoded_bits)"

definition as_f64 :: "bytes \<Rightarrow> 64 word" where
  "as_f64 self =
     (let encoded_bits = decode_u64 self in
      if encoded_bits > ENCODED_NEGATIVE_ZERO then f64_neg encoded_bits else NOT encoded_bits)"

definition double_read :: "bytes \<Rightarrow> bytes option" where
  "double_read bs = (if length bs = encoding_length Short then Some bs else None)"

definition decimal_build :: "decimal \<Rightarrow> bytes" where
  "decimal_build d =
     (let bytes' = replicate (encoding_length Long) 0;
          bytes' = copy_from_slice bytes' 0 (encode_i64 (dec_integer d))
      in copy_from_slice bytes' 8 (encode_u64 (dec_fractional d)))"

definition as_decimal :: "bytes \<Rightarrow> decimal" where
  "as_decimal self = dec_new (decode_i64 (slice self 0 8)) (decode_u64 (slice self 8 16))"

definition decimal_read :: "bytes \<Rightarrow> bytes option" where
  "decimal_read bs = (if length bs = encoding_length Long then Some bs else None)"

definition duration_build :: "duration \<Rightarrow> bytes" where
  "duration_build d =
     (let bytes' = replicate (encoding_length Long) 0;
          bytes' = copy_from_slice bytes' 0 (encode_u32 (dur_months d));
          bytes' = copy_from_slice bytes' 4 (encode_u32 (dur_days d))
      in copy_from_slice bytes' 8 (encode_u64 (dur_nanos d)))"

definition as_duration :: "bytes \<Rightarrow> duration" where
  "as_duration self =
     \<lparr> dur_months = decode_u32 (slice self 0 4), dur_days = decode_u32 (slice self 4 8),
       dur_nanos = decode_u64 (slice self 8 16) \<rparr>"

definition duration_read :: "bytes \<Rightarrow> bytes option" where
  "duration_read bs = (if length bs = encoding_length Long then Some bs else None)"

text \<open>Dates by their number of days, date-times by seconds and nanoseconds; unwrapping fails where \<^verbatim>\<open>chrono\<close> has no date.\<close>

definition date_build :: "('date \<Rightarrow> 32 word) \<Rightarrow> 'date \<Rightarrow> bytes" where
  "date_build num_days_from_ce date =
     copy_from_slice (replicate (encoding_length Short) 0) 0 (encode_i32 (num_days_from_ce date))"

definition as_naive_date :: "(32 word \<Rightarrow> 'date option) \<Rightarrow> bytes \<Rightarrow> 'date option" where
  "as_naive_date from_num_days_from_ce_opt self = from_num_days_from_ce_opt (decode_i32 (slice self 0 4))"

definition date_time_build :: "('dt \<Rightarrow> 64 word) \<Rightarrow> ('dt \<Rightarrow> 32 word) \<Rightarrow> 'dt \<Rightarrow> bytes" where
  "date_time_build timestamp timestamp_subsec_nanos date_time =
     (let bytes' = replicate (encoding_length Long) 0;
          bytes' = copy_from_slice bytes' 0 (encode_i64 (timestamp date_time))
      in copy_from_slice bytes' 8 (encode_u32 (timestamp_subsec_nanos date_time)))"

definition as_naive_date_time :: "(64 word \<Rightarrow> 32 word \<Rightarrow> 'dt option) \<Rightarrow> bytes \<Rightarrow> 'dt option" where
  "as_naive_date_time from_timestamp self = from_timestamp (decode_i64 (slice self 0 8)) (decode_u32 (slice self 8 12))"

section \<open>Order of the primitive encodings\<close>

lemma xor_sign_int:
  assumes "0 \<le> k" "k < 2 ^ Suc n"
  shows "k XOR 2 ^ n = signed_take_bit n k + (2 :: int) ^ n"
proof -
  have "k XOR 2 ^ n = flip_bit n k" by (simp add: flip_bit_eq_xor)
  also have "\<dots> = k + (if bit k n then - (2 ^ n) else 2 ^ n)"
    by (simp add: flip_bit_eq_if set_bit_eq unset_bit_eq)
  finally show ?thesis
    using assms by (simp add: signed_take_bit_eq_take_bit_minus take_bit_int_eq_self)
qed

lemma uint_xor_sign64: "uint (v XOR 2 ^ 63 :: 64 word) = sint v + 2 ^ 63"
proof -
  have "uint v < 2 ^ Suc 63" using unsigned_less[of v, where 'a = int] by simp
  then show ?thesis using xor_sign_int[of "uint v" 63] by (simp add: unsigned_xor_eq sint_uint)
qed

lemma uint_xor_sign32: "uint (v XOR 2 ^ 31 :: 32 word) = sint v + 2 ^ 31"
proof -
  have "uint v < 2 ^ Suc 31" using unsigned_less[of v, where 'a = int] by simp
  then show ?thesis using xor_sign_int[of "uint v" 31] by (simp add: unsigned_xor_eq sint_uint)
qed

lemma unat_bounds: "unat (v :: 64 word) < 256 ^ 8" "unat (w :: 32 word) < 256 ^ 4"
  using unsigned_less[of v, where 'a = nat] unsigned_less[of w, where 'a = nat] by simp_all

lemmas be_decode_word = be_decode_encode_id[OF unat_bounds(1)] be_decode_encode_id[OF unat_bounds(2)]

lemmas be_less_word = be_encode_less_iff[OF unat_bounds(1) unat_bounds(1)] be_encode_less_iff[OF unat_bounds(2) unat_bounds(2)]

lemma length_encode [simp]:
  "length (encode_u32 v) = 4" "length (encode_i32 v) = 4" "length (encode_u64 w) = 8" "length (encode_i64 w) = 8"
  by (simp_all add: encode_u32_def encode_i32_def encode_u64_def encode_i64_def)

lemma decode_encode [simp]:
  "decode_u32 (encode_u32 v) = v" "decode_i32 (encode_i32 v) = v" "decode_u64 (encode_u64 w) = w" "decode_i64 (encode_i64 w) = w"
  by (simp_all add: encode_u32_def encode_i32_def encode_u64_def encode_i64_def decode_u32_def decode_i32_def decode_u64_def
      decode_i64_def be_decode_word xor.assoc)

lemma encode_inj [simp]:
  "encode_u32 v = encode_u32 v' \<longleftrightarrow> v = v'" "encode_i32 v = encode_i32 v' \<longleftrightarrow> v = v'"
  "encode_u64 w = encode_u64 w' \<longleftrightarrow> w = w'" "encode_i64 w = encode_i64 w' \<longleftrightarrow> w = w'"
  by (metis decode_encode)+

lemma encode_less [simp]:
  "encode_u32 v < encode_u32 v' \<longleftrightarrow> v < v'" "encode_u64 w < encode_u64 w' \<longleftrightarrow> w < w'"
  "encode_i32 v < encode_i32 v' \<longleftrightarrow> sint v < sint v'" "encode_i64 w < encode_i64 w' \<longleftrightarrow> sint w < sint w'"
proof -
  have b: "be_encode 8 (unat x) < be_encode 8 (unat y) \<longleftrightarrow> uint x < uint y"
    "be_encode 4 (unat v) < be_encode 4 (unat u) \<longleftrightarrow> uint v < uint u" for x y :: "64 word" and v u :: "32 word"
    unfolding be_less_word by (simp_all flip: word_less_nat_alt word_less_def)
  show "encode_u32 v < encode_u32 v' \<longleftrightarrow> v < v'" "encode_u64 w < encode_u64 w' \<longleftrightarrow> w < w'"
    unfolding encode_u32_def encode_u64_def b word_less_def by (rule refl)+
  show "encode_i32 v < encode_i32 v' \<longleftrightarrow> sint v < sint v'" "encode_i64 w < encode_i64 w' \<longleftrightarrow> sint w < sint w'"
    unfolding encode_i32_def encode_i64_def b uint_xor_sign32 uint_xor_sign64 by simp_all
qed

section \<open>Codecs\<close>

locale value_codec =
  fixes enc :: "'v \<Rightarrow> bytes" and dec :: "bytes \<Rightarrow> 'v option" and len :: nat
  assumes enc_length: "length (enc v) = len"
    and dec_enc: "dec (enc v) = Some v"
    and dec_length: "dec bs = None \<longleftrightarrow> length bs \<noteq> len"
begin

lemma enc_inj: "enc v = enc w \<longleftrightarrow> v = w"
  by (metis dec_enc option.inject)

lemma enc_apart: "keys_apart (p @ enc v) (p @ enc w)"
  by (rule keys_apart_same_length) (simp add: enc_length)

lemma enc_version_inj:
  "seq_ok s \<Longrightarrow> seq_ok s' \<Longrightarrow>
   mvcc_build (p @ enc v) s op = mvcc_build (p @ enc w) s' op' \<longleftrightarrow> v = w \<and> s = s' \<and> op = op'"
  by (simp add: mvcc_build_inj enc_inj)

end

locale sortable_codec = value_codec enc dec len for enc :: "'v \<Rightarrow> bytes" and dec len +
  fixes less_value :: "'v \<Rightarrow> 'v \<Rightarrow> bool"
  assumes enc_less: "enc v < enc w \<longleftrightarrow> less_value v w"
begin

lemma less_value_linear: "less_value v w \<or> v = w \<or> less_value w v"
  using enc_inj by (auto simp flip: enc_less)

text \<open>Versions of attributes of one type are stored by value, newest first.\<close>

lemma enc_version_less:
  assumes "seq_ok s" "seq_ok s'"
  shows "mvcc_build (p @ enc v) s op < mvcc_build (p @ enc w) s' op' \<longleftrightarrow>
    less_value v w \<or> v = w \<and> (s' < s \<or> s' = s \<and> op = OpInsert \<and> op' = OpDelete)"
  using mvcc_build_less_iff[OF enc_apart assms] by (simp add: enc_less enc_inj)

text \<open>Encoding a list sorted by value gives a strictly sorted list of keys, so a scan returns the values in order.\<close>

lemma enc_sorted: "sorted_wrt less_value vs \<longleftrightarrow> sorted_wrt (<) (map (\<lambda>v. p @ enc v) vs)"
  by (simp add: sorted_wrt_map enc_less)

end

section \<open>The encodings as codecs\<close>

interpretation bool_codec: sortable_codec boolean_build "\<lambda>bs. map_option as_bool (boolean_read bs)" 8 "\<lambda>v w. \<not> v \<and> w"
proof
  fix v w :: bool and bs :: bytes
  show "boolean_build v < boolean_build w \<longleftrightarrow> \<not> v \<and> w"
    by (cases v; cases w) (simp_all add: boolean_build_def SHORT_LENGTH_def numeral_eq_Suc)
qed (simp_all add: boolean_build_def boolean_read_def as_bool_def SHORT_LENGTH_def numeral_eq_Suc)

interpretation integer_codec: sortable_codec integer_build "\<lambda>bs. map_option as_i64 (integer_read bs)" 8 "\<lambda>v w. sint v < sint w"
  by unfold_locales (simp_all add: integer_build_def integer_read_def as_i64_def SHORT_LENGTH_def)

text \<open>
  Finite doubles are ordered as sign and magnitude, with the two zeros equal.  The encoding separates them, negative
  zero first.
\<close>

definition f64_rank :: "64 word \<Rightarrow> int" where
  "f64_rank bits = (if bit bits 63 then 2 ^ 63 - uint bits else uint bits)"

definition f64_less :: "64 word \<Rightarrow> 64 word \<Rightarrow> bool" where
  "f64_less a b \<longleftrightarrow> f64_rank a < f64_rank b"

definition double_less :: "64 word \<Rightarrow> 64 word \<Rightarrow> bool" where
  "double_less a b \<longleftrightarrow> f64_less a b \<or> a = 2 ^ 63 \<and> b = 0"

definition double_bits :: "64 word \<Rightarrow> 64 word" where
  "double_bits bits = (if \<not> bit bits 63 then f64_neg bits else NOT bits)"

lemma bit63: "bit (w :: 64 word) 63 \<longleftrightarrow> 2 ^ 63 \<le> uint w"
proof -
  have "odd (k div 2 ^ 63) \<longleftrightarrow> 2 ^ 63 \<le> k" if "0 \<le> k" "k < 2 ^ 64" for k :: int
  proof (cases "2 ^ 63 \<le> k")
    case True
    then have "k div 2 ^ 63 = (k - 2 ^ 63) div 2 ^ 63 + 1" by (intro div_pos_geq) simp_all
    then show ?thesis using True that by simp
  qed (use that in simp)
  moreover have "0 \<le> uint w" "uint w < 2 ^ 64" using unsigned_less[of w, where 'a = int] by simp_all
  moreover have "bit w 63 \<longleftrightarrow> odd (uint w div 2 ^ 63)" using bit_uint_iff[of w 63] unfolding bit_iff_odd[of "uint w"] by simp
  ultimately show ?thesis by blast
qed

lemma uint_not64: "uint (NOT w :: 64 word) = 2 ^ 64 - 1 - uint w"
proof -
  have "NOT w = - 1 - w" by (simp add: not_eq_complement)
  then show ?thesis
    using unsigned_less[of w, where 'a = int] by (simp add: uint_sub_if' unsigned_minus_1_eq_mask mask_eq_exp_minus_1 word_le_def)
qed

lemma uint_double_bits: "uint (double_bits w) = (if bit w 63 then 2 ^ 63 - 1 + f64_rank w else 2 ^ 63 + f64_rank w)"
proof -
  have "sint w = uint w" if "\<not> bit w 63"
    using that unsigned_less[of w, where 'a = int] by (simp add: sint_uint signed_take_bit_eq_take_bit_minus bit_uint_iff take_bit_int_eq_self)
  then show ?thesis
    by (simp add: double_bits_def f64_neg_def f64_rank_def uint_not64 uint_xor_sign64[simplified])
qed

lemma double_bits_less: "double_bits v < double_bits w \<longleftrightarrow> double_less v w"
proof -
  let ?r = "\<lambda>x. if 2 ^ 63 \<le> x then 2 ^ 63 - x else x :: int"
  let ?e = "\<lambda>x. if 2 ^ 63 \<le> x then 2 ^ 63 - 1 + ?r x else 2 ^ 63 + ?r x"
  have ints: "?e x < ?e y \<longleftrightarrow> ?r x < ?r y \<or> x = 2 ^ 63 \<and> y = 0" if "0 \<le> x" "0 \<le> y" for x y
    using that by (cases "2 ^ 63 \<le> x"; cases "2 ^ 63 \<le> y"; simp; linarith?)
  have "uint (2 ^ 63 :: 64 word) = 2 ^ 63" by simp
  then have zeros: "uint v = 2 ^ 63 \<longleftrightarrow> v = 2 ^ 63" "uint w = 0 \<longleftrightarrow> w = 0" by (auto simp: uint_0_iff intro: word_uint_eqI)
  show ?thesis
    unfolding word_less_def uint_double_bits double_less_def f64_less_def f64_rank_def bit63
    using ints[of "uint v" "uint w"] zeros by simp
qed

lemma double_build_bits: "double_build w = encode_u64 (double_bits w)"
  by (simp add: double_build_def double_bits_def Let_def)

lemma as_f64_build: "as_f64 (double_build w) = w"
proof (cases "bit w 63")
  case True
  then have "\<not> ENCODED_NEGATIVE_ZERO < double_bits w"
    unfolding word_less_def uint_double_bits ENCODED_NEGATIVE_ZERO_def by (simp add: f64_rank_def bit63)
  then show ?thesis using True by (simp add: double_build_bits as_f64_def double_bits_def)
next
  case False
  then have "ENCODED_NEGATIVE_ZERO < double_bits w"
    unfolding word_less_def uint_double_bits ENCODED_NEGATIVE_ZERO_def by (simp add: f64_rank_def add_strict_increasing)
  then show ?thesis using False by (simp add: double_build_bits as_f64_def double_bits_def f64_neg_def xor.assoc)
qed

interpretation double_codec: sortable_codec double_build "\<lambda>bs. map_option as_f64 (double_read bs)" 8 double_less
  by unfold_locales (simp_all add: double_build_bits double_bits_less double_read_def SHORT_LENGTH_def as_f64_build[unfolded double_build_bits])

lemma decimal_build_eq: "decimal_build d = encode_i64 (dec_integer d) @ encode_u64 (dec_fractional d) @ [0]"
  by (simp add: decimal_build_def Let_def copy_from_slice_def LONG_LENGTH_def numeral_eq_Suc)

interpretation decimal_codec: sortable_codec decimal_build "\<lambda>bs. map_option as_decimal (decimal_read bs)" 17 dec_less
  by unfold_locales (auto simp: decimal_build_eq decimal_read_def as_decimal_def LONG_LENGTH_def slice_def dec_new_def
      dec_less_def lex_append_same_length)

lemma duration_build_eq: "duration_build d = encode_u32 (dur_months d) @ encode_u32 (dur_days d) @ encode_u64 (dur_nanos d) @ [0]"
  by (simp add: duration_build_def Let_def copy_from_slice_def LONG_LENGTH_def numeral_eq_Suc)

interpretation duration_codec: value_codec duration_build "\<lambda>bs. map_option as_duration (duration_read bs)" 17
  by unfold_locales (auto simp: duration_build_eq duration_read_def as_duration_def LONG_LENGTH_def slice_def)

lemma date_roundtrip:
  assumes "\<And>d. from_num_days_from_ce_opt (num_days_from_ce d) = Some d"
  shows "as_naive_date from_num_days_from_ce_opt (date_build num_days_from_ce date) = Some date"
    "date_build num_days_from_ce date < date_build num_days_from_ce date' \<longleftrightarrow>
      sint (num_days_from_ce date) < sint (num_days_from_ce date')"
proof -
  have eq: "date_build num_days_from_ce d = encode_i32 (num_days_from_ce d) @ replicate 4 0" for d
    by (simp add: date_build_def copy_from_slice_def SHORT_LENGTH_def)
  show "as_naive_date from_num_days_from_ce_opt (date_build num_days_from_ce date) = Some date"
    by (simp add: eq as_naive_date_def slice_def assms)
  show "date_build num_days_from_ce date < date_build num_days_from_ce date' \<longleftrightarrow>
      sint (num_days_from_ce date) < sint (num_days_from_ce date')"
    by (simp add: eq lex_append_same_length)
qed

lemma date_time_roundtrip:
  assumes "\<And>t. from_timestamp (timestamp t) (timestamp_subsec_nanos t) = Some t"
  shows "as_naive_date_time from_timestamp (date_time_build timestamp timestamp_subsec_nanos t) = Some t"
    "date_time_build timestamp timestamp_subsec_nanos t < date_time_build timestamp timestamp_subsec_nanos t' \<longleftrightarrow>
      sint (timestamp t) < sint (timestamp t') \<or>
      timestamp t = timestamp t' \<and> timestamp_subsec_nanos t < timestamp_subsec_nanos t'"
proof -
  have eq: "date_time_build timestamp timestamp_subsec_nanos t =
      encode_i64 (timestamp t) @ encode_u32 (timestamp_subsec_nanos t) @ replicate 5 0" for t
    by (simp add: date_time_build_def Let_def copy_from_slice_def LONG_LENGTH_def)
  show "as_naive_date_time from_timestamp (date_time_build timestamp timestamp_subsec_nanos t) = Some t"
    by (simp add: eq as_naive_date_time_def slice_def assms)
  show "date_time_build timestamp timestamp_subsec_nanos t < date_time_build timestamp timestamp_subsec_nanos t' \<longleftrightarrow>
      sint (timestamp t) < sint (timestamp t') \<or>
      timestamp t = timestamp t' \<and> timestamp_subsec_nanos t < timestamp_subsec_nanos t'"
    by (simp add: eq lex_append_same_length)
qed

section \<open>Properties\<close>

text \<open>C29: Every inline value encoding is inverted by reading it back: booleans, integers, doubles (bit for bit, the
  two zeros included), decimals and durations.  The encodings of one type all have the length of its encoding class, and
  reading a slice of another length panics.\<close>

theorem value_encodings_roundtrip:
  "map_option as_bool (boolean_read (boolean_build b)) = Some b \<and>
   map_option as_i64 (integer_read (integer_build i)) = Some i \<and>
   map_option as_f64 (double_read (double_build x)) = Some x \<and>
   map_option as_decimal (decimal_read (decimal_build d)) = Some d \<and>
   map_option as_duration (duration_read (duration_build u)) = Some u \<and>
   length (boolean_build b) = encoding_length Short \<and> length (integer_build i) = encoding_length Short \<and>
   length (double_build x) = encoding_length Short \<and> length (decimal_build d) = encoding_length Long \<and>
   length (duration_build u) = encoding_length Long \<and>
   (integer_read bs = None \<longleftrightarrow> length bs \<noteq> encoding_length Short) \<and>
   (decimal_read bs = None \<longleftrightarrow> length bs \<noteq> encoding_length Long)"
  using bool_codec.dec_enc[of b] integer_codec.dec_enc[of i] double_codec.dec_enc[of x] decimal_codec.dec_enc[of d]
    duration_codec.dec_enc[of u] bool_codec.enc_length[of b] integer_codec.enc_length[of i] double_codec.enc_length[of x]
    decimal_codec.enc_length[of d] duration_codec.enc_length[of u] integer_codec.dec_length[of bs] decimal_codec.dec_length[of bs]
  by (simp add: SHORT_LENGTH_def LONG_LENGTH_def)

text \<open>C28: The stored versions of the attributes of one type are sorted by value, and those of one value newest first:
  with any common key prefix, the multi-version keys of two integers, doubles or decimals compare as the values do and,
  on equal values, as the sequence numbers do in reverse, an insert before a delete.  Doubles compare as
  IEEE 754 does except that negative zero precedes zero.\<close>

theorem stored_values_sorted:
  assumes "seq_ok s" "seq_ok s'"
  shows "let older = s' < s \<or> s' = s \<and> op = OpInsert \<and> op' = OpDelete in
    (mvcc_build (p @ integer_build i) s op < mvcc_build (p @ integer_build i') s' op' \<longleftrightarrow> sint i < sint i' \<or> i = i' \<and> older) \<and>
    (mvcc_build (p @ double_build x) s op < mvcc_build (p @ double_build x') s' op' \<longleftrightarrow>
      f64_less x x' \<or> x = 2 ^ 63 \<and> x' = 0 \<or> x = x' \<and> older) \<and>
    (mvcc_build (p @ decimal_build d) s op < mvcc_build (p @ decimal_build d') s' op' \<longleftrightarrow> dec_less d d' \<or> d = d' \<and> older)"
  using integer_codec.enc_version_less[OF assms] double_codec.enc_version_less[OF assms]
    decimal_codec.enc_version_less[OF assms] by (simp add: Let_def double_less_def)

theorem stored_values_sorted_witness:
  "mvcc_build ([7] @ integer_build (-1)) 3 OpInsert < mvcc_build ([7] @ integer_build 0) 9 OpDelete \<and>
   mvcc_build ([7] @ integer_build 0) 9 OpInsert < mvcc_build ([7] @ integer_build 0) 3 OpInsert"
  using stored_values_sorted[of 3 9 OpInsert OpDelete "[7]" "-1" 0] stored_values_sorted[of 9 3 OpInsert OpInsert "[7]" 0 0]
  by (simp add: Let_def seq_ok_def)

end
