(* ===== verification/GraphKeys.thy ===== *)
theory GraphKeys
  imports ValueBytes Buffer
begin

text \<open>
  The keys of the graph's vertices (\<^verbatim>\<open>src/encoding/encoding.rs\<close>, \<^verbatim>\<open>layout/prefix.rs\<close>, \<^verbatim>\<open>graph/type_/vertex.rs\<close>,
  \<^verbatim>\<open>graph/thing/vertex_object.rs\<close>, \<^verbatim>\<open>graph/thing/vertex_attribute.rs\<close>, \<^verbatim>\<open>value/value_type.rs\<close>): one byte for the kind of
  the key, the identifier of a type, and the identifier of an object or the encoded value of an attribute.  A byte
  array is its bytes; indexing or slicing past its end, and a byte that stands for no kind, is the panic None.
\<close>

section \<open>Prefixes and keyspaces\<close>

datatype key_prefix =
    VertexEntityType | VertexRelationType | VertexAttributeType | VertexRoleType | DefinitionStruct | DefinitionFunction
  | VertexEntity | VertexRelation | VertexAttribute
  | EdgeSub | EdgeSubReverse | EdgeOwns | EdgeOwnsReverse | EdgePlays | EdgePlaysReverse | EdgeRelates | EdgeRelatesReverse
  | EdgeHas | EdgeHasReverse | EdgeLinks | EdgeLinksReverse | EdgeLinksIndex
  | PropertyTypeVertex | PropertyTypeEdge | PropertyObjectVertex
  | IndexLabelToType | IndexNameToDefinitionStruct | IndexNameToDefinitionFunction | IndexValueToStruct

text \<open>The table of the macro: the prefix, its byte, and whether its keys all have the same width.\<close>

definition prefix_table :: "(key_prefix \<times> byte \<times> bool) list" where
  "prefix_table =
    [(VertexEntityType, 10, True), (VertexRelationType, 11, True), (VertexAttributeType, 12, True), (VertexRoleType, 15, True),
     (DefinitionStruct, 20, True), (DefinitionFunction, 21, True),
     (VertexEntity, 30, True), (VertexRelation, 31, True), (VertexAttribute, 32, False),
     (EdgeSub, 100, True), (EdgeSubReverse, 101, True), (EdgeOwns, 102, True), (EdgeOwnsReverse, 103, True),
     (EdgePlays, 104, True), (EdgePlaysReverse, 105, True), (EdgeRelates, 106, True), (EdgeRelatesReverse, 107, True),
     (EdgeHas, 130, False), (EdgeHasReverse, 131, False), (EdgeLinks, 132, True), (EdgeLinksReverse, 133, True),
     (EdgeLinksIndex, 140, True),
     (PropertyTypeVertex, 160, True), (PropertyTypeEdge, 162, True), (PropertyObjectVertex, 163, True),
     (IndexLabelToType, 182, False), (IndexNameToDefinitionStruct, 183, False), (IndexNameToDefinitionFunction, 184, False),
     (IndexValueToStruct, 190, False)]"

definition prefix_id :: "key_prefix \<Rightarrow> byte" where
  "prefix_id self = fst (the (map_of prefix_table self))"

definition successor_prefix_id :: "key_prefix \<Rightarrow> byte" where
  "successor_prefix_id self = prefix_id self + 1"

definition from_prefix_id :: "byte \<Rightarrow> key_prefix option" where
  "from_prefix_id byte' = map_of (map (\<lambda>(p, b, w). (b, p)) prefix_table) byte'"

definition fixed_width_keys :: "key_prefix \<Rightarrow> bool" where
  "fixed_width_keys self = snd (the (map_of prefix_table self))"

definition max_object_type_prefix :: key_prefix where
  "max_object_type_prefix =
     (if prefix_id VertexEntityType < prefix_id VertexRelationType then VertexEntityType else VertexRelationType)"

definition min_object_type_prefix :: key_prefix where
  "min_object_type_prefix =
     (if prefix_id VertexEntityType < prefix_id VertexRelationType then VertexRelationType else VertexEntityType)"

lemma from_prefix_id [simp]: "from_prefix_id (prefix_id p) = Some p"
  by (cases p) (simp_all add: from_prefix_id_def prefix_id_def prefix_table_def)

lemma prefix_id_inj [simp]: "prefix_id p = prefix_id q \<longleftrightarrow> p = q"
  by (metis from_prefix_id option.inject)

lemma prefix_id_bytes:
  "prefix_id VertexEntity = 30" "prefix_id VertexRelation = 31" "prefix_id VertexAttribute = 32" "prefix_id EdgeHas = 130"
  "prefix_id EdgeHasReverse = 131" "prefix_id EdgeLinks = 132" "prefix_id EdgeLinksReverse = 133" "prefix_id EdgeLinksIndex = 140"
  by (simp_all add: prefix_id_def prefix_table_def)

text \<open>The names are swapped: the prefix called the greatest is the least.\<close>

lemma object_type_prefixes_swapped: "prefix_id max_object_type_prefix < prefix_id min_object_type_prefix"
  by (simp add: max_object_type_prefix_def min_object_type_prefix_def prefix_id_def prefix_table_def)

datatype encoding_keyspace =
  DefaultOptimisedPrefix11 | OptimisedPrefix15 | OptimisedPrefix16 | OptimisedPrefix17 | OptimisedPrefix25

definition encoding_keyspace_iter :: "encoding_keyspace list" where
  "encoding_keyspace_iter =
    [DefaultOptimisedPrefix11, OptimisedPrefix15, OptimisedPrefix16, OptimisedPrefix17, OptimisedPrefix25]"

fun keyspace_id_of :: "encoding_keyspace \<Rightarrow> keyspace_id" where
  "keyspace_id_of DefaultOptimisedPrefix11 = 0"
| "keyspace_id_of OptimisedPrefix15 = 1"
| "keyspace_id_of OptimisedPrefix16 = 2"
| "keyspace_id_of OptimisedPrefix17 = 3"
| "keyspace_id_of OptimisedPrefix25 = 4"

fun keyspace_name :: "encoding_keyspace \<Rightarrow> string" where
  "keyspace_name DefaultOptimisedPrefix11 = ''OptimisedPrefix11''"
| "keyspace_name OptimisedPrefix15 = ''OptimisedPrefix15''"
| "keyspace_name OptimisedPrefix16 = ''OptimisedPrefix16''"
| "keyspace_name OptimisedPrefix17 = ''OptimisedPrefix17''"
| "keyspace_name OptimisedPrefix25 = ''OptimisedPrefix25''"

fun keyspace_prefix_length :: "encoding_keyspace \<Rightarrow> nat" where
  "keyspace_prefix_length DefaultOptimisedPrefix11 = 11"
| "keyspace_prefix_length OptimisedPrefix15 = 15"
| "keyspace_prefix_length OptimisedPrefix16 = 16"
| "keyspace_prefix_length OptimisedPrefix17 = 17"
| "keyspace_prefix_length OptimisedPrefix25 = 25"

lemma keyspace_id_of_inj [simp]: "keyspace_id_of a = keyspace_id_of b \<longleftrightarrow> a = b"
  by (cases a; cases b) simp_all

section \<open>Types\<close>

definition BUFFER_KEY_INLINE :: nat where "BUFFER_KEY_INLINE = 40"

type_synonym type_id = "16 word"

definition TYPE_ID_LENGTH :: nat where "TYPE_ID_LENGTH = 2"

definition type_id_to_bytes :: "type_id \<Rightarrow> bytes" where "type_id_to_bytes self = be_encode 2 (unat self)"

definition type_id_decode :: "bytes \<Rightarrow> type_id" where "type_id_decode bytes' = of_nat (be_decode bytes')"

definition type_id_increment :: "type_id \<Rightarrow> type_id option" where
  "type_id_increment self = (if unat self + 1 < 2 ^ 16 then Some (self + 1) else None)"

definition type_id_decrement :: "type_id \<Rightarrow> type_id option" where
  "type_id_decrement self = (if self = 0 then None else Some (self - 1))"

type_synonym type_vertex = "32 word"

definition TYPE_VERTEX_LENGTH :: nat where "TYPE_VERTEX_LENGTH = 1 + TYPE_ID_LENGTH"

definition type_vertex_new :: "byte \<Rightarrow> type_id \<Rightarrow> type_vertex" where
  "type_vertex_new prefix_byte type_id =
     (let prefix_part = push_bit 16 (ucast prefix_byte :: 32 word); type_part = ucast type_id :: 32 word
      in prefix_part + type_part)"

text \<open>Copying into the last three of four bytes panics for any other length.\<close>

definition type_vertex_decode :: "bytes \<Rightarrow> type_vertex option" where
  "type_vertex_decode bytes' =
     (if length bytes' = 3 then Some (of_nat (be_decode (copy_from_slice (replicate 4 0) 1 bytes'))) else None)"

definition type_vertex_to_bytes :: "type_vertex \<Rightarrow> bytes" where
  "type_vertex_to_bytes self = drop 1 (be_encode 4 (unat self))"

definition type_vertex_type_id :: "type_vertex \<Rightarrow> type_id" where
  "type_vertex_type_id self = ucast (self AND 0xFFFF)"

definition type_vertex_prefix :: "type_vertex \<Rightarrow> key_prefix option" where
  "type_vertex_prefix self = from_prefix_id (type_vertex_to_bytes self ! 0)"

lemma length_type_id [simp]: "length (type_id_to_bytes t) = 2"
  by (simp add: type_id_to_bytes_def)

lemma unat_bound16: "unat (t :: 16 word) < 256 ^ 2"
  using unsigned_less[of t, where 'a = nat] by simp

lemma type_id_roundtrip [simp]: "type_id_decode (type_id_to_bytes t) = t"
  unfolding type_id_decode_def type_id_to_bytes_def be_decode_encode_id[OF unat_bound16] by simp

lemma type_id_inj [simp]: "type_id_to_bytes t = type_id_to_bytes u \<longleftrightarrow> t = u"
  by (metis type_id_roundtrip)

lemma type_id_less [simp]: "type_id_to_bytes t < type_id_to_bytes u \<longleftrightarrow> t < u"
  unfolding type_id_to_bytes_def be_encode_less_iff[OF unat_bound16 unat_bound16] by (simp add: word_less_nat_alt)

lemma type_vertex_value: "unat (type_vertex_new p t) = unat p * 256 ^ 2 + unat t"
proof -
  define x y where xy: "x = unat p" "y = unat t"
  have b: "x < 256" "y < 65536" using unsigned_less[of p, where 'a = nat] unsigned_less[of t, where 'a = nat] by (simp_all add: xy)
  have u: "unat (ucast p :: 32 word) = x" "unat (ucast t :: 32 word) = y"
    using take_bit_nat_eq_self[of x 32] take_bit_nat_eq_self[of y 32] b by (simp_all add: unsigned_ucast_eq flip: xy)
  have "unat (type_vertex_new p t) = ((x * 65536) mod 2 ^ 32 + y) mod 2 ^ 32"
    by (simp add: type_vertex_new_def Let_def push_bit_eq_mult unat_word_ariths u)
  also have "\<dots> = x * 65536 + y" using b by simp
  finally show ?thesis by (simp add: xy)
qed

lemma type_vertex_bytes: "type_vertex_to_bytes (type_vertex_new p t) = p # type_id_to_bytes t"
proof -
  have "be_decode (0 # p # type_id_to_bytes t) = unat p * 256 ^ 2 + unat t"
    by (simp only: be_decode_Cons type_id_to_bytes_def be_decode_encode_id[OF unat_bound16]) (simp add: type_id_to_bytes_def)
  then have "be_encode 4 (unat (type_vertex_new p t)) = 0 # p # type_id_to_bytes t"
    using be_encode_decode[of "0 # p # type_id_to_bytes t" 4] by (simp add: type_vertex_value)
  then show ?thesis by (simp add: type_vertex_to_bytes_def)
qed

lemma type_vertex_decode_new: "type_vertex_decode (p # type_id_to_bytes t) = Some (type_vertex_new p t)"
proof -
  have "be_decode (0 # p # type_id_to_bytes t) = unat (type_vertex_new p t)"
    by (simp only: be_decode_Cons type_id_to_bytes_def be_decode_encode_id[OF unat_bound16] type_vertex_value) (simp add: type_id_to_bytes_def)
  then show ?thesis by (simp add: type_vertex_decode_def copy_from_slice_def)
qed

lemma type_vertex_prefix_new: "type_vertex_prefix (type_vertex_new (prefix_id p) t) = Some p"
  by (simp add: type_vertex_prefix_def type_vertex_bytes)

lemma type_vertex_type_id_new: "type_vertex_type_id (type_vertex_new p t) = t"
proof -
  have mask: "v AND 0xFFFF = take_bit 16 v" for v :: "32 word" by (simp add: take_bit_eq_mask mask_eq_exp_minus_1)
  have "unat (type_vertex_type_id (type_vertex_new p t)) = take_bit 16 (unat (type_vertex_new p t))"
    by (simp add: type_vertex_type_id_def unsigned_ucast_eq mask unsigned_take_bit_eq)
  also have "\<dots> = unat t" unfolding type_vertex_value take_bit_eq_mod using unat_bound16[of t] by simp
  finally show ?thesis by (rule unsigned_word_eqI)
qed

section \<open>Objects\<close>

record object_vertex =
  ov_prefix :: key_prefix
  ov_type_id :: type_id
  ov_object_id :: "64 word"

definition OBJECT_VERTEX_LENGTH :: nat where "OBJECT_VERTEX_LENGTH = 1 + TYPE_ID_LENGTH + 8"

definition THING_VERTEX_LENGTH_PREFIX_TYPE :: nat where "THING_VERTEX_LENGTH_PREFIX_TYPE = 1 + TYPE_ID_LENGTH"

definition object_id_to_bytes :: "64 word \<Rightarrow> bytes" where "object_id_to_bytes self = be_encode 8 (unat self)"

definition object_id_decode :: "bytes \<Rightarrow> 64 word" where "object_id_decode bytes' = of_nat (be_decode bytes')"

definition build_entity :: "type_id \<Rightarrow> 64 word \<Rightarrow> object_vertex" where
  "build_entity type_id object_id = \<lparr> ov_prefix = VertexEntity, ov_type_id = type_id, ov_object_id = object_id \<rparr>"

definition build_relation :: "type_id \<Rightarrow> 64 word \<Rightarrow> object_vertex" where
  "build_relation type_id object_id = \<lparr> ov_prefix = VertexRelation, ov_type_id = type_id, ov_object_id = object_id \<rparr>"

definition object_vertex_to_bytes :: "object_vertex \<Rightarrow> bytes" where
  "object_vertex_to_bytes self =
     (let bytes' = replicate BUFFER_KEY_INLINE 0;
          bytes' = bytes'[0 := prefix_id (ov_prefix self)];
          bytes' = copy_from_slice bytes' 1 (type_id_to_bytes (ov_type_id self));
          bytes' = copy_from_slice bytes' 3 (object_id_to_bytes (ov_object_id self))
      in take OBJECT_VERTEX_LENGTH bytes')"

definition object_vertex_decode :: "bytes \<Rightarrow> object_vertex option" where
  "object_vertex_decode bytes' =
     (if length bytes' < OBJECT_VERTEX_LENGTH then None
      else do {
        p \<leftarrow> from_prefix_id (bytes' ! 0);
        Some \<lparr> ov_prefix = p, ov_type_id = type_id_decode (slice bytes' 1 3), ov_object_id = object_id_decode (slice bytes' 3 11) \<rparr> })"

text \<open>The outer option is the panic, the inner one the result.\<close>

definition object_vertex_try_decode :: "bytes \<Rightarrow> object_vertex option option" where
  "object_vertex_try_decode bytes' =
     (if length bytes' \<noteq> OBJECT_VERTEX_LENGTH then Some None
      else if bytes' ! 0 \<noteq> prefix_id VertexEntity \<and> bytes' ! 0 \<noteq> prefix_id VertexRelation then Some None
      else map_option Some (object_vertex_decode bytes'))"

definition is_entity_vertex :: "storage_key \<Rightarrow> bool" where
  "is_entity_vertex k \<longleftrightarrow> fst k = keyspace_id_of DefaultOptimisedPrefix11 \<and> length (snd k) = OBJECT_VERTEX_LENGTH \<and>
     snd k ! 0 = prefix_id VertexEntity"

definition is_relation_vertex :: "storage_key \<Rightarrow> bool" where
  "is_relation_vertex k \<longleftrightarrow> fst k = keyspace_id_of DefaultOptimisedPrefix11 \<and> length (snd k) = OBJECT_VERTEX_LENGTH \<and>
     snd k ! 0 = prefix_id VertexRelation"

fun prefix_for_type :: "key_prefix \<Rightarrow> key_prefix option" where
  "prefix_for_type VertexEntityType = Some VertexEntity"
| "prefix_for_type VertexRelationType = Some VertexRelation"
| "prefix_for_type _ = None"

text \<open>The bytes a vertex of the given kind and type starts with.\<close>

definition write_prefix_type :: "key_prefix \<Rightarrow> type_id \<Rightarrow> bytes" where
  "write_prefix_type p type_id =
     copy_from_slice ((replicate THING_VERTEX_LENGTH_PREFIX_TYPE 0)[0 := prefix_id p]) 1 (type_id_to_bytes type_id)"

text \<open>The derived order compares prefix, type and object; prefixes are declared in the order of their bytes.\<close>

definition object_vertex_less :: "object_vertex \<Rightarrow> object_vertex \<Rightarrow> bool" where
  "object_vertex_less a b \<longleftrightarrow> prefix_id (ov_prefix a) < prefix_id (ov_prefix b) \<or> ov_prefix a = ov_prefix b \<and>
     (ov_type_id a < ov_type_id b \<or> ov_type_id a = ov_type_id b \<and> ov_object_id a < ov_object_id b)"

definition object_vertex_wf :: "object_vertex \<Rightarrow> bool" where
  "object_vertex_wf v \<longleftrightarrow> ov_prefix v = VertexEntity \<or> ov_prefix v = VertexRelation"

lemmas length_defs = TYPE_ID_LENGTH_def TYPE_VERTEX_LENGTH_def OBJECT_VERTEX_LENGTH_def THING_VERTEX_LENGTH_PREFIX_TYPE_def
  BUFFER_KEY_INLINE_def

lemma object_id_bytes: "object_id_to_bytes = encode_u64" "object_id_decode = decode_u64"
  by (simp_all add: fun_eq_iff object_id_to_bytes_def object_id_decode_def encode_u64_def decode_u64_def)

lemma object_vertex_bytes:
  "object_vertex_to_bytes v = prefix_id (ov_prefix v) # type_id_to_bytes (ov_type_id v) @ encode_u64 (ov_object_id v)"
  by (simp add: object_vertex_to_bytes_def Let_def length_defs copy_from_slice_def object_id_bytes numeral_eq_Suc)

lemma length_object_vertex [simp]: "length (object_vertex_to_bytes v) = 11"
  by (simp add: object_vertex_bytes)

lemma write_prefix_type_bytes: "write_prefix_type p t = prefix_id p # type_id_to_bytes t"
  by (simp add: write_prefix_type_def length_defs copy_from_slice_def numeral_eq_Suc)

lemma object_vertex_roundtrip [simp]: "object_vertex_decode (object_vertex_to_bytes v) = Some v"
  by (simp add: object_vertex_decode_def length_defs object_vertex_bytes slice_def object_id_bytes)

lemma object_vertex_inj [simp]: "object_vertex_to_bytes v = object_vertex_to_bytes w \<longleftrightarrow> v = w"
  by (metis object_vertex_roundtrip option.inject)

lemma object_vertex_order: "object_vertex_to_bytes v < object_vertex_to_bytes w \<longleftrightarrow> object_vertex_less v w"
  by (auto simp: object_vertex_bytes object_vertex_less_def lex_append_same_length)

section \<open>Attributes\<close>

datatype value_type_category =
  BooleanCat | IntegerCat | DoubleCat | DecimalCat | DateCat | DateTimeCat | DateTimeTZCat | DurationCat | StringCat | StructCat

definition CATEGORY_LENGTH :: nat where "CATEGORY_LENGTH = 1"

fun category_to_bytes :: "value_type_category \<Rightarrow> bytes" where
  "category_to_bytes BooleanCat = [0]"
| "category_to_bytes IntegerCat = [1]"
| "category_to_bytes DoubleCat = [2]"
| "category_to_bytes DecimalCat = [3]"
| "category_to_bytes DateCat = [4]"
| "category_to_bytes DateTimeCat = [5]"
| "category_to_bytes DateTimeTZCat = [6]"
| "category_to_bytes DurationCat = [7]"
| "category_to_bytes StringCat = [8]"
| "category_to_bytes StructCat = [40]"

definition category_from_byte :: "byte \<Rightarrow> value_type_category option" where
  "category_from_byte b =
     map_of [(0, BooleanCat), (1, IntegerCat), (2, DoubleCat), (3, DecimalCat), (4, DateCat), (5, DateTimeCat),
       (6, DateTimeTZCat), (7, DurationCat), (8, StringCat), (40, StructCat)] b"

text \<open>The classes of the encoded values, and the lengths of the identifiers, which start with the category.\<close>

fun value_type_encoded_value_length :: "value_type_category \<Rightarrow> value_encoding_length" where
  "value_type_encoded_value_length BooleanCat = Short"
| "value_type_encoded_value_length IntegerCat = Short"
| "value_type_encoded_value_length DoubleCat = Short"
| "value_type_encoded_value_length DecimalCat = Long"
| "value_type_encoded_value_length DateCat = Short"
| "value_type_encoded_value_length DateTimeCat = Long"
| "value_type_encoded_value_length DateTimeTZCat = Long"
| "value_type_encoded_value_length DurationCat = Long"
| "value_type_encoded_value_length StringCat = Long"
| "value_type_encoded_value_length StructCat = Short"

definition value_type_encoding_length :: "value_type_category \<Rightarrow> nat" where
  "value_type_encoding_length c = CATEGORY_LENGTH + encoding_length (value_type_encoded_value_length c)"

definition attribute_id_max_length :: nat where
  "attribute_id_max_length = CATEGORY_LENGTH + LONG_LENGTH"

datatype attribute_id =
    BooleanID bytes | IntegerID bytes | DoubleID bytes | DecimalID bytes | DateID bytes | DateTimeID bytes | DateTimeTZID bytes
  | DurationID bytes | StringID bytes | StructID bytes

fun attribute_id_bytes :: "attribute_id \<Rightarrow> bytes" where
  "attribute_id_bytes (BooleanID bs) = bs"
| "attribute_id_bytes (IntegerID bs) = bs"
| "attribute_id_bytes (DoubleID bs) = bs"
| "attribute_id_bytes (DecimalID bs) = bs"
| "attribute_id_bytes (DateID bs) = bs"
| "attribute_id_bytes (DateTimeID bs) = bs"
| "attribute_id_bytes (DateTimeTZID bs) = bs"
| "attribute_id_bytes (DurationID bs) = bs"
| "attribute_id_bytes (StringID bs) = bs"
| "attribute_id_bytes (StructID bs) = bs"

fun attribute_id_category :: "attribute_id \<Rightarrow> value_type_category" where
  "attribute_id_category (BooleanID _) = BooleanCat"
| "attribute_id_category (IntegerID _) = IntegerCat"
| "attribute_id_category (DoubleID _) = DoubleCat"
| "attribute_id_category (DecimalID _) = DecimalCat"
| "attribute_id_category (DateID _) = DateCat"
| "attribute_id_category (DateTimeID _) = DateTimeCat"
| "attribute_id_category (DateTimeTZID _) = DateTimeTZCat"
| "attribute_id_category (DurationID _) = DurationCat"
| "attribute_id_category (StringID _) = StringCat"
| "attribute_id_category (StructID _) = StructCat"

fun attribute_id_of :: "value_type_category \<Rightarrow> bytes \<Rightarrow> attribute_id" where
  "attribute_id_of BooleanCat bs = BooleanID bs"
| "attribute_id_of IntegerCat bs = IntegerID bs"
| "attribute_id_of DoubleCat bs = DoubleID bs"
| "attribute_id_of DecimalCat bs = DecimalID bs"
| "attribute_id_of DateCat bs = DateID bs"
| "attribute_id_of DateTimeCat bs = DateTimeID bs"
| "attribute_id_of DateTimeTZCat bs = DateTimeTZID bs"
| "attribute_id_of DurationCat bs = DurationID bs"
| "attribute_id_of StringCat bs = StringID bs"
| "attribute_id_of StructCat bs = StructID bs"

definition attribute_id_new :: "bytes \<Rightarrow> attribute_id option" where
  "attribute_id_new bs =
     (case bs of
        [] \<Rightarrow> None
      | b # _ \<Rightarrow> do {
          c \<leftarrow> category_from_byte b;
          if length bs = value_type_encoding_length c then Some (attribute_id_of c bs) else None })"

definition attribute_id_length :: "attribute_id \<Rightarrow> nat" where
  "attribute_id_length self = value_type_encoding_length (attribute_id_category self)"

text \<open>The identifier of an inline value: its category and its encoding.\<close>

definition inline_primitive_id_build :: "value_type_category \<Rightarrow> bytes \<Rightarrow> attribute_id" where
  "inline_primitive_id_build c encoded =
     (let bytes' = replicate (value_type_encoding_length c) 0;
          bytes' = copy_from_slice bytes' 0 (category_to_bytes c);
          bytes' = copy_from_slice bytes' CATEGORY_LENGTH encoded
      in attribute_id_of c bytes')"

text \<open>The value bytes of an inline identifier.\<close>

definition inline_primitive_id_read :: "attribute_id \<Rightarrow> bytes" where
  "inline_primitive_id_read self = drop CATEGORY_LENGTH (attribute_id_bytes self)"

record attribute_vertex =
  av_type_id :: type_id
  av_attribute_id :: attribute_id

definition attribute_vertex_len :: "attribute_vertex \<Rightarrow> nat" where
  "attribute_vertex_len self = 1 + TYPE_ID_LENGTH + attribute_id_length (av_attribute_id self)"

definition attribute_vertex_to_bytes :: "attribute_vertex \<Rightarrow> bytes" where
  "attribute_vertex_to_bytes self =
     (let bytes' = replicate BUFFER_KEY_INLINE 0;
          bytes' = bytes'[0 := prefix_id VertexAttribute];
          bytes' = copy_from_slice bytes' 1 (type_id_to_bytes (av_type_id self));
          bytes' = copy_from_slice bytes' 3 (attribute_id_bytes (av_attribute_id self))
      in take (attribute_vertex_len self) bytes')"

definition attribute_vertex_decode :: "bytes \<Rightarrow> attribute_vertex option" where
  "attribute_vertex_decode bytes' =
     (if length bytes' < 3 then None
      else do {
        attribute_id \<leftarrow> attribute_id_new (drop 3 bytes');
        Some \<lparr> av_type_id = type_id_decode (slice bytes' 1 3), av_attribute_id = attribute_id \<rparr> })"

definition is_attribute_bytes :: "bytes \<Rightarrow> bool" where
  "is_attribute_bytes bs \<longleftrightarrow> bs \<noteq> [] \<and> bs ! 0 = prefix_id VertexAttribute"

definition attribute_vertex_try_decode :: "bytes \<Rightarrow> attribute_vertex option option" where
  "attribute_vertex_try_decode bs =
     (if \<not> is_attribute_bytes bs then Some None else map_option Some (attribute_vertex_decode bs))"

definition is_category_short_encoding :: "value_type_category \<Rightarrow> bool" where
  "is_category_short_encoding c \<longleftrightarrow> value_type_encoded_value_length c = Short"

definition is_short_encoding :: "attribute_vertex \<Rightarrow> bool" where
  "is_short_encoding self \<longleftrightarrow> is_category_short_encoding (attribute_id_category (av_attribute_id self))"

definition attribute_keyspace_for_is_short :: "bool \<Rightarrow> encoding_keyspace" where
  "attribute_keyspace_for_is_short is_short = (if is_short then DefaultOptimisedPrefix11 else OptimisedPrefix17)"

definition attribute_keyspace :: "attribute_vertex \<Rightarrow> encoding_keyspace" where
  "attribute_keyspace self = attribute_keyspace_for_is_short (is_short_encoding self)"

definition is_valid_keyspace :: "keyspace_id \<Rightarrow> bool" where
  "is_valid_keyspace k \<longleftrightarrow> k = keyspace_id_of DefaultOptimisedPrefix11 \<or> k = keyspace_id_of OptimisedPrefix17"

definition is_attribute_vertex :: "storage_key \<Rightarrow> bool" where
  "is_attribute_vertex k \<longleftrightarrow> is_valid_keyspace (fst k) \<and> is_attribute_bytes (snd k)"

text \<open>An identifier as the constructors make it: it starts with its category and has the length of its category.\<close>

definition attribute_id_wf :: "attribute_id \<Rightarrow> bool" where
  "attribute_id_wf a \<longleftrightarrow> length (attribute_id_bytes a) = attribute_id_length a \<and>
     take 1 (attribute_id_bytes a) = category_to_bytes (attribute_id_category a)"

definition attribute_vertex_wf :: "attribute_vertex \<Rightarrow> bool" where
  "attribute_vertex_wf v \<longleftrightarrow> attribute_id_wf (av_attribute_id v)"

lemma category_byte: "\<exists>b. category_to_bytes c = [b] \<and> category_from_byte b = Some c"
  by (cases c) (simp_all add: category_from_byte_def)

lemma category_to_bytes_inj [simp]: "category_to_bytes c = category_to_bytes d \<longleftrightarrow> c = d"
  using category_byte[of c] category_byte[of d] by fastforce

lemma attribute_id_of [simp]:
  "attribute_id_bytes (attribute_id_of c bs) = bs" "attribute_id_category (attribute_id_of c bs) = c"
  "attribute_id_of (attribute_id_category a) (attribute_id_bytes a) = a"
proof -
  show "attribute_id_bytes (attribute_id_of c bs) = bs" "attribute_id_category (attribute_id_of c bs) = c" by (cases c; simp)+
  show "attribute_id_of (attribute_id_category a) (attribute_id_bytes a) = a" by (cases a) simp_all
qed

lemma encoding_lengths: "value_type_encoding_length c = (if is_category_short_encoding c then 9 else 18)"
  by (cases c) (simp_all add: value_type_encoding_length_def is_category_short_encoding_def CATEGORY_LENGTH_def
      SHORT_LENGTH_def LONG_LENGTH_def)

lemma attribute_id_roundtrip:
  assumes "attribute_id_wf a"
  shows "attribute_id_new (attribute_id_bytes a) = Some a"
proof -
  obtain b where b: "category_to_bytes (attribute_id_category a) = [b]" "category_from_byte b = Some (attribute_id_category a)"
    using category_byte by blast
  then obtain bs where "attribute_id_bytes a = b # bs"
    using assms by (cases "attribute_id_bytes a") (auto simp: attribute_id_wf_def)
  then show ?thesis
    using assms b(2) attribute_id_of(3)[of a] by (simp add: attribute_id_new_def attribute_id_wf_def attribute_id_length_def)
qed

lemma attribute_id_new_wf: "attribute_id_new bs = Some a \<Longrightarrow> attribute_id_wf a \<and> attribute_id_bytes a = bs"
proof -
  assume "attribute_id_new bs = Some a"
  then obtain b cs c where c: "bs = b # cs" "category_from_byte b = Some c" "length bs = value_type_encoding_length c"
    "a = attribute_id_of c bs"
    by (auto simp: attribute_id_new_def bind_eq_Some_conv split: list.splits if_splits)
  then have "category_to_bytes c = [b]" by (auto simp: category_from_byte_def split: if_splits)
  then show ?thesis using c by (simp add: attribute_id_wf_def attribute_id_length_def)
qed

lemma attribute_id_inj:
  "attribute_id_wf a \<Longrightarrow> attribute_id_wf b \<Longrightarrow> attribute_id_bytes a = attribute_id_bytes b \<longleftrightarrow> a = b"
  by (metis attribute_id_roundtrip option.inject)

lemma inline_primitive_id:
  assumes "length encoded = encoding_length (value_type_encoded_value_length c)"
  shows "attribute_id_wf (inline_primitive_id_build c encoded)" "inline_primitive_id_read (inline_primitive_id_build c encoded) = encoded"
proof -
  obtain b where b: "category_to_bytes c = [b]" using category_byte by blast
  have "inline_primitive_id_build c encoded = attribute_id_of c (b # encoded)"
    using assms b by (simp add: inline_primitive_id_build_def Let_def copy_from_slice_def CATEGORY_LENGTH_def value_type_encoding_length_def)
  then show "attribute_id_wf (inline_primitive_id_build c encoded)" "inline_primitive_id_read (inline_primitive_id_build c encoded) = encoded"
    using assms b by (simp_all add: attribute_id_wf_def attribute_id_length_def value_type_encoding_length_def CATEGORY_LENGTH_def
        inline_primitive_id_read_def)
qed

lemma attribute_vertex_bytes:
  assumes "attribute_vertex_wf v"
  shows "attribute_vertex_to_bytes v =
    prefix_id VertexAttribute # type_id_to_bytes (av_type_id v) @ attribute_id_bytes (av_attribute_id v)"
  using assms by (simp add: attribute_vertex_to_bytes_def Let_def attribute_vertex_len_def length_defs copy_from_slice_def
      attribute_vertex_wf_def attribute_id_wf_def numeral_eq_Suc)

lemma length_attribute_vertex [simp]:
  "attribute_vertex_wf v \<Longrightarrow> length (attribute_vertex_to_bytes v) = attribute_vertex_len v"
  by (simp add: attribute_vertex_bytes attribute_vertex_len_def length_defs attribute_vertex_wf_def attribute_id_wf_def)

lemma attribute_vertex_len: "attribute_vertex_len v = (if is_short_encoding v then 12 else 21)"
  by (simp add: attribute_vertex_len_def attribute_id_length_def encoding_lengths is_short_encoding_def length_defs)

lemma attribute_vertex_roundtrip [simp]:
  "attribute_vertex_wf v \<Longrightarrow> attribute_vertex_decode (attribute_vertex_to_bytes v) = Some v"
  by (simp add: attribute_vertex_decode_def attribute_vertex_bytes slice_def attribute_vertex_wf_def attribute_id_roundtrip)

lemma attribute_vertex_inj:
  "attribute_vertex_wf v \<Longrightarrow> attribute_vertex_wf w \<Longrightarrow> attribute_vertex_to_bytes v = attribute_vertex_to_bytes w \<longleftrightarrow> v = w"
  by (metis attribute_vertex_roundtrip option.inject)

end
