(* ===== verification/GraphEdges.thy ===== *)
theory GraphEdges
  imports GraphKeys
begin

text \<open>
  The keys of the edges between things (\<^verbatim>\<open>src/encoding/graph/thing/edge.rs\<close>): ownership of an attribute in both
  directions, the players of a relation in both directions, and the index of pairs of players.  The theorems show that
  decoding inverts encoding, that a key prefix selects exactly the edges it is built for, and that no key of a thing is
  a proper prefix of another key in the same keyspace, which is what the multi-version storage assumes of its keys.
\<close>

section \<open>Has\<close>

record thing_edge_has =
  has_owner :: object_vertex
  has_attribute :: attribute_vertex

definition HAS_LENGTH_PREFIX_FROM_TYPE :: nat where
  "HAS_LENGTH_PREFIX_FROM_TYPE = 1 + THING_VERTEX_LENGTH_PREFIX_TYPE"

definition HAS_LENGTH_PREFIX_FROM_OBJECT :: nat where
  "HAS_LENGTH_PREFIX_FROM_OBJECT = 1 + OBJECT_VERTEX_LENGTH"

definition HAS_LENGTH_PREFIX_FROM_OBJECT_TO_TYPE :: nat where
  "HAS_LENGTH_PREFIX_FROM_OBJECT_TO_TYPE = 1 + OBJECT_VERTEX_LENGTH + THING_VERTEX_LENGTH_PREFIX_TYPE"

definition has_to_bytes :: "thing_edge_has \<Rightarrow> bytes" where
  "has_to_bytes self =
     (let bytes' = replicate (HAS_LENGTH_PREFIX_FROM_OBJECT + attribute_vertex_len (has_attribute self)) 0;
          bytes' = bytes'[0 := prefix_id EdgeHas];
          bytes' = copy_from_slice bytes' 1 (object_vertex_to_bytes (has_owner self))
      in copy_from_slice bytes' HAS_LENGTH_PREFIX_FROM_OBJECT (attribute_vertex_to_bytes (has_attribute self)))"

definition has_decode :: "bytes \<Rightarrow> thing_edge_has option" where
  "has_decode bytes' =
     (if length bytes' < HAS_LENGTH_PREFIX_FROM_OBJECT then None
      else do {
        owner \<leftarrow> object_vertex_decode (slice bytes' 1 HAS_LENGTH_PREFIX_FROM_OBJECT);
        attribute \<leftarrow> attribute_vertex_decode (drop HAS_LENGTH_PREFIX_FROM_OBJECT bytes');
        Some \<lparr> has_owner = owner, has_attribute = attribute \<rparr> })"

definition has_keyspace :: encoding_keyspace where "has_keyspace = OptimisedPrefix15"

definition has_prefix_from_type_parts :: "key_prefix \<Rightarrow> type_id \<Rightarrow> bytes option" where
  "has_prefix_from_type_parts type_prefix type_id = do {
     p \<leftarrow> prefix_for_type type_prefix;
     let bytes' = (replicate HAS_LENGTH_PREFIX_FROM_TYPE 0)[0 := prefix_id EdgeHas];
     Some (copy_from_slice bytes' 1 (write_prefix_type p type_id)) }"

definition has_prefix_from_type :: "type_vertex \<Rightarrow> bytes option" where
  "has_prefix_from_type type_vertex = do {
     type_prefix \<leftarrow> type_vertex_prefix type_vertex;
     p \<leftarrow> prefix_for_type type_prefix;
     let bytes' = (replicate HAS_LENGTH_PREFIX_FROM_TYPE 0)[0 := prefix_id EdgeHas];
     Some (copy_from_slice bytes' 1 (write_prefix_type p (type_vertex_type_id type_vertex))) }"

definition has_prefix_from_object :: "object_vertex \<Rightarrow> bytes" where
  "has_prefix_from_object from =
     copy_from_slice ((replicate HAS_LENGTH_PREFIX_FROM_OBJECT 0)[0 := prefix_id EdgeHas]) 1 (object_vertex_to_bytes from)"

definition has_prefix_from_object_to_type :: "object_vertex \<Rightarrow> type_id \<Rightarrow> bytes" where
  "has_prefix_from_object_to_type from to_type_id =
     (let bytes' = (replicate HAS_LENGTH_PREFIX_FROM_OBJECT_TO_TYPE 0)[0 := prefix_id EdgeHas];
          bytes' = copy_from_slice bytes' 1 (object_vertex_to_bytes from)
      in copy_from_slice bytes' HAS_LENGTH_PREFIX_FROM_OBJECT (write_prefix_type VertexAttribute to_type_id))"

definition has_prefix_with_attribute_prefix :: "object_vertex \<Rightarrow> bytes \<Rightarrow> bytes" where
  "has_prefix_with_attribute_prefix from attribute_vertex_prefix =
     (let bytes' = (replicate (HAS_LENGTH_PREFIX_FROM_OBJECT_TO_TYPE + length attribute_vertex_prefix) 0)[0 := prefix_id EdgeHas];
          bytes' = copy_from_slice bytes' 1 (object_vertex_to_bytes from);
          bytes' = copy_from_slice bytes' HAS_LENGTH_PREFIX_FROM_OBJECT attribute_vertex_prefix
      in take (HAS_LENGTH_PREFIX_FROM_OBJECT + length attribute_vertex_prefix) bytes')"

definition has_prefix_all :: bytes where "has_prefix_all = [prefix_id EdgeHas]"

definition is_has :: "storage_key \<Rightarrow> bool" where
  "is_has k \<longleftrightarrow> fst k = keyspace_id_of has_keyspace \<and> snd k \<noteq> [] \<and> snd k ! 0 = prefix_id EdgeHas"

section \<open>Has, reversed\<close>

record thing_edge_has_reverse =
  hasr_attribute :: attribute_vertex
  hasr_owner :: object_vertex

definition HASR_LENGTH_PREFIX_FROM_PREFIX :: nat where "HASR_LENGTH_PREFIX_FROM_PREFIX = 1 + 1"

definition HASR_LENGTH_PREFIX_FROM_TYPE :: nat where
  "HASR_LENGTH_PREFIX_FROM_TYPE = 1 + THING_VERTEX_LENGTH_PREFIX_TYPE"

definition HASR_LENGTH_BOUND_PREFIX_FROM :: nat where
  "HASR_LENGTH_BOUND_PREFIX_FROM = 1 + THING_VERTEX_LENGTH_PREFIX_TYPE + attribute_id_max_length"

definition HASR_LENGTH_BOUND_PREFIX_FROM_TO_TYPE :: nat where
  "HASR_LENGTH_BOUND_PREFIX_FROM_TO_TYPE =
     1 + THING_VERTEX_LENGTH_PREFIX_TYPE + attribute_id_max_length + THING_VERTEX_LENGTH_PREFIX_TYPE"

definition hasr_keyspace_for_is_short :: "bool \<Rightarrow> encoding_keyspace" where
  "hasr_keyspace_for_is_short is_short_attribute = (if is_short_attribute then OptimisedPrefix16 else OptimisedPrefix25)"

definition hasr_keyspace :: "thing_edge_has_reverse \<Rightarrow> encoding_keyspace" where
  "hasr_keyspace self = hasr_keyspace_for_is_short (is_short_encoding (hasr_attribute self))"

definition hasr_to_bytes :: "thing_edge_has_reverse \<Rightarrow> bytes" where
  "hasr_to_bytes self =
     (let bytes' = replicate (1 + attribute_vertex_len (hasr_attribute self) + OBJECT_VERTEX_LENGTH) 0;
          bytes' = bytes'[0 := prefix_id EdgeHasReverse];
          bytes' = copy_from_slice bytes' 1 (attribute_vertex_to_bytes (hasr_attribute self))
      in copy_from_slice bytes' (1 + attribute_vertex_len (hasr_attribute self)) (object_vertex_to_bytes (hasr_owner self)))"

text \<open>The byte after prefix, vertex prefix and type is the category, which gives the length of the attribute.\<close>

definition hasr_decode :: "bytes \<Rightarrow> thing_edge_has_reverse option" where
  "hasr_decode bytes' =
     (if length bytes' \<le> HASR_LENGTH_PREFIX_FROM_TYPE then None
      else do {
        c \<leftarrow> category_from_byte (bytes' ! HASR_LENGTH_PREFIX_FROM_TYPE);
        let attribute_len = 3 + value_type_encoding_length c;
        if length bytes' < attribute_len + 1 then None
        else do {
          attribute \<leftarrow> attribute_vertex_decode (slice bytes' 1 (attribute_len + 1));
          owner \<leftarrow> object_vertex_decode (drop (attribute_len + 1) bytes');
          Some \<lparr> hasr_attribute = attribute, hasr_owner = owner \<rparr> } })"

definition hasr_prefix_from_prefix :: "key_prefix \<Rightarrow> bytes" where
  "hasr_prefix_from_prefix from_prefix =
     copy_from_slice ((replicate HASR_LENGTH_PREFIX_FROM_PREFIX 0)[0 := prefix_id EdgeHasReverse]) 1 [prefix_id from_prefix]"

definition hasr_prefix_from_prefix_short :: "key_prefix \<Rightarrow> storage_key" where
  "hasr_prefix_from_prefix_short from_prefix = (keyspace_id_of (hasr_keyspace_for_is_short True), hasr_prefix_from_prefix from_prefix)"

definition hasr_prefix_from_prefix_long :: "key_prefix \<Rightarrow> storage_key" where
  "hasr_prefix_from_prefix_long from_prefix = (keyspace_id_of (hasr_keyspace_for_is_short False), hasr_prefix_from_prefix from_prefix)"

definition hasr_prefix_from_attribute_type :: "value_type_category \<Rightarrow> type_id \<Rightarrow> storage_key" where
  "hasr_prefix_from_attribute_type cat from_type_id =
     (let bytes' = (replicate HASR_LENGTH_PREFIX_FROM_TYPE 0)[0 := prefix_id EdgeHasReverse];
          bytes' = copy_from_slice bytes' 1 [prefix_id VertexAttribute];
          bytes' = copy_from_slice bytes' 2 (type_id_to_bytes from_type_id)
      in (keyspace_id_of (hasr_keyspace_for_is_short (is_category_short_encoding cat)), bytes'))"

definition hasr_prefix_from_attribute_vertex_prefix :: "value_type_category \<Rightarrow> bytes \<Rightarrow> storage_key" where
  "hasr_prefix_from_attribute_vertex_prefix cat attribute_vertex_prefix =
     (let bytes' = (replicate (1 + length attribute_vertex_prefix) 0)[0 := prefix_id EdgeHasReverse];
          bytes' = copy_from_slice bytes' 1 attribute_vertex_prefix
      in (keyspace_id_of (hasr_keyspace_for_is_short (is_category_short_encoding cat)), bytes'))"

definition hasr_prefix_from_attribute :: "attribute_vertex \<Rightarrow> storage_key" where
  "hasr_prefix_from_attribute from =
     (let bytes' = (replicate HASR_LENGTH_BOUND_PREFIX_FROM 0)[0 := prefix_id EdgeHasReverse];
          bytes' = copy_from_slice bytes' 1 (attribute_vertex_to_bytes from);
          bytes' = take (1 + attribute_vertex_len from) bytes'
      in (keyspace_id_of (hasr_keyspace_for_is_short (is_short_encoding from)), bytes'))"

definition hasr_prefix_from_attribute_to_type_parts :: "attribute_vertex \<Rightarrow> key_prefix \<Rightarrow> type_id \<Rightarrow> storage_key option" where
  "hasr_prefix_from_attribute_to_type_parts from to_type_prefix to_type_id = do {
     p \<leftarrow> prefix_for_type to_type_prefix;
     let bytes' = (replicate HASR_LENGTH_BOUND_PREFIX_FROM_TO_TYPE 0)[0 := prefix_id EdgeHasReverse];
     let bytes' = copy_from_slice bytes' 1 (attribute_vertex_to_bytes from);
     let range_from_end = 1 + attribute_vertex_len from;
     let bytes' = copy_from_slice bytes' range_from_end (write_prefix_type p to_type_id);
     let bytes' = take (range_from_end + TYPE_VERTEX_LENGTH) bytes';
     Some (keyspace_id_of (hasr_keyspace_for_is_short (is_short_encoding from)), bytes') }"

text \<open>Decoding may panic on a key that starts with the prefix and is not such an edge.\<close>

definition is_has_reverse :: "storage_key \<Rightarrow> bool option" where
  "is_has_reverse k =
     (if snd k \<noteq> [] \<and> snd k ! 0 = prefix_id EdgeHasReverse
      then do { edge \<leftarrow> hasr_decode (snd k); Some (keyspace_id_of (hasr_keyspace edge) = fst k) }
      else Some False)"

section \<open>Links\<close>

record thing_edge_links =
  lk_relation :: object_vertex
  lk_player :: object_vertex
  lk_role_id :: type_id
  lk_is_reverse :: bool

definition LINKS_LENGTH :: nat where "LINKS_LENGTH = 1 + 2 * OBJECT_VERTEX_LENGTH + TYPE_ID_LENGTH"

definition LINKS_LENGTH_PREFIX_FROM_TYPE :: nat where
  "LINKS_LENGTH_PREFIX_FROM_TYPE = 1 + THING_VERTEX_LENGTH_PREFIX_TYPE"

definition LINKS_LENGTH_PREFIX_FROM :: nat where "LINKS_LENGTH_PREFIX_FROM = 1 + OBJECT_VERTEX_LENGTH"

definition LINKS_LENGTH_PREFIX_FROM_TO_TYPE :: nat where
  "LINKS_LENGTH_PREFIX_FROM_TO_TYPE = 1 + OBJECT_VERTEX_LENGTH + THING_VERTEX_LENGTH_PREFIX_TYPE"

definition LINKS_LENGTH_PREFIX_FROM_TO :: nat where
  "LINKS_LENGTH_PREFIX_FROM_TO = 1 + OBJECT_VERTEX_LENGTH + OBJECT_VERTEX_LENGTH"

definition links_new :: "object_vertex \<Rightarrow> object_vertex \<Rightarrow> type_vertex \<Rightarrow> thing_edge_links" where
  "links_new relation player role =
     \<lparr> lk_relation = relation, lk_player = player, lk_role_id = type_vertex_type_id role, lk_is_reverse = False \<rparr>"

definition links_new_reverse :: "object_vertex \<Rightarrow> object_vertex \<Rightarrow> type_vertex \<Rightarrow> thing_edge_links" where
  "links_new_reverse player relation role =
     \<lparr> lk_relation = relation, lk_player = player, lk_role_id = type_vertex_type_id role, lk_is_reverse = True \<rparr>"

definition links_to_bytes :: "thing_edge_links \<Rightarrow> bytes" where
  "links_to_bytes self =
     (let bytes' = replicate LINKS_LENGTH 0;
          bytes' =
            (if lk_is_reverse self
             then copy_from_slice (copy_from_slice (bytes'[0 := prefix_id EdgeLinksReverse]) 1 (object_vertex_to_bytes (lk_player self)))
                    12 (object_vertex_to_bytes (lk_relation self))
             else copy_from_slice (copy_from_slice (bytes'[0 := prefix_id EdgeLinks]) 1 (object_vertex_to_bytes (lk_relation self)))
                    12 (object_vertex_to_bytes (lk_player self)))
      in copy_from_slice bytes' 23 (type_id_to_bytes (lk_role_id self)))"

definition links_decode :: "bytes \<Rightarrow> thing_edge_links option" where
  "links_decode bytes' =
     (if length bytes' < LINKS_LENGTH then None
      else do {
        p \<leftarrow> from_prefix_id (bytes' ! 0);
        from \<leftarrow> object_vertex_decode (slice bytes' 1 12);
        to \<leftarrow> object_vertex_decode (slice bytes' 12 23);
        let role_id = type_id_decode (slice bytes' 23 25);
        if p = EdgeLinks then Some \<lparr> lk_relation = from, lk_player = to, lk_role_id = role_id, lk_is_reverse = False \<rparr>
        else if p = EdgeLinksReverse then Some \<lparr> lk_relation = to, lk_player = from, lk_role_id = role_id, lk_is_reverse = True \<rparr>
        else None })"

definition links_keyspace :: encoding_keyspace where "links_keyspace = OptimisedPrefix15"

definition links_prefix_from_relation_type :: "type_id \<Rightarrow> bytes option" where
  "links_prefix_from_relation_type relation_type_id = do {
     p \<leftarrow> prefix_for_type VertexRelationType;
     let bytes' = (replicate LINKS_LENGTH_PREFIX_FROM_TYPE 0)[0 := prefix_id EdgeLinks];
     Some (copy_from_slice bytes' 1 (write_prefix_type p relation_type_id)) }"

definition links_prefix_from_relation :: "object_vertex \<Rightarrow> bytes" where
  "links_prefix_from_relation relation =
     copy_from_slice ((replicate LINKS_LENGTH_PREFIX_FROM 0)[0 := prefix_id EdgeLinks]) 1 (object_vertex_to_bytes relation)"

definition links_prefix_from_relation_player_type_parts :: "object_vertex \<Rightarrow> key_prefix \<Rightarrow> type_id \<Rightarrow> bytes option" where
  "links_prefix_from_relation_player_type_parts relation player_type_prefix player_type_id = do {
     p \<leftarrow> prefix_for_type player_type_prefix;
     let bytes' = (replicate LINKS_LENGTH_PREFIX_FROM_TO_TYPE 0)[0 := prefix_id EdgeLinks];
     let bytes' = copy_from_slice bytes' 1 (object_vertex_to_bytes relation);
     Some (copy_from_slice bytes' LINKS_LENGTH_PREFIX_FROM (write_prefix_type p player_type_id)) }"

definition links_prefix_from_relation_player_type :: "object_vertex \<Rightarrow> type_vertex \<Rightarrow> bytes option" where
  "links_prefix_from_relation_player_type relation player_type = do {
     p \<leftarrow> type_vertex_prefix player_type;
     links_prefix_from_relation_player_type_parts relation p (type_vertex_type_id player_type) }"

definition links_prefix_from_relation_player :: "object_vertex \<Rightarrow> object_vertex \<Rightarrow> bytes" where
  "links_prefix_from_relation_player relation player =
     (let bytes' = (replicate LINKS_LENGTH_PREFIX_FROM_TO 0)[0 := prefix_id EdgeLinks];
          bytes' = copy_from_slice bytes' 1 (object_vertex_to_bytes relation)
      in copy_from_slice bytes' 12 (object_vertex_to_bytes player))"

definition links_prefix_reverse_from_player :: "object_vertex \<Rightarrow> bytes" where
  "links_prefix_reverse_from_player player =
     copy_from_slice ((replicate LINKS_LENGTH_PREFIX_FROM 0)[0 := prefix_id EdgeLinksReverse]) 1 (object_vertex_to_bytes player)"

definition links_prefix_reverse_from_player_type :: "key_prefix \<Rightarrow> type_id \<Rightarrow> bytes option" where
  "links_prefix_reverse_from_player_type player_type_prefix player_type_id = do {
     p \<leftarrow> prefix_for_type player_type_prefix;
     let bytes' = (replicate LINKS_LENGTH_PREFIX_FROM_TYPE 0)[0 := prefix_id EdgeLinksReverse];
     Some (copy_from_slice bytes' 1 (write_prefix_type p player_type_id)) }"

definition links_prefix_reverse_from_player_relation_type :: "object_vertex \<Rightarrow> type_id \<Rightarrow> bytes option" where
  "links_prefix_reverse_from_player_relation_type player relation_type_id = do {
     p \<leftarrow> prefix_for_type VertexRelationType;
     let bytes' = (replicate LINKS_LENGTH_PREFIX_FROM_TO_TYPE 0)[0 := prefix_id EdgeLinksReverse];
     let bytes' = copy_from_slice bytes' 1 (object_vertex_to_bytes player);
     Some (copy_from_slice bytes' LINKS_LENGTH_PREFIX_FROM (write_prefix_type p relation_type_id)) }"

definition links_prefix_reverse_from_player_relation :: "object_vertex \<Rightarrow> object_vertex \<Rightarrow> bytes" where
  "links_prefix_reverse_from_player_relation player relation =
     (let bytes' = (replicate LINKS_LENGTH_PREFIX_FROM_TO 0)[0 := prefix_id EdgeLinksReverse];
          bytes' = copy_from_slice bytes' 1 (object_vertex_to_bytes player)
      in copy_from_slice bytes' 12 (object_vertex_to_bytes relation))"

definition links_prefix_all :: bytes where "links_prefix_all = [prefix_id EdgeLinks]"

definition links_prefix_reverse_all :: bytes where "links_prefix_reverse_all = [prefix_id EdgeLinksReverse]"

definition is_links :: "storage_key \<Rightarrow> bool" where
  "is_links k \<longleftrightarrow> fst k = keyspace_id_of links_keyspace \<and> length (snd k) = LINKS_LENGTH \<and> snd k ! 0 = prefix_id EdgeLinks"

definition is_links_reverse :: "storage_key \<Rightarrow> bool" where
  "is_links_reverse k \<longleftrightarrow>
     fst k = keyspace_id_of links_keyspace \<and> length (snd k) = LINKS_LENGTH \<and> snd k ! 0 = prefix_id EdgeLinksReverse"

definition lk_from :: "thing_edge_links \<Rightarrow> object_vertex" where
  "lk_from self = (if lk_is_reverse self then lk_player self else lk_relation self)"

definition lk_to :: "thing_edge_links \<Rightarrow> object_vertex" where
  "lk_to self = (if lk_is_reverse self then lk_relation self else lk_player self)"

text \<open>\<^verbatim>\<open>Ord for ThingEdgeLinks\<close>, as its strict part; \<^verbatim>\<open>other.is_reverse.cmp(&self.is_reverse)\<close> puts the reversed edge first.\<close>

definition links_less :: "thing_edge_links \<Rightarrow> thing_edge_links \<Rightarrow> bool" where
  "links_less self other =
     (if lk_is_reverse self \<noteq> lk_is_reverse other then \<not> lk_is_reverse other \<and> lk_is_reverse self
      else object_vertex_less (lk_from self) (lk_from other) \<or> lk_from self = lk_from other \<and>
        (object_vertex_less (lk_to self) (lk_to other) \<or> lk_to self = lk_to other \<and> lk_role_id self < lk_role_id other))"

section \<open>The index of players\<close>

record thing_edge_indexed_relation =
  ix_player_from :: object_vertex
  ix_player_to :: object_vertex
  ix_relation_type_id :: type_id
  ix_relation_id :: "64 word"
  ix_role_id_from :: type_id
  ix_role_id_to :: type_id

definition INDEXED_LENGTH :: nat where "INDEXED_LENGTH = 37"

definition indexed_new :: "object_vertex \<Rightarrow> object_vertex \<Rightarrow> object_vertex \<Rightarrow> type_id \<Rightarrow> type_id \<Rightarrow> thing_edge_indexed_relation" where
  "indexed_new player_from player_to relation role_id_from role_id_to =
     \<lparr> ix_player_from = player_from, ix_player_to = player_to, ix_relation_type_id = ov_type_id relation,
       ix_relation_id = ov_object_id relation, ix_role_id_from = role_id_from, ix_role_id_to = role_id_to \<rparr>"

definition indexed_into_reverse :: "thing_edge_indexed_relation \<Rightarrow> thing_edge_indexed_relation" where
  "indexed_into_reverse self =
     \<lparr> ix_player_from = ix_player_to self, ix_player_to = ix_player_from self, ix_relation_type_id = ix_relation_type_id self,
       ix_relation_id = ix_relation_id self, ix_role_id_from = ix_role_id_to self, ix_role_id_to = ix_role_id_from self \<rparr>"

definition indexed_to_bytes :: "thing_edge_indexed_relation \<Rightarrow> bytes" where
  "indexed_to_bytes self =
     (let bytes' = (replicate INDEXED_LENGTH 0)[0 := prefix_id EdgeLinksIndex];
          bytes' = copy_from_slice bytes' 1 (type_id_to_bytes (ix_relation_type_id self));
          bytes' = copy_from_slice bytes' 3 (object_vertex_to_bytes (ix_player_from self));
          bytes' = copy_from_slice bytes' 14 (object_vertex_to_bytes (ix_player_to self));
          bytes' = copy_from_slice bytes' 25 (object_id_to_bytes (ix_relation_id self));
          bytes' = copy_from_slice bytes' 33 (type_id_to_bytes (ix_role_id_from self))
      in copy_from_slice bytes' 35 (type_id_to_bytes (ix_role_id_to self)))"

definition indexed_decode :: "bytes \<Rightarrow> thing_edge_indexed_relation option" where
  "indexed_decode bytes' =
     (if length bytes' < INDEXED_LENGTH then None
      else do {
        player_from \<leftarrow> object_vertex_decode (slice bytes' 3 14);
        player_to \<leftarrow> object_vertex_decode (slice bytes' 14 25);
        Some \<lparr> ix_player_from = player_from, ix_player_to = player_to, ix_relation_type_id = type_id_decode (slice bytes' 1 3),
               ix_relation_id = object_id_decode (slice bytes' 25 33), ix_role_id_from = type_id_decode (slice bytes' 33 35),
               ix_role_id_to = type_id_decode (slice bytes' 35 37) \<rparr> })"

definition indexed_keyspace :: encoding_keyspace where "indexed_keyspace = OptimisedPrefix17"

definition indexed_prefix_relation_type :: "type_id \<Rightarrow> bytes" where
  "indexed_prefix_relation_type relation_id =
     copy_from_slice ((replicate 3 0)[0 := prefix_id EdgeLinksIndex]) 1 (type_id_to_bytes relation_id)"

definition indexed_prefix_relation_type_start_type :: "type_id \<Rightarrow> type_vertex \<Rightarrow> bytes option" where
  "indexed_prefix_relation_type_start_type relation_id start_instance_type = do {
     let bytes' = (replicate 6 0)[0 := prefix_id EdgeLinksIndex];
     let bytes' = copy_from_slice bytes' 1 (type_id_to_bytes relation_id);
     type_prefix \<leftarrow> type_vertex_prefix start_instance_type;
     start_type_prefix \<leftarrow> prefix_for_type type_prefix;
     Some (copy_from_slice bytes' 3 (write_prefix_type start_type_prefix (type_vertex_type_id start_instance_type))) }"

definition indexed_prefix_start :: "type_id \<Rightarrow> object_vertex \<Rightarrow> bytes" where
  "indexed_prefix_start relation_id start =
     (let bytes' = (replicate 14 0)[0 := prefix_id EdgeLinksIndex];
          bytes' = copy_from_slice bytes' 1 (type_id_to_bytes relation_id)
      in copy_from_slice bytes' 3 (object_vertex_to_bytes start))"

definition indexed_prefix_start_end :: "type_id \<Rightarrow> object_vertex \<Rightarrow> object_vertex \<Rightarrow> bytes" where
  "indexed_prefix_start_end relation_id start stop =
     (let bytes' = (replicate 25 0)[0 := prefix_id EdgeLinksIndex];
          bytes' = copy_from_slice bytes' 1 (type_id_to_bytes relation_id);
          bytes' = copy_from_slice bytes' 3 (object_vertex_to_bytes start)
      in copy_from_slice bytes' 14 (object_vertex_to_bytes stop))"

definition indexed_prefix_start_end_relation :: "object_vertex \<Rightarrow> object_vertex \<Rightarrow> object_vertex \<Rightarrow> bytes" where
  "indexed_prefix_start_end_relation start stop relation =
     (let bytes' = (replicate 33 0)[0 := prefix_id EdgeLinksIndex];
          bytes' = copy_from_slice bytes' 1 (type_id_to_bytes (ov_type_id relation));
          bytes' = copy_from_slice bytes' 3 (object_vertex_to_bytes start);
          bytes' = copy_from_slice bytes' 14 (object_vertex_to_bytes stop)
      in copy_from_slice bytes' 25 (object_id_to_bytes (ov_object_id relation)))"

definition indexed_prefix_start_end_relation_startrole ::
    "object_vertex \<Rightarrow> object_vertex \<Rightarrow> object_vertex \<Rightarrow> type_vertex \<Rightarrow> bytes" where
  "indexed_prefix_start_end_relation_startrole start stop relation start_role =
     (let bytes' = (replicate 35 0)[0 := prefix_id EdgeLinksIndex];
          bytes' = copy_from_slice bytes' 1 (type_id_to_bytes (ov_type_id relation));
          bytes' = copy_from_slice bytes' 3 (object_vertex_to_bytes start);
          bytes' = copy_from_slice bytes' 14 (object_vertex_to_bytes stop);
          bytes' = copy_from_slice bytes' 25 (object_id_to_bytes (ov_object_id relation))
      in copy_from_slice bytes' 33 (type_id_to_bytes (type_vertex_type_id start_role)))"

definition is_index :: "storage_key \<Rightarrow> bool" where
  "is_index k \<longleftrightarrow> fst k = keyspace_id_of indexed_keyspace \<and> length (snd k) = INDEXED_LENGTH \<and> snd k ! 0 = prefix_id EdgeLinksIndex"

definition indexed_relation :: "thing_edge_indexed_relation \<Rightarrow> object_vertex" where
  "indexed_relation self = build_relation (ix_relation_type_id self) (ix_relation_id self)"

section \<open>Layouts\<close>

lemmas edge_length_defs = length_defs HAS_LENGTH_PREFIX_FROM_TYPE_def HAS_LENGTH_PREFIX_FROM_OBJECT_def
  HAS_LENGTH_PREFIX_FROM_OBJECT_TO_TYPE_def HASR_LENGTH_PREFIX_FROM_PREFIX_def HASR_LENGTH_PREFIX_FROM_TYPE_def
  HASR_LENGTH_BOUND_PREFIX_FROM_def HASR_LENGTH_BOUND_PREFIX_FROM_TO_TYPE_def LINKS_LENGTH_def LINKS_LENGTH_PREFIX_FROM_TYPE_def
  LINKS_LENGTH_PREFIX_FROM_def LINKS_LENGTH_PREFIX_FROM_TO_TYPE_def LINKS_LENGTH_PREFIX_FROM_TO_def INDEXED_LENGTH_def

lemma copy_Cons: "0 < n \<Longrightarrow> copy_from_slice (b # bs) n src = b # copy_from_slice bs (n - 1) src"
  by (cases n) (simp_all add: copy_from_slice_def)

lemma copy_append: "length xs \<le> n \<Longrightarrow> copy_from_slice (xs @ ys) n src = xs @ copy_from_slice ys (n - length xs) src"
  by (simp add: copy_from_slice_def)

lemma copy_zeros: "copy_from_slice (replicate m 0) 0 src = src @ replicate (m - length src) 0"
  by (simp add: copy_from_slice_def)

lemma copy_all: "length bs = length src \<Longrightarrow> copy_from_slice bs 0 src = src"
  by (simp add: copy_from_slice_def)

lemma zeros_first: "0 < m \<Longrightarrow> (replicate m 0)[0 := b] = b # replicate (m - 1) (0 :: byte)"
  by (cases m) simp_all

lemmas layout = Let_def edge_length_defs zeros_first copy_Cons copy_append copy_zeros copy_all

lemma has_bytes:
  assumes "attribute_vertex_wf (has_attribute e)"
  shows "has_to_bytes e = prefix_id EdgeHas # object_vertex_to_bytes (has_owner e) @ attribute_vertex_to_bytes (has_attribute e)"
  using assms by (simp add: has_to_bytes_def layout)

lemma hasr_bytes:
  assumes "attribute_vertex_wf (hasr_attribute e)"
  shows "hasr_to_bytes e = prefix_id EdgeHasReverse # attribute_vertex_to_bytes (hasr_attribute e) @ object_vertex_to_bytes (hasr_owner e)"
  using assms by (simp add: hasr_to_bytes_def layout)

lemma links_bytes:
  "links_to_bytes e = prefix_id (if lk_is_reverse e then EdgeLinksReverse else EdgeLinks) #
     object_vertex_to_bytes (lk_from e) @ object_vertex_to_bytes (lk_to e) @ type_id_to_bytes (lk_role_id e)"
  by (simp add: links_to_bytes_def layout lk_from_def lk_to_def)

lemma indexed_bytes:
  "indexed_to_bytes e = prefix_id EdgeLinksIndex # type_id_to_bytes (ix_relation_type_id e) @
     object_vertex_to_bytes (ix_player_from e) @ object_vertex_to_bytes (ix_player_to e) @ encode_u64 (ix_relation_id e) @
     type_id_to_bytes (ix_role_id_from e) @ type_id_to_bytes (ix_role_id_to e)"
  by (simp add: indexed_to_bytes_def layout object_id_bytes)

lemma prefix_bytes:
  "has_prefix_from_object o1 = prefix_id EdgeHas # object_vertex_to_bytes o1"
  "has_prefix_from_object_to_type o1 t = prefix_id EdgeHas # object_vertex_to_bytes o1 @ prefix_id VertexAttribute # type_id_to_bytes t"
  "snd (hasr_prefix_from_attribute_vertex_prefix c ap) = prefix_id EdgeHasReverse # ap"
  "links_prefix_from_relation o1 = prefix_id EdgeLinks # object_vertex_to_bytes o1"
  "links_prefix_from_relation_player o1 o2 = prefix_id EdgeLinks # object_vertex_to_bytes o1 @ object_vertex_to_bytes o2"
  "links_prefix_reverse_from_player o1 = prefix_id EdgeLinksReverse # object_vertex_to_bytes o1"
  "links_prefix_reverse_from_player_relation o1 o2 = prefix_id EdgeLinksReverse # object_vertex_to_bytes o1 @ object_vertex_to_bytes o2"
  "indexed_prefix_relation_type t = prefix_id EdgeLinksIndex # type_id_to_bytes t"
  "indexed_prefix_start t o1 = prefix_id EdgeLinksIndex # type_id_to_bytes t @ object_vertex_to_bytes o1"
  "indexed_prefix_start_end t o1 o2 = prefix_id EdgeLinksIndex # type_id_to_bytes t @ object_vertex_to_bytes o1 @ object_vertex_to_bytes o2"
  "indexed_prefix_start_end_relation o1 o2 r = prefix_id EdgeLinksIndex # type_id_to_bytes (ov_type_id r) @
     object_vertex_to_bytes o1 @ object_vertex_to_bytes o2 @ encode_u64 (ov_object_id r)"
  by (simp_all add: has_prefix_from_object_def has_prefix_from_object_to_type_def
      hasr_prefix_from_attribute_vertex_prefix_def
      links_prefix_from_relation_def links_prefix_from_relation_player_def links_prefix_reverse_from_player_def
      links_prefix_reverse_from_player_relation_def indexed_prefix_relation_type_def indexed_prefix_start_def
      indexed_prefix_start_end_def indexed_prefix_start_end_relation_def object_id_bytes write_prefix_type_bytes layout)

lemma short_prefix_bytes:
  "has_prefix_with_attribute_prefix o1 ap = prefix_id EdgeHas # object_vertex_to_bytes o1 @ ap"
  "hasr_prefix_from_prefix p = [prefix_id EdgeHasReverse, prefix_id p]"
  "snd (hasr_prefix_from_attribute_type c t) = prefix_id EdgeHasReverse # prefix_id VertexAttribute # type_id_to_bytes t"
  by (simp_all add: has_prefix_with_attribute_prefix_def hasr_prefix_from_prefix_def hasr_prefix_from_attribute_type_def
      layout take_Cons' copy_from_slice_def numeral_eq_Suc)

lemma type_prefix_bytes:
  assumes "prefix_for_type tp = Some p"
  shows "has_prefix_from_type_parts tp t = Some (prefix_id EdgeHas # prefix_id p # type_id_to_bytes t)"
    "has_prefix_from_type (type_vertex_new (prefix_id tp) t) = Some (prefix_id EdgeHas # prefix_id p # type_id_to_bytes t)"
    "links_prefix_from_relation_player_type_parts o1 tp t =
      Some (prefix_id EdgeLinks # object_vertex_to_bytes o1 @ prefix_id p # type_id_to_bytes t)"
    "links_prefix_reverse_from_player_type tp t = Some (prefix_id EdgeLinksReverse # prefix_id p # type_id_to_bytes t)"
    "indexed_prefix_relation_type_start_type r (type_vertex_new (prefix_id tp) t) =
      Some (prefix_id EdgeLinksIndex # type_id_to_bytes r @ prefix_id p # type_id_to_bytes t)"
  using assms by (simp_all add: has_prefix_from_type_parts_def has_prefix_from_type_def links_prefix_from_relation_player_type_parts_def
      links_prefix_reverse_from_player_type_def indexed_prefix_relation_type_start_type_def write_prefix_type_bytes layout
      type_vertex_prefix_new type_vertex_type_id_new)

lemma relation_type_prefix_bytes:
  "links_prefix_from_relation_type t = Some (prefix_id EdgeLinks # prefix_id VertexRelation # type_id_to_bytes t)"
  "links_prefix_reverse_from_player_relation_type o1 t =
    Some (prefix_id EdgeLinksReverse # object_vertex_to_bytes o1 @ prefix_id VertexRelation # type_id_to_bytes t)"
  by (simp_all add: links_prefix_from_relation_type_def links_prefix_reverse_from_player_relation_type_def write_prefix_type_bytes layout)

lemma hasr_prefix_bytes:
  assumes "attribute_vertex_wf v"
  shows "snd (hasr_prefix_from_attribute v) = prefix_id EdgeHasReverse # attribute_vertex_to_bytes v"
    and "prefix_for_type tp = Some p \<Longrightarrow> \<exists>k. hasr_prefix_from_attribute_to_type_parts v tp t =
      Some (k, prefix_id EdgeHasReverse # attribute_vertex_to_bytes v @ prefix_id p # type_id_to_bytes t)"
  using assms attribute_vertex_len[of v] by (auto simp: hasr_prefix_from_attribute_def hasr_prefix_from_attribute_to_type_parts_def
      write_prefix_type_bytes layout attribute_id_max_length_def CATEGORY_LENGTH_def LONG_LENGTH_def)

section \<open>Round trips\<close>

lemma has_roundtrip: "attribute_vertex_wf (has_attribute e) \<Longrightarrow> has_decode (has_to_bytes e) = Some e"
  by (simp add: has_decode_def has_bytes edge_length_defs slice_def)

lemma links_roundtrip: "links_decode (links_to_bytes e) = Some e"
  by (simp add: links_decode_def links_bytes edge_length_defs slice_def lk_from_def lk_to_def)

lemma indexed_roundtrip: "indexed_decode (indexed_to_bytes e) = Some e"
  by (simp add: indexed_decode_def indexed_bytes edge_length_defs slice_def object_id_bytes)

lemma hasr_category:
  assumes "attribute_vertex_wf v"
  shows "category_from_byte ((attribute_vertex_to_bytes v @ xs) ! 3) = Some (attribute_id_category (av_attribute_id v))"
proof -
  let ?c = "attribute_id_category (av_attribute_id v)"
  obtain b where b: "category_to_bytes ?c = [b]" "category_from_byte b = Some ?c" using category_byte by blast
  then obtain bs where "attribute_id_bytes (av_attribute_id v) = b # bs"
    using assms by (cases "attribute_id_bytes (av_attribute_id v)") (auto simp: attribute_vertex_wf_def attribute_id_wf_def)
  then show ?thesis using b assms by (simp add: attribute_vertex_bytes nth_append numeral_eq_Suc)
qed

lemma hasr_roundtrip:
  assumes "attribute_vertex_wf (hasr_attribute e)"
  shows "hasr_decode (hasr_to_bytes e) = Some e"
proof -
  let ?v = "hasr_attribute e"
  have len: "attribute_vertex_len ?v = 3 + value_type_encoding_length (attribute_id_category (av_attribute_id ?v))"
    by (simp add: attribute_vertex_len_def attribute_id_length_def length_defs)
  let ?b = "hasr_to_bytes e" and ?n = "value_type_encoding_length (attribute_id_category (av_attribute_id ?v))"
  have l: "length ?b = ?n + 15" using assms len by (simp add: hasr_bytes)
  have c: "category_from_byte (?b ! HASR_LENGTH_PREFIX_FROM_TYPE) = Some (attribute_id_category (av_attribute_id ?v))"
    using hasr_category[OF assms, of "object_vertex_to_bytes (hasr_owner e)"] by (simp add: hasr_bytes[OF assms] edge_length_defs numeral_eq_Suc)
  have "slice ?b 1 (3 + ?n + 1) = attribute_vertex_to_bytes ?v" "drop (3 + ?n + 1) ?b = object_vertex_to_bytes (hasr_owner e)"
    using assms len by (simp_all add: hasr_bytes slice_def drop_Cons')
  moreover have "\<not> ?n + 15 \<le> HASR_LENGTH_PREFIX_FROM_TYPE" by (simp add: edge_length_defs)
  ultimately show ?thesis using assms by (simp add: hasr_decode_def l c)
qed

section \<open>Prefixes select edges\<close>

lemma prefix_append_same: "length xs = length ys \<Longrightarrow> prefix (xs @ us) (ys @ vs) \<longleftrightarrow> xs = ys \<and> prefix us vs"
  by (auto simp: prefix_def)

lemma prefix_same: "length xs = length ys \<Longrightarrow> prefix xs (ys @ vs) \<longleftrightarrow> xs = ys"
  using prefix_append_same[of xs ys "[]" vs] by simp

lemma object_prefix: "prefix (object_vertex_to_bytes o1) (object_vertex_to_bytes o2 @ xs) \<longleftrightarrow> o1 = o2"
  "prefix (object_vertex_to_bytes o1 @ us) (object_vertex_to_bytes o2 @ vs) \<longleftrightarrow> o1 = o2 \<and> prefix us vs"
  by (simp_all add: prefix_same prefix_append_same)

lemma object_type_prefix:
  "prefix (prefix_id p # type_id_to_bytes t) (object_vertex_to_bytes o1 @ xs) \<longleftrightarrow> ov_prefix o1 = p \<and> ov_type_id o1 = t"
  by (auto simp: object_vertex_bytes prefix_same)

lemma attribute_type_prefix:
  assumes "attribute_vertex_wf v"
  shows "prefix (prefix_id VertexAttribute # type_id_to_bytes t) (attribute_vertex_to_bytes v @ xs) \<longleftrightarrow> av_type_id v = t"
    "prefix (prefix_id VertexAttribute # type_id_to_bytes t) (attribute_vertex_to_bytes v) \<longleftrightarrow> av_type_id v = t"
  using assms by (auto simp: attribute_vertex_bytes prefix_same)

text \<open>The category in an attribute vertex makes the vertices prefix-free, although their lengths differ.\<close>

lemma attribute_prefix_free:
  assumes "attribute_vertex_wf v" "attribute_vertex_wf w"
  shows "prefix (attribute_vertex_to_bytes v @ us) (attribute_vertex_to_bytes w @ vs) \<longleftrightarrow> v = w \<and> prefix us vs"
proof
  assume "v = w \<and> prefix us vs"
  then show "prefix (attribute_vertex_to_bytes v @ us) (attribute_vertex_to_bytes w @ vs)" by simp
next
  assume p: "prefix (attribute_vertex_to_bytes v @ us) (attribute_vertex_to_bytes w @ vs)"
  let ?a = "attribute_id_bytes (av_attribute_id v)" and ?b = "attribute_id_bytes (av_attribute_id w)"
  let ?c = "attribute_id_category (av_attribute_id v)" and ?d = "attribute_id_category (av_attribute_id w)"
  have "prefix (?a @ us) (?b @ vs)" using p assms by (simp add: attribute_vertex_bytes prefix_append_same)
  moreover have "length ?a = value_type_encoding_length ?c" "length ?b = value_type_encoding_length ?d"
    "take 1 ?a = category_to_bytes ?c" "take 1 ?b = category_to_bytes ?d"
    using assms by (simp_all add: attribute_vertex_wf_def attribute_id_wf_def attribute_id_length_def)
  moreover have "take 1 ?a = take 1 ?b"
  proof -
    obtain x xs y ys where "?a = x # xs" "?b = y # ys"
      using calculation(2,3) by (cases ?a; cases ?b) (auto simp: encoding_lengths split: if_splits)
    then show ?thesis using calculation(1) by simp
  qed
  ultimately have "?c = ?d" by (metis category_to_bytes_inj)
  then have "length (attribute_vertex_to_bytes v) = length (attribute_vertex_to_bytes w)"
    using assms by (simp add: attribute_vertex_len is_short_encoding_def)
  then show "v = w \<and> prefix us vs" using p assms by (simp add: prefix_append_same attribute_vertex_inj)
qed

section \<open>Keys of things\<close>

datatype thing_key =
    ObjectKey object_vertex | AttributeKey attribute_vertex | HasKey thing_edge_has | HasReverseKey thing_edge_has_reverse
  | LinksKey thing_edge_links | IndexedKey thing_edge_indexed_relation

text \<open>\<^verbatim>\<open>Keyable::into_storage_key\<close> of each.\<close>

fun thing_storage_key :: "thing_key \<Rightarrow> storage_key" where
  "thing_storage_key (ObjectKey v) = (keyspace_id_of DefaultOptimisedPrefix11, object_vertex_to_bytes v)"
| "thing_storage_key (AttributeKey v) = (keyspace_id_of (attribute_keyspace v), attribute_vertex_to_bytes v)"
| "thing_storage_key (HasKey e) = (keyspace_id_of has_keyspace, has_to_bytes e)"
| "thing_storage_key (HasReverseKey e) = (keyspace_id_of (hasr_keyspace e), hasr_to_bytes e)"
| "thing_storage_key (LinksKey e) = (keyspace_id_of links_keyspace, links_to_bytes e)"
| "thing_storage_key (IndexedKey e) = (keyspace_id_of indexed_keyspace, indexed_to_bytes e)"

fun thing_key_wf :: "thing_key \<Rightarrow> bool" where
  "thing_key_wf (ObjectKey v) = object_vertex_wf v"
| "thing_key_wf (AttributeKey v) = attribute_vertex_wf v"
| "thing_key_wf (HasKey e) = attribute_vertex_wf (has_attribute e)"
| "thing_key_wf (HasReverseKey e) = attribute_vertex_wf (hasr_attribute e)"
| "thing_key_wf _ = True"

text \<open>The prefix byte of a key, and one key as the prefix of another of the same kind.\<close>

fun thing_key_prefix :: "thing_key \<Rightarrow> key_prefix" where
  "thing_key_prefix (ObjectKey v) = ov_prefix v"
| "thing_key_prefix (AttributeKey v) = VertexAttribute"
| "thing_key_prefix (HasKey e) = EdgeHas"
| "thing_key_prefix (HasReverseKey e) = EdgeHasReverse"
| "thing_key_prefix (LinksKey e) = (if lk_is_reverse e then EdgeLinksReverse else EdgeLinks)"
| "thing_key_prefix (IndexedKey e) = EdgeLinksIndex"

lemma thing_key_first:
  assumes "thing_key_wf k"
  shows "\<exists>bs. snd (thing_storage_key k) = prefix_id (thing_key_prefix k) # bs"
  using assms by (cases k) (simp_all add: object_vertex_bytes attribute_vertex_bytes has_bytes hasr_bytes links_bytes indexed_bytes)

lemma thing_key_prefix_free:
  assumes "thing_key_wf k" "thing_key_wf k'" "prefix (snd (thing_storage_key k)) (snd (thing_storage_key k'))"
  shows "k = k'"
proof -
  have "thing_key_prefix k = thing_key_prefix k'"
    using thing_key_first[OF assms(1)] thing_key_first[OF assms(2)] assms(3) by auto
  then consider v w where "k = ObjectKey v" "k' = ObjectKey w" | v w where "k = AttributeKey v" "k' = AttributeKey w"
    | e f where "k = HasKey e" "k' = HasKey f" | e f where "k = HasReverseKey e" "k' = HasReverseKey f"
    | e f where "k = LinksKey e" "k' = LinksKey f" | e f where "k = IndexedKey e" "k' = IndexedKey f"
    using assms(1,2) by (cases k; cases k') (auto simp: object_vertex_wf_def split: if_splits)
  then show ?thesis
  proof cases
    case 1 then show ?thesis using assms(3) object_prefix(1)[of v w "[]"] by simp
  next
    case 2 then show ?thesis using assms attribute_prefix_free[of v w "[]" "[]"] by simp
  next
    case 3 then show ?thesis
      using assms attribute_prefix_free[of "has_attribute e" "has_attribute f" "[]" "[]"]
      by (simp add: has_bytes object_prefix)
  next
    case 4 then show ?thesis using assms object_prefix(1)[of _ _ "[]"] by (simp add: hasr_bytes attribute_prefix_free)
  next
    case 5 then show ?thesis
      using assms(3) \<open>thing_key_prefix k = thing_key_prefix k'\<close> prefix_same[of "type_id_to_bytes (lk_role_id e)" "type_id_to_bytes (lk_role_id f)" "[]"]
      by (auto simp: links_bytes object_prefix lk_from_def lk_to_def split: if_splits)
  next
    case 6 then show ?thesis
      using assms(3) prefix_same[of "type_id_to_bytes (ix_role_id_to e)" "type_id_to_bytes (ix_role_id_to f)" "[]"]
      by (auto simp: indexed_bytes object_prefix prefix_append_same)
  qed
qed

section \<open>Ranges of owner types\<close>

text \<open>
  \<^verbatim>\<open>get_has_reverse_by_attribute_and_owner_type_range\<close> of \<^verbatim>\<open>src/concept/thing/thing_manager.rs\<close>: the range of keys of the
  owners of an attribute whose types lie between two bounds.
\<close>

definition hasr_prefix_from_attribute_to_type :: "attribute_vertex \<Rightarrow> type_vertex \<Rightarrow> storage_key option" where
  "hasr_prefix_from_attribute_to_type from to_type = do {
     p \<leftarrow> type_vertex_prefix to_type;
     hasr_prefix_from_attribute_to_type_parts from p (type_vertex_type_id to_type) }"

definition owner_type_range :: "attribute_vertex \<Rightarrow> type_vertex bound \<Rightarrow> type_vertex bound \<Rightarrow> storage_key key_range option" where
  "owner_type_range attribute start_bound end_bound = do {
     range_start \<leftarrow>
       (case start_bound of
          Included owner_start \<Rightarrow> map_option Inclusive (hasr_prefix_from_attribute_to_type attribute owner_start)
        | Excluded owner_start \<Rightarrow> map_option ExcludePrefix (hasr_prefix_from_attribute_to_type attribute owner_start)
        | Unbounded \<Rightarrow> map_option Inclusive (hasr_prefix_from_attribute_to_type_parts attribute min_object_type_prefix 0));
     range_end \<leftarrow>
       (case end_bound of
          Included owner_end \<Rightarrow> map_option EndPrefixInclusive (hasr_prefix_from_attribute_to_type attribute owner_end)
        | Excluded owner_end \<Rightarrow> map_option EndPrefixExclusive (hasr_prefix_from_attribute_to_type attribute owner_end)
        | Unbounded \<Rightarrow> map_option EndPrefixInclusive (hasr_prefix_from_attribute_to_type_parts attribute max_object_type_prefix (- 1)));
     Some \<lparr> kr_start = range_start, kr_end = range_end, kr_fixed_width_keys = fixed_width_keys EdgeHasReverse \<rparr> }"

text \<open>The kind and type of an object, as its key starts.\<close>

definition owner_type_bytes :: "object_vertex \<Rightarrow> bytes" where
  "owner_type_bytes v = prefix_id (ov_prefix v) # type_id_to_bytes (ov_type_id v)"

lemma owner_type_take: "take 3 (object_vertex_to_bytes v) = owner_type_bytes v" "length (owner_type_bytes v) = 3"
  by (simp_all add: object_vertex_bytes owner_type_bytes_def)

lemma lex_le_take:
  assumes "length (l :: bytes) \<le> length k"
  shows "l \<le> k \<longleftrightarrow> l \<le> take (length l) k"
proof -
  have "l @ [] < take (length l) k @ drop (length l) k \<longleftrightarrow> l < take (length l) k \<or> l = take (length l) k \<and> [] < drop (length l) k"
    using assms by (intro lex_append_same_length) simp
  moreover have "l = k \<Longrightarrow> l = take (length l) k" by simp
  moreover have "[] < drop (length l) k \<or> drop (length l) k = []" by (cases "drop (length l) k") simp_all
  ultimately show ?thesis using append_take_drop_id[of "length l" k] by (auto simp: le_less)
qed

lemma lex_cut:
  assumes "take (length e) k \<le> (e :: bytes)"
  shows "k \<le> e @ drop (length e) k"
proof (cases "length e \<le> length k")
  case True
  obtain a b where k: "k = a @ b" "length a = length e" using True by (metis append_take_drop_id length_take min_absorb2)
  then show ?thesis using assms lex_append_same_length[of a e b b] by (auto simp: le_less)
qed (use assms in simp)

lemma lex_take_le: "take n (k :: bytes) \<le> k"
  by (metis append_take_drop_id lex_le_append)

lemma attribute_lex:
  assumes "attribute_vertex_wf v" "attribute_vertex_wf w" "v \<noteq> w"
  shows "attribute_vertex_to_bytes v @ us < attribute_vertex_to_bytes w @ vs \<longleftrightarrow> attribute_vertex_to_bytes v < attribute_vertex_to_bytes w"
  using assms attribute_prefix_free[of v w "[]" "[]"] attribute_prefix_free[of w v "[]" "[]"] by (simp add: lex_prefix_free)

text \<open>Cutting a key after the attribute and the type of an owner: attributes decide first.\<close>

lemma attribute_cut:
  assumes "attribute_vertex_wf v" "attribute_vertex_wf w" "v \<noteq> w"
  defines "vb \<equiv> attribute_vertex_to_bytes v" and "wb \<equiv> attribute_vertex_to_bytes w"
  shows "take (length (vb @ l)) (wb @ k) \<le> vb @ l \<longleftrightarrow> wb < vb"
    and "take (length (vb @ l)) (wb @ k) < vb @ l \<longleftrightarrow> wb < vb"
    and "vb @ l \<le> wb @ k \<longleftrightarrow> vb < wb"
proof -
  have ne: "vb \<noteq> wb" using assms attribute_vertex_inj by auto
  have vw: "vb @ us < wb @ vs \<longleftrightarrow> vb < wb" and wv: "wb @ us < vb @ vs \<longleftrightarrow> wb < vb" for us vs
    using attribute_lex[of v w] attribute_lex[of w v] assms by auto
  have "wb < vb" if "take (length (vb @ l)) (wb @ k) \<le> vb @ l"
  proof (rule ccontr)
    assume "\<not> wb < vb"
    then have "vb @ (l @ drop (length (vb @ l)) (wb @ k)) < wb @ k" using vw ne by auto
    moreover have "wb @ k \<le> (vb @ l) @ drop (length (vb @ l)) (wb @ k)" using that by (rule lex_cut)
    ultimately show False by simp
  qed
  moreover have "take (length (vb @ l)) (wb @ k) < vb @ l" if "wb < vb"
    using lex_take_le[of "length (vb @ l)" "wb @ k"] wv[of k l] that by (meson le_less_trans)
  ultimately show "take (length (vb @ l)) (wb @ k) \<le> vb @ l \<longleftrightarrow> wb < vb"
    and "take (length (vb @ l)) (wb @ k) < vb @ l \<longleftrightarrow> wb < vb" by (meson less_imp_le)+
  show "vb @ l \<le> wb @ k \<longleftrightarrow> vb < wb" using vw[of l k] wv[of k l] ne by (metis less_imp_le not_le neq_iff)
qed

lemma hasr_cut:
  assumes "attribute_vertex_wf v" "attribute_vertex_wf (hasr_attribute e)" "length l = 3"
  defines "vb \<equiv> attribute_vertex_to_bytes v" and "wb \<equiv> attribute_vertex_to_bytes (hasr_attribute e)"
    and "bd \<equiv> prefix_id EdgeHasReverse # attribute_vertex_to_bytes v @ l" and "ob \<equiv> owner_type_bytes (hasr_owner e)"
  shows "start_admits (Inclusive bd) (hasr_to_bytes e) \<longleftrightarrow> vb < wb \<or> hasr_attribute e = v \<and> l \<le> ob"
    and "start_admits (ExcludePrefix bd) (hasr_to_bytes e) \<longleftrightarrow> vb < wb \<or> hasr_attribute e = v \<and> l < ob"
    and "end_admits start (EndPrefixInclusive bd) (hasr_to_bytes e) \<longleftrightarrow> wb < vb \<or> hasr_attribute e = v \<and> ob \<le> l"
    and "end_admits start (EndPrefixExclusive bd) (hasr_to_bytes e) \<longleftrightarrow> wb < vb \<or> hasr_attribute e = v \<and> ob < l"
proof -
  let ?o = "object_vertex_to_bytes (hasr_owner e)"
  have k: "hasr_to_bytes e = prefix_id EdgeHasReverse # wb @ ?o"
    and t: "take (length bd) (prefix_id EdgeHasReverse # wb @ ?o) = prefix_id EdgeHasReverse # take (length (vb @ l)) (wb @ ?o)"
    using assms(2) by (simp_all add: hasr_bytes bd_def vb_def wb_def del: take_append)
  have same: "hasr_attribute e = v \<Longrightarrow> wb = vb" by (simp add: vb_def wb_def)
  have bd: "bd = prefix_id EdgeHasReverse # vb @ l" by (simp add: bd_def vb_def)
  have apart: "hasr_attribute e \<noteq> v \<Longrightarrow> wb \<noteq> vb" using assms(1,2) attribute_vertex_inj by (simp add: vb_def wb_def)
  have ob: "take 3 ?o = ob" "length ob = 3" by (simp_all add: ob_def owner_type_take)
  have le: "l \<le> ?o \<longleftrightarrow> l \<le> ob" using lex_le_take[of l ?o] assms(3) ob by simp
  note differ = attribute_cut[OF assms(1,2), of l ?o, folded vb_def wb_def]
  show "start_admits (Inclusive bd) (hasr_to_bytes e) \<longleftrightarrow> vb < wb \<or> hasr_attribute e = v \<and> l \<le> ob"
    using differ(3) same le by (cases "hasr_attribute e = v") (auto simp: k bd)
  have same': "hasr_attribute e = v \<Longrightarrow> take (length (vb @ l)) (wb @ ?o) = vb @ ob" using same ob assms(3) by simp
  show "start_admits (ExcludePrefix bd) (hasr_to_bytes e) \<longleftrightarrow> vb < wb \<or> hasr_attribute e = v \<and> l < ob"
    unfolding start_admits.simps k t
    using differ(1) same same' apart by (cases "hasr_attribute e = v") (auto simp: bd not_le[symmetric] simp del: take_append length_append)
  show "end_admits start (EndPrefixInclusive bd) (hasr_to_bytes e) \<longleftrightarrow> wb < vb \<or> hasr_attribute e = v \<and> ob \<le> l"
    unfolding end_admits.simps k t
    using differ(1) same same' by (cases "hasr_attribute e = v") (auto simp: bd simp del: take_append length_append)
  show "end_admits start (EndPrefixExclusive bd) (hasr_to_bytes e) \<longleftrightarrow> wb < vb \<or> hasr_attribute e = v \<and> ob < l"
    unfolding end_admits.simps k t
    using differ(2) same same' by (cases "hasr_attribute e = v") (auto simp: bd simp del: take_append length_append)
qed

text \<open>What a type contributes to such a prefix; none when it is not the type of an object.\<close>

definition object_type_key :: "type_vertex \<Rightarrow> bytes option" where
  "object_type_key t = do {
     p \<leftarrow> type_vertex_prefix t;
     q \<leftarrow> prefix_for_type p;
     Some (prefix_id q # type_id_to_bytes (type_vertex_type_id t)) }"

lemma object_type_key_new: "prefix_for_type p = Some q \<Longrightarrow> object_type_key (type_vertex_new (prefix_id p) t) = Some (prefix_id q # type_id_to_bytes t)"
  by (simp add: object_type_key_def type_vertex_prefix_new type_vertex_type_id_new)

lemma length_object_type_key: "object_type_key t = Some l \<Longrightarrow> length l = 3"
  by (auto simp: object_type_key_def split: bind_splits)

lemma hasr_prefix_key:
  assumes "attribute_vertex_wf v" "object_type_key t = Some l"
  shows "\<exists>i. hasr_prefix_from_attribute_to_type v t = Some (i, prefix_id EdgeHasReverse # attribute_vertex_to_bytes v @ l)"
proof -
  obtain p q where p: "type_vertex_prefix t = Some p" "prefix_for_type p = Some q"
    and l: "l = prefix_id q # type_id_to_bytes (type_vertex_type_id t)"
    using assms(2) by (auto simp: object_type_key_def split: bind_splits)
  show ?thesis using hasr_prefix_bytes(2)[OF assms(1) p(2), of "type_vertex_type_id t"] by (simp add: hasr_prefix_from_attribute_to_type_def p l)
qed

section \<open>What the prefixes select\<close>

definition selects :: "bytes \<Rightarrow> (thing_key \<Rightarrow> bool) \<Rightarrow> bool" where
  "selects p P \<longleftrightarrow> (\<forall>k. thing_key_wf k \<longrightarrow> prefix p (snd (thing_storage_key k)) = P k)"

lemma not_that_kind: "thing_key_wf k \<Longrightarrow> thing_key_prefix k \<noteq> q \<Longrightarrow> \<not> prefix (prefix_id q # bs) (snd (thing_storage_key k))"
  using thing_key_first[of k] by auto

lemma has_selects:
  assumes "\<And>e. attribute_vertex_wf (has_attribute e) \<Longrightarrow> prefix bs (object_vertex_to_bytes (has_owner e) @ attribute_vertex_to_bytes (has_attribute e)) = P e"
  shows "selects (prefix_id EdgeHas # bs) (\<lambda>k. \<exists>e. k = HasKey e \<and> P e)"
  unfolding selects_def
proof (intro allI impI)
  fix k assume "thing_key_wf k"
  then show "prefix (prefix_id EdgeHas # bs) (snd (thing_storage_key k)) = (\<exists>e. k = HasKey e \<and> P e)"
    using not_that_kind[of k EdgeHas bs] assms by (cases k) (auto simp: has_bytes object_vertex_wf_def)
qed

lemma hasr_selects:
  assumes "\<And>e. attribute_vertex_wf (hasr_attribute e) \<Longrightarrow> prefix bs (attribute_vertex_to_bytes (hasr_attribute e) @ object_vertex_to_bytes (hasr_owner e)) = P e"
  shows "selects (prefix_id EdgeHasReverse # bs) (\<lambda>k. \<exists>e. k = HasReverseKey e \<and> P e)"
  unfolding selects_def
proof (intro allI impI)
  fix k assume "thing_key_wf k"
  then show "prefix (prefix_id EdgeHasReverse # bs) (snd (thing_storage_key k)) = (\<exists>e. k = HasReverseKey e \<and> P e)"
    using not_that_kind[of k EdgeHasReverse bs] assms by (cases k) (auto simp: hasr_bytes object_vertex_wf_def)
qed

lemma links_selects:
  assumes "q = (if d then EdgeLinksReverse else EdgeLinks)"
    and "\<And>e. lk_is_reverse e = d \<Longrightarrow>
      prefix bs (object_vertex_to_bytes (lk_from e) @ object_vertex_to_bytes (lk_to e) @ type_id_to_bytes (lk_role_id e)) = P e"
  shows "selects (prefix_id q # bs) (\<lambda>k. \<exists>e. k = LinksKey e \<and> lk_is_reverse e = d \<and> P e)"
  unfolding selects_def
proof (intro allI impI)
  fix k assume "thing_key_wf k"
  then show "prefix (prefix_id q # bs) (snd (thing_storage_key k)) = (\<exists>e. k = LinksKey e \<and> lk_is_reverse e = d \<and> P e)"
    using not_that_kind[of k q bs] assms by (cases k) (auto simp: links_bytes object_vertex_wf_def)
qed

lemma indexed_selects:
  assumes "\<And>e. prefix bs (type_id_to_bytes (ix_relation_type_id e) @ object_vertex_to_bytes (ix_player_from e) @
      object_vertex_to_bytes (ix_player_to e) @ encode_u64 (ix_relation_id e) @
      type_id_to_bytes (ix_role_id_from e) @ type_id_to_bytes (ix_role_id_to e)) = P e"
  shows "selects (prefix_id EdgeLinksIndex # bs) (\<lambda>k. \<exists>e. k = IndexedKey e \<and> P e)"
  unfolding selects_def
proof (intro allI impI)
  fix k assume "thing_key_wf k"
  then show "prefix (prefix_id EdgeLinksIndex # bs) (snd (thing_storage_key k)) = (\<exists>e. k = IndexedKey e \<and> P e)"
    using not_that_kind[of k EdgeLinksIndex bs] assms by (cases k) (auto simp: indexed_bytes object_vertex_wf_def)
qed

lemma type_in_bytes:
  "prefix (object_vertex_to_bytes o1 @ prefix_id p # type_id_to_bytes t) (object_vertex_to_bytes o2 @ object_vertex_to_bytes o3 @ xs) \<longleftrightarrow>
    o2 = o1 \<and> ov_prefix o3 = p \<and> ov_type_id o3 = t"
  "prefix (type_id_to_bytes r @ xs) (type_id_to_bytes u @ ys) \<longleftrightarrow> u = r \<and> prefix xs ys"
  "prefix (type_id_to_bytes r) (type_id_to_bytes u @ ys) \<longleftrightarrow> u = r"
  by (auto simp: object_prefix object_type_prefix prefix_append_same prefix_same)

text \<open>A links edge runs from the relation to the player unless it is reversed; an edge of the index is in the relation
  of its type and identifier.\<close>

lemmas selection = object_prefix object_type_prefix attribute_type_prefix attribute_prefix_free type_in_bytes lk_from_def lk_to_def

lemma some_selects: "selects b P \<Longrightarrow> \<exists>b'. Some b = Some b' \<and> selects b' P" "selects b P \<Longrightarrow> \<exists>i' b'. Some (i, b) = Some (i', b') \<and> selects b' P"
  by simp_all

lemma canonical_selects:
  assumes "\<And>e. \<not> lk_is_reverse e \<Longrightarrow>
      prefix bs (object_vertex_to_bytes (lk_relation e) @ object_vertex_to_bytes (lk_player e) @ type_id_to_bytes (lk_role_id e)) = P e"
  shows "selects (prefix_id EdgeLinks # bs) (\<lambda>k. \<exists>e. k = LinksKey e \<and> \<not> lk_is_reverse e \<and> P e)"
  using links_selects[of EdgeLinks False bs P] assms by (simp add: lk_from_def lk_to_def)

lemma reverse_selects:
  assumes "\<And>e. lk_is_reverse e \<Longrightarrow>
      prefix bs (object_vertex_to_bytes (lk_player e) @ object_vertex_to_bytes (lk_relation e) @ type_id_to_bytes (lk_role_id e)) = P e"
  shows "selects (prefix_id EdgeLinksReverse # bs) (\<lambda>k. \<exists>e. k = LinksKey e \<and> lk_is_reverse e \<and> P e)"
  using links_selects[of EdgeLinksReverse True bs P] assms by (simp add: lk_from_def lk_to_def)

lemma startrole_prefix_bytes:
  "indexed_prefix_start_end_relation_startrole o1 o2 r t = prefix_id EdgeLinksIndex # type_id_to_bytes (ov_type_id r) @
     object_vertex_to_bytes o1 @ object_vertex_to_bytes o2 @ encode_u64 (ov_object_id r) @ type_id_to_bytes (type_vertex_type_id t)"
  by (simp add: indexed_prefix_start_end_relation_startrole_def object_id_bytes layout)

lemma mapped_contains:
  "range_contains (key_range_map f g r) k \<longleftrightarrow>
    start_admits (start_map f (kr_start r)) k \<and> end_admits (start_map f (kr_start r)) (end_map f (kr_end r)) k"
  by (simp add: range_contains_def key_range_map_def new_fixed_width_def new_variable_width_def Let_def)

lemma example_attribute: "attribute_vertex_wf \<lparr> av_type_id = 1, av_attribute_id = BooleanID [0, 1, 0, 0, 0, 0, 0, 0, 0] \<rparr>"
  by (simp add: attribute_vertex_wf_def attribute_id_wf_def attribute_id_length_def encoding_lengths is_category_short_encoding_def)

section \<open>Properties\<close>

text \<open>C27: decoding inverts encoding, for the keys of objects, of attributes, and of the four kinds of edges between
  them.\<close>

theorem graph_keys_roundtrip:
  assumes "attribute_vertex_wf a"
  shows "object_vertex_decode (object_vertex_to_bytes v) = Some v \<and>
    attribute_vertex_decode (attribute_vertex_to_bytes a) = Some a \<and>
    has_decode (has_to_bytes \<lparr> has_owner = v, has_attribute = a \<rparr>) = Some \<lparr> has_owner = v, has_attribute = a \<rparr> \<and>
    hasr_decode (hasr_to_bytes \<lparr> hasr_attribute = a, hasr_owner = v \<rparr>) = Some \<lparr> hasr_attribute = a, hasr_owner = v \<rparr> \<and>
    links_decode (links_to_bytes l) = Some l \<and> indexed_decode (indexed_to_bytes i) = Some i"
  using assms by (simp add: has_roundtrip hasr_roundtrip links_roundtrip indexed_roundtrip)

theorem graph_keys_roundtrip_witness:
  "attribute_vertex_wf \<lparr> av_type_id = 1, av_attribute_id = BooleanID [0, 1, 0, 0, 0, 0, 0, 0, 0] \<rparr> \<and>
   attribute_vertex_decode (attribute_vertex_to_bytes \<lparr> av_type_id = 1, av_attribute_id = BooleanID [0, 1, 0, 0, 0, 0, 0, 0, 0] \<rparr>) =
     Some \<lparr> av_type_id = 1, av_attribute_id = BooleanID [0, 1, 0, 0, 0, 0, 0, 0, 0] \<rparr>"
  using graph_keys_roundtrip[OF example_attribute] example_attribute by simp



text \<open>C25: the prefixes of the scans over the players of relations select, among the keys of all things, exactly the
  edges they are built for: from a relation to its players (by the type of the relation, the relation, the type of the
  player, the player), and on the reversed edges from a player to its relations.\<close>

theorem links_prefixes_select:
  assumes "prefix_for_type tp = Some p"
  shows "(\<exists>b. links_prefix_from_relation_type t = Some b \<and>
      selects b (\<lambda>k. \<exists>e. k = LinksKey e \<and> \<not> lk_is_reverse e \<and> ov_prefix (lk_relation e) = VertexRelation \<and> ov_type_id (lk_relation e) = t)) \<and>
    selects (links_prefix_from_relation r) (\<lambda>k. \<exists>e. k = LinksKey e \<and> \<not> lk_is_reverse e \<and> lk_relation e = r) \<and>
    (\<exists>b. links_prefix_from_relation_player_type_parts r tp t = Some b \<and>
      selects b (\<lambda>k. \<exists>e. k = LinksKey e \<and> \<not> lk_is_reverse e \<and> lk_relation e = r \<and> ov_prefix (lk_player e) = p \<and> ov_type_id (lk_player e) = t)) \<and>
    selects (links_prefix_from_relation_player r v) (\<lambda>k. \<exists>e. k = LinksKey e \<and> \<not> lk_is_reverse e \<and> lk_relation e = r \<and> lk_player e = v) \<and>
    (\<exists>b. links_prefix_reverse_from_player_type tp t = Some b \<and>
      selects b (\<lambda>k. \<exists>e. k = LinksKey e \<and> lk_is_reverse e \<and> ov_prefix (lk_player e) = p \<and> ov_type_id (lk_player e) = t)) \<and>
    selects (links_prefix_reverse_from_player v) (\<lambda>k. \<exists>e. k = LinksKey e \<and> lk_is_reverse e \<and> lk_player e = v) \<and>
    (\<exists>b. links_prefix_reverse_from_player_relation_type v t = Some b \<and>
      selects b (\<lambda>k. \<exists>e. k = LinksKey e \<and> lk_is_reverse e \<and> lk_player e = v \<and> ov_prefix (lk_relation e) = VertexRelation \<and> ov_type_id (lk_relation e) = t)) \<and>
    selects (links_prefix_reverse_from_player_relation v r) (\<lambda>k. \<exists>e. k = LinksKey e \<and> lk_is_reverse e \<and> lk_player e = v \<and> lk_relation e = r)"
  unfolding prefix_bytes relation_type_prefix_bytes type_prefix_bytes[OF assms]
  by (intro conjI some_selects(1) canonical_selects reverse_selects; auto simp: selection)

theorem links_prefixes_select_witness:
  "prefix_for_type VertexEntityType = Some VertexEntity \<and>
   selects (links_prefix_from_relation (build_relation 1 7)) (\<lambda>k. \<exists>e. k = LinksKey e \<and> \<not> lk_is_reverse e \<and> lk_relation e = build_relation 1 7)"
  using links_prefixes_select[of VertexEntityType VertexEntity] by simp

text \<open>The prefixes of the scans over the index of pairs of players select exactly the edges they are built
  for: by the type of the relation, the type of the first player, the first and the second player, the relation, and the
  role of the first player.\<close>

theorem indexed_prefixes_select:
  assumes "prefix_for_type tp = Some p"
  shows "selects (indexed_prefix_relation_type t) (\<lambda>k. \<exists>e. k = IndexedKey e \<and> ix_relation_type_id e = t) \<and>
    (\<exists>b. indexed_prefix_relation_type_start_type t (type_vertex_new (prefix_id tp) u) = Some b \<and>
      selects b (\<lambda>k. \<exists>e. k = IndexedKey e \<and> ix_relation_type_id e = t \<and> ov_prefix (ix_player_from e) = p \<and> ov_type_id (ix_player_from e) = u)) \<and>
    selects (indexed_prefix_start t v) (\<lambda>k. \<exists>e. k = IndexedKey e \<and> ix_relation_type_id e = t \<and> ix_player_from e = v) \<and>
    selects (indexed_prefix_start_end t v w)
      (\<lambda>k. \<exists>e. k = IndexedKey e \<and> ix_relation_type_id e = t \<and> ix_player_from e = v \<and> ix_player_to e = w) \<and>
    selects (indexed_prefix_start_end_relation v w (build_relation t r))
      (\<lambda>k. \<exists>e. k = IndexedKey e \<and> indexed_relation e = build_relation t r \<and> ix_player_from e = v \<and> ix_player_to e = w) \<and>
    selects (indexed_prefix_start_end_relation_startrole v w (build_relation t r) (type_vertex_new b u))
      (\<lambda>k. \<exists>e. k = IndexedKey e \<and> indexed_relation e = build_relation t r \<and> ix_player_from e = v \<and> ix_player_to e = w \<and> ix_role_id_from e = u)"
  unfolding prefix_bytes type_prefix_bytes[OF assms] startrole_prefix_bytes
  by (intro conjI some_selects(1) indexed_selects; auto simp: selection indexed_relation_def build_relation_def prefix_append_same prefix_same
      type_vertex_type_id_new)

theorem indexed_prefixes_select_witness:
  "prefix_for_type VertexEntityType = Some VertexEntity \<and>
   selects (indexed_prefix_start 1 (build_entity 2 7)) (\<lambda>k. \<exists>e. k = IndexedKey e \<and> ix_relation_type_id e = 1 \<and> ix_player_from e = build_entity 2 7)"
  using indexed_prefixes_select[of VertexEntityType VertexEntity 1 0 "build_entity 2 7"] by simp



text \<open>C36: the same scan with no bound on the types of the owners contains the key of no edge at all, although it asks
  for every owner: the least and the greatest prefix of an object are swapped, so the range ends before it starts.\<close>

theorem owner_type_range_unbounded_empty:
  assumes "attribute_vertex_wf v"
  shows "\<exists>r. owner_type_range v Unbounded Unbounded = Some r \<and>
    (\<forall>e. attribute_vertex_wf (hasr_attribute e) \<longrightarrow> \<not> range_contains (key_range_map snd id r) (hasr_to_bytes e))"
proof -
  have m: "min_object_type_prefix = VertexRelationType" "max_object_type_prefix = VertexEntityType"
    by (simp_all add: min_object_type_prefix_def max_object_type_prefix_def prefix_id_def prefix_table_def)
  obtain i j where p: "hasr_prefix_from_attribute_to_type_parts v VertexRelationType 0 =
      Some (i, prefix_id EdgeHasReverse # attribute_vertex_to_bytes v @ prefix_id VertexRelation # type_id_to_bytes 0)"
    "hasr_prefix_from_attribute_to_type_parts v VertexEntityType (- 1) =
      Some (j, prefix_id EdgeHasReverse # attribute_vertex_to_bytes v @ prefix_id VertexEntity # type_id_to_bytes (- 1))"
    using hasr_prefix_bytes(2)[OF assms, of VertexRelationType VertexRelation 0]
      hasr_prefix_bytes(2)[OF assms, of VertexEntityType VertexEntity "- 1"] by auto
  have "\<not> (prefix_id VertexRelation # type_id_to_bytes 0 \<le> b \<and> b \<le> prefix_id VertexEntity # type_id_to_bytes (- 1))" for b
    using order_trans[of "prefix_id VertexRelation # type_id_to_bytes 0" b "prefix_id VertexEntity # type_id_to_bytes (- 1)"]
    by (auto simp: prefix_id_bytes)
  then show ?thesis
    unfolding owner_type_range_def m p bound.case option.map bind.bind_lunit
    by (auto simp: mapped_contains hasr_cut[OF assms] simp del: start_admits.simps end_admits.simps)
qed

theorem owner_type_range_unbounded_empty_witness:
  "\<exists>r. owner_type_range \<lparr> av_type_id = 1, av_attribute_id = BooleanID [0, 1, 0, 0, 0, 0, 0, 0, 0] \<rparr> Unbounded Unbounded = Some r \<and>
    \<not> range_contains (key_range_map snd id r) (hasr_to_bytes
      \<lparr> hasr_attribute = \<lparr> av_type_id = 1, av_attribute_id = BooleanID [0, 1, 0, 0, 0, 0, 0, 0, 0] \<rparr>, hasr_owner = build_entity 3 7 \<rparr>)"
  using owner_type_range_unbounded_empty[OF example_attribute] example_attribute by fastforce

text \<open>The order of links edges of one direction is the order of their keys; between the directions it is the
  opposite order: as edges the reversed one comes first, as keys it comes last.\<close>

theorem links_order:
  "links_to_bytes a < links_to_bytes b \<longleftrightarrow> (if lk_is_reverse a = lk_is_reverse b then links_less a b else \<not> links_less a b)"
  by (auto simp: links_bytes links_less_def prefix_id_bytes lex_append_same_length object_vertex_order)

end
