(* ===== verification/ThingManager.thy ===== *)
theory ThingManager
  imports Storage GraphEdges
begin

text \<open>
  The edges of a transaction: reading, writing and removing ownerships, players and the index of pairs of players through
  a writable snapshot (\<^verbatim>\<open>src/concept/thing/thing_manager.rs\<close>), and deleting an object.  What these operations ask of
  the schema is a parameter: the validation of a value against its type, and whether a relation type has an index.  The
  theories that follow state what the operations do: \<^verbatim>\<open>ThingEdges\<close> for ownerships and objects, \<^verbatim>\<open>ThingScans\<close> for
  the scans, \<^verbatim>\<open>ThingIndex\<close> for players and the index.
\<close>

section \<open>Loops\<close>

text \<open>\<^verbatim>\<open>for x in iterator\<close> over an iterator that the body does not change: the items it yields until it ends, and the body
  applied to each.\<close>

partial_function (option) drain :: "('s \<Rightarrow> ('i option \<times> 's) option) \<Rightarrow> 's \<Rightarrow> 'i list option" where
  "drain nxt s = do {
     (item, s') \<leftarrow> nxt s;
     (case item of
        None \<Rightarrow> Some []
      | Some x \<Rightarrow> do { xs \<leftarrow> drain nxt s'; Some (x # xs) }) }"

fun for_each :: "('a \<Rightarrow> 's \<Rightarrow> 's option) \<Rightarrow> 'a list \<Rightarrow> 's \<Rightarrow> 's option" where
  "for_each body [] s = Some s"
| "for_each body (x # xs) s = do { s' \<leftarrow> body x s; for_each body xs s' }"

section \<open>Status and locks\<close>

datatype concept_status = StatusInserted | StatusPut | StatusPersisted | StatusDeleted

definition concept_get_status :: "keyspaces \<Rightarrow> write_snapshot \<Rightarrow> storage_key \<Rightarrow> concept_status option" where
  "concept_get_status storage snapshot key = do {
     buffered \<leftarrow> ws_get_write snapshot key;
     (case buffered of
        Some (Insert _) \<Rightarrow> Some StatusInserted
      | Some (Put _ _ _) \<Rightarrow> Some StatusPut
      | Some Delete \<Rightarrow> Some StatusDeleted
      | None \<Rightarrow> do {
          existing \<leftarrow> ws_get_last_existing storage snapshot key;
          Some (if existing \<noteq> None then StatusPersisted else StatusDeleted) }) }"

abbreviation object_key :: "object_vertex \<Rightarrow> storage_key" where
  "object_key v \<equiv> thing_storage_key (ObjectKey v)"

abbreviation attribute_key :: "attribute_vertex \<Rightarrow> storage_key" where
  "attribute_key a \<equiv> thing_storage_key (AttributeKey a)"

definition lock_existing_object :: "object_vertex \<Rightarrow> write_snapshot \<Rightarrow> write_snapshot" where
  "lock_existing_object object snapshot = ws_unmodifiable_lock_add (object_key object) snapshot"

definition lock_existing_attribute :: "attribute_vertex \<Rightarrow> write_snapshot \<Rightarrow> write_snapshot" where
  "lock_existing_attribute attribute snapshot = ws_unmodifiable_lock_add (attribute_key attribute) snapshot"

definition set_required_object :: "keyspaces \<Rightarrow> object_vertex \<Rightarrow> write_snapshot \<Rightarrow> write_snapshot option" where
  "set_required_object storage object snapshot = do {
     status \<leftarrow> concept_get_status storage snapshot (object_key object);
     Some (if status = StatusPersisted then lock_existing_object object snapshot else snapshot) }"

definition set_required_attribute :: "attribute_vertex \<Rightarrow> write_snapshot \<Rightarrow> write_snapshot" where
  "set_required_attribute attribute snapshot = lock_existing_attribute attribute snapshot"

text \<open>The value of a pending put; a pending insert is unreachable.\<close>

definition get_snapshot_put_value :: "write_snapshot \<Rightarrow> storage_key \<Rightarrow> bytes option option" where
  "get_snapshot_put_value snapshot key = do {
     buffered \<leftarrow> ws_get_write snapshot key;
     (case buffered of
        None \<Rightarrow> Some None
      | Some (Put val _ _) \<Rightarrow> Some (Some val)
      | Some Delete \<Rightarrow> Some None
      | Some (Insert _) \<Rightarrow> None) }"

section \<open>Ownership\<close>

abbreviation has_edge :: "object_vertex \<Rightarrow> attribute_vertex \<Rightarrow> thing_key" where
  "has_edge owner attribute \<equiv> HasKey \<lparr> has_owner = owner, has_attribute = attribute \<rparr>"

abbreviation has_reverse_edge :: "attribute_vertex \<Rightarrow> object_vertex \<Rightarrow> thing_key" where
  "has_reverse_edge attribute owner \<equiv> HasReverseKey \<lparr> hasr_attribute = attribute, hasr_owner = owner \<rparr>"

definition owner_has_attribute :: "keyspaces \<Rightarrow> write_snapshot \<Rightarrow> object_vertex \<Rightarrow> attribute_vertex \<Rightarrow> bool option" where
  "owner_has_attribute storage snapshot owner attribute = do {
     found \<leftarrow> ws_get storage snapshot (thing_storage_key (has_edge owner attribute));
     Some (found \<noteq> None) }"

definition unset_has :: "keyspaces \<Rightarrow> object_vertex \<Rightarrow> attribute_vertex \<Rightarrow> write_snapshot \<Rightarrow> write_snapshot option" where
  "unset_has storage owner attribute snapshot = do {
     let has = thing_storage_key (has_edge owner attribute);
     let has_reverse = thing_storage_key (has_reverse_edge attribute owner);
     owner_status \<leftarrow> concept_get_status storage snapshot (object_key owner);
     snapshot_value_opt \<leftarrow> get_snapshot_put_value snapshot has;
     snapshot \<leftarrow>
       (case snapshot_value_opt of
          Some snapshot_value \<Rightarrow> do {
            snapshot \<leftarrow> ws_unput_val has snapshot_value snapshot;
            ws_unput_val has_reverse snapshot_value snapshot }
        | None \<Rightarrow> Some snapshot);
     if owner_status \<noteq> StatusInserted then do {
       has_attribute \<leftarrow> owner_has_attribute storage snapshot owner attribute;
       if has_attribute then do {
         snapshot \<leftarrow> ws_delete has snapshot;
         ws_delete has_reverse snapshot }
       else Some snapshot }
     else Some snapshot }"

text \<open>The validations against the schema come first and change nothing; \<open>validate\<close> stands for them.\<close>

definition set_has_count ::
    "(write_snapshot \<Rightarrow> object_vertex \<Rightarrow> attribute_vertex \<Rightarrow> 'e + unit) \<Rightarrow> keyspaces \<Rightarrow>
     object_vertex \<Rightarrow> attribute_vertex \<Rightarrow> 64 word \<Rightarrow> write_snapshot \<Rightarrow> (('e + unit) \<times> write_snapshot) option" where
  "set_has_count validate storage owner attribute count' snapshot =
     (case validate snapshot owner attribute of
        Inl err \<Rightarrow> Some (Inl err, snapshot)
      | Inr _ \<Rightarrow>
          if count' = 0 then do {
            snapshot \<leftarrow> unset_has storage owner attribute snapshot;
            Some (Inr (), snapshot) }
          else do {
            snapshot \<leftarrow> set_required_object storage owner snapshot;
            let snapshot = set_required_attribute attribute snapshot;
            snapshot \<leftarrow> ws_put_val (thing_storage_key (has_edge owner attribute)) (encode_u64 count') snapshot;
            snapshot \<leftarrow> ws_put_val (thing_storage_key (has_reverse_edge attribute owner)) (encode_u64 count') snapshot;
            Some (Inr (), snapshot) })"

definition set_has_unordered ::
    "(write_snapshot \<Rightarrow> object_vertex \<Rightarrow> attribute_vertex \<Rightarrow> 'e + unit) \<Rightarrow> keyspaces \<Rightarrow>
     object_vertex \<Rightarrow> attribute_vertex \<Rightarrow> write_snapshot \<Rightarrow> (('e + unit) \<times> write_snapshot) option" where
  "set_has_unordered validate storage owner attribute snapshot = set_has_count validate storage owner attribute 1 snapshot"

section \<open>Players\<close>

text \<open>A role type is named by its type identifier.\<close>

definition role_vertex :: "type_id \<Rightarrow> type_vertex" where
  "role_vertex role = type_vertex_new (prefix_id VertexRoleType) role"

abbreviation links_edge :: "object_vertex \<Rightarrow> object_vertex \<Rightarrow> type_id \<Rightarrow> thing_key" where
  "links_edge relation player role \<equiv> LinksKey (links_new relation player (role_vertex role))"

abbreviation links_reverse_edge :: "object_vertex \<Rightarrow> object_vertex \<Rightarrow> type_id \<Rightarrow> thing_key" where
  "links_reverse_edge player relation role \<equiv> LinksKey (links_new_reverse player relation (role_vertex role))"

abbreviation index_edge :: "object_vertex \<Rightarrow> object_vertex \<Rightarrow> object_vertex \<Rightarrow> type_id \<Rightarrow> type_id \<Rightarrow> thing_key" where
  "index_edge player_from player_to relation role_from role_to \<equiv> IndexedKey (indexed_new player_from player_to relation role_from role_to)"

definition decode_value_u64 :: "bytes \<Rightarrow> 64 word option" where
  "decode_value_u64 bytes' = (if length bytes' = 8 then Some (decode_u64 bytes') else None)"

definition object_new :: "object_vertex \<Rightarrow> object_vertex option" where
  "object_new vertex = (if ov_prefix vertex = VertexEntity \<or> ov_prefix vertex = VertexRelation then Some vertex else None)"

text \<open>The items of the links iterators: an edge and its count.\<close>

definition storage_key_edge_to_links :: "storage_key \<times> bytes \<Rightarrow> (thing_edge_links \<times> 64 word) option" where
  "storage_key_edge_to_links item = do {
     edge \<leftarrow> links_decode (snd (fst item));
     count' \<leftarrow> decode_value_u64 (snd item);
     Some (edge, count') }"

definition into_role_player :: "thing_edge_links \<times> 64 word \<Rightarrow> (object_vertex \<times> type_id \<times> 64 word) option" where
  "into_role_player item = do {
     player \<leftarrow> object_new (lk_player (fst item));
     Some (player, lk_role_id (fst item), snd item) }"

definition into_relation_role :: "thing_edge_links \<times> 64 word \<Rightarrow> object_vertex \<times> type_id \<times> 64 word" where
  "into_relation_role item = (lk_relation (fst item), lk_role_id (fst item), snd item)"

definition get_role_players ::
    "keyspaces \<Rightarrow> write_snapshot \<Rightarrow> object_vertex \<Rightarrow> (object_vertex \<times> type_id \<times> 64 word) list option" where
  "get_role_players storage snapshot relation = do {
     let prefix' = (keyspace_id_of links_keyspace, links_prefix_from_relation relation);
     iterator \<leftarrow> ws_iterate_range storage snapshot (new_within prefix' (fixed_width_keys EdgeLinks));
     items \<leftarrow> drain si_next iterator;
     those (map (\<lambda>item. do { links \<leftarrow> storage_key_edge_to_links item; into_role_player links }) items) }"

definition get_player_relations_roles ::
    "keyspaces \<Rightarrow> write_snapshot \<Rightarrow> object_vertex \<Rightarrow> (object_vertex \<times> type_id \<times> 64 word) list option" where
  "get_player_relations_roles storage snapshot player = do {
     let prefix' = (keyspace_id_of links_keyspace, links_prefix_reverse_from_player player);
     iterator \<leftarrow> ws_iterate_range storage snapshot (new_within prefix' (fixed_width_keys EdgeLinksReverse));
     items \<leftarrow> drain si_next iterator;
     those (map (\<lambda>item. do { links \<leftarrow> storage_key_edge_to_links item; Some (into_relation_role links) }) items) }"

definition has_role_player :: "keyspaces \<Rightarrow> write_snapshot \<Rightarrow> object_vertex \<Rightarrow> object_vertex \<Rightarrow> type_id \<Rightarrow> bool option" where
  "has_role_player storage snapshot relation player role = do {
     found \<leftarrow> ws_get storage snapshot (thing_storage_key (links_edge relation player role));
     Some (found \<noteq> None) }"

definition is_same_role_player :: "object_vertex \<Rightarrow> type_id \<Rightarrow> object_vertex \<Rightarrow> type_id \<Rightarrow> bool" where
  "is_same_role_player self self_role other other_role \<longleftrightarrow> self = other \<and> self_role = other_role"

subsection \<open>The index of pairs of players\<close>

definition index_regenerate_step ::
    "object_vertex \<Rightarrow> object_vertex \<Rightarrow> type_id \<Rightarrow> 64 word \<Rightarrow> object_vertex \<times> type_id \<times> 64 word \<Rightarrow> write_snapshot \<Rightarrow> write_snapshot option" where
  "index_regenerate_step relation player role count_for_player rp snapshot =
     (case rp of (rp_player, rp_role, rp_count) \<Rightarrow>
        if is_same_role_player rp_player rp_role player role then
          let player_repetitions = count_for_player - 1
          in if player_repetitions > 0
             then ws_put_val (thing_storage_key (index_edge player player relation role role)) (encode_u64 player_repetitions) snapshot
             else Some snapshot
        else do {
          snapshot \<leftarrow> ws_put_val (thing_storage_key (index_edge player rp_player relation role rp_role)) (encode_u64 rp_count) snapshot;
          ws_put_val (thing_storage_key (index_edge rp_player player relation rp_role role)) (encode_u64 count_for_player) snapshot })"

definition relation_index_player_regenerate ::
    "keyspaces \<Rightarrow> object_vertex \<Rightarrow> object_vertex \<Rightarrow> type_id \<Rightarrow> 64 word \<Rightarrow> write_snapshot \<Rightarrow> write_snapshot option" where
  "relation_index_player_regenerate storage relation player role count_for_player snapshot = do {
     players \<leftarrow> get_role_players storage snapshot relation;
     for_each (index_regenerate_step relation player role count_for_player) players snapshot }"

text \<open>\<^verbatim>\<open>if let Some(value) = get_snapshot_put_value(..) \{ unput_val(..) \}\<close>.\<close>

definition unput_if_put :: "storage_key \<Rightarrow> write_snapshot \<Rightarrow> write_snapshot option" where
  "unput_if_put key snapshot = do {
     snapshot_value_opt \<leftarrow> get_snapshot_put_value snapshot key;
     (case snapshot_value_opt of
        Some snapshot_value \<Rightarrow> ws_unput_val key snapshot_value snapshot
      | None \<Rightarrow> Some snapshot) }"

definition index_remove_step ::
    "keyspaces \<Rightarrow> object_vertex \<Rightarrow> object_vertex \<Rightarrow> type_id \<Rightarrow> object_vertex \<times> type_id \<times> 64 word \<Rightarrow> write_snapshot \<Rightarrow> write_snapshot option" where
  "index_remove_step storage relation player role rp snapshot =
     (case rp of (rp_player, rp_role, _) \<Rightarrow> do {
        let edge = indexed_new player rp_player relation role rp_role;
        let index = thing_storage_key (IndexedKey edge);
        let index_reverse = thing_storage_key (IndexedKey (indexed_into_reverse edge));
        snapshot \<leftarrow> unput_if_put index snapshot;
        snapshot \<leftarrow> unput_if_put index_reverse snapshot;
        found \<leftarrow> ws_get storage snapshot index;
        if found \<noteq> None then do {
          snapshot \<leftarrow> ws_delete index snapshot;
          if \<not> is_same_role_player rp_player rp_role player role then ws_delete index_reverse snapshot else Some snapshot }
        else Some snapshot })"

definition relation_index_player_remove ::
    "keyspaces \<Rightarrow> object_vertex \<Rightarrow> object_vertex \<Rightarrow> type_id \<Rightarrow> write_snapshot \<Rightarrow> write_snapshot option" where
  "relation_index_player_remove storage relation player role snapshot = do {
     players \<leftarrow> get_role_players storage snapshot relation;
     for_each (index_remove_step storage relation player role) players snapshot }"

subsection \<open>Adding and removing players\<close>

text \<open>The end of the operations on players: the index is brought up to date when the schema provides one for the type of
  the relation.\<close>

definition with_index ::
    "(write_snapshot \<Rightarrow> type_id \<Rightarrow> 'e + bool) \<Rightarrow> object_vertex \<Rightarrow> (write_snapshot \<Rightarrow> write_snapshot option) \<Rightarrow>
     write_snapshot \<Rightarrow> (('e + unit) \<times> write_snapshot) option" where
  "with_index relation_index_available relation update snapshot =
     (case relation_index_available snapshot (ov_type_id relation) of
        Inl err \<Rightarrow> Some (Inl err, snapshot)
      | Inr available \<Rightarrow>
          if available then do { snapshot \<leftarrow> update snapshot; Some (Inr (), snapshot) }
          else Some (Inr (), snapshot))"

definition put_links_unordered ::
    "(write_snapshot \<Rightarrow> type_id \<Rightarrow> 'e + bool) \<Rightarrow> keyspaces \<Rightarrow> object_vertex \<Rightarrow> object_vertex \<Rightarrow> type_id \<Rightarrow>
     write_snapshot \<Rightarrow> (('e + unit) \<times> write_snapshot) option" where
  "put_links_unordered relation_index_available storage relation player role snapshot = do {
     let count' = 1;
     snapshot \<leftarrow> set_required_object storage relation snapshot;
     snapshot \<leftarrow> set_required_object storage player snapshot;
     snapshot \<leftarrow> ws_put_val (thing_storage_key (links_edge relation player role)) (encode_u64 count') snapshot;
     snapshot \<leftarrow> ws_put_val (thing_storage_key (links_reverse_edge player relation role)) (encode_u64 count') snapshot;
     with_index relation_index_available relation (relation_index_player_regenerate storage relation player role 1) snapshot }"

definition unset_links ::
    "(write_snapshot \<Rightarrow> type_id \<Rightarrow> 'e + bool) \<Rightarrow> keyspaces \<Rightarrow> object_vertex \<Rightarrow> object_vertex \<Rightarrow> type_id \<Rightarrow>
     write_snapshot \<Rightarrow> (('e + unit) \<times> write_snapshot) option" where
  "unset_links relation_index_available storage relation player role snapshot = do {
     let links = thing_storage_key (links_edge relation player role);
     let links_reverse = thing_storage_key (links_reverse_edge player relation role);
     relation_status \<leftarrow> concept_get_status storage snapshot (object_key relation);
     snapshot_value_opt \<leftarrow> get_snapshot_put_value snapshot links;
     snapshot \<leftarrow>
       (case snapshot_value_opt of
          Some snapshot_value \<Rightarrow> do {
            snapshot \<leftarrow> ws_unput_val links snapshot_value snapshot;
            ws_unput_val links_reverse snapshot_value snapshot }
        | None \<Rightarrow> Some snapshot);
     snapshot \<leftarrow>
       (if relation_status \<noteq> StatusInserted then do {
          is_player \<leftarrow> has_role_player storage snapshot relation player role;
          if is_player then do {
            snapshot \<leftarrow> ws_delete links snapshot;
            ws_delete links_reverse snapshot }
          else Some snapshot }
        else Some snapshot);
     with_index relation_index_available relation (relation_index_player_remove storage relation player role) snapshot }"

definition set_links_count ::
    "(write_snapshot \<Rightarrow> type_id \<Rightarrow> 'e + bool) \<Rightarrow> keyspaces \<Rightarrow> object_vertex \<Rightarrow> object_vertex \<Rightarrow> type_id \<Rightarrow> 64 word \<Rightarrow>
     write_snapshot \<Rightarrow> (('e + unit) \<times> write_snapshot) option" where
  "set_links_count relation_index_available storage relation player role count' snapshot =
     (if count' = 0 then unset_links relation_index_available storage relation player role snapshot
      else do {
        snapshot \<leftarrow> set_required_object storage relation snapshot;
        snapshot \<leftarrow> set_required_object storage player snapshot;
        snapshot \<leftarrow> ws_put_val (thing_storage_key (links_edge relation player role)) (encode_u64 count') snapshot;
        snapshot \<leftarrow> ws_put_val (thing_storage_key (links_reverse_edge player relation role)) (encode_u64 count') snapshot;
        with_index relation_index_available relation (relation_index_player_regenerate storage relation player role count') snapshot })"

text \<open>The stored count of a player, decoded.\<close>

definition links_count :: "keyspaces \<Rightarrow> write_snapshot \<Rightarrow> storage_key \<Rightarrow> 64 word option option" where
  "links_count storage snapshot key = do {
     found \<leftarrow> ws_get storage snapshot key;
     (case found of None \<Rightarrow> Some None | Some arr \<Rightarrow> map_option Some (decode_value_u64 arr)) }"

definition increment_links_count ::
    "(write_snapshot \<Rightarrow> type_id \<Rightarrow> 'e + bool) \<Rightarrow> keyspaces \<Rightarrow> object_vertex \<Rightarrow> object_vertex \<Rightarrow> type_id \<Rightarrow>
     write_snapshot \<Rightarrow> (('e + unit) \<times> write_snapshot) option" where
  "increment_links_count relation_index_available storage relation player role snapshot = do {
     count' \<leftarrow> links_count storage snapshot (thing_storage_key (links_edge relation player role));
     set_links_count relation_index_available storage relation player role
       ((case count' of None \<Rightarrow> 0 | Some c \<Rightarrow> c) + 1) snapshot }"

text \<open>The error of removing more players than there are; its report reads labels, so it is a parameter.\<close>

definition validate_links_count_to_remove_players ::
    "(write_snapshot \<Rightarrow> object_vertex \<Rightarrow> object_vertex \<Rightarrow> type_id \<Rightarrow> 64 word \<Rightarrow> 64 word \<Rightarrow> 'e) \<Rightarrow> write_snapshot \<Rightarrow>
     object_vertex \<Rightarrow> object_vertex \<Rightarrow> type_id \<Rightarrow> 64 word option \<Rightarrow> 64 word \<Rightarrow> 'e + unit" where
  "validate_links_count_to_remove_players remove_deleted_players snapshot relation player role current_count decrement_count =
     (let current_count = (case current_count of None \<Rightarrow> 0 | Some c \<Rightarrow> c)
      in if current_count < decrement_count
         then Inl (remove_deleted_players snapshot relation player role current_count decrement_count)
         else Inr ())"

definition decrement_links_count ::
    "(write_snapshot \<Rightarrow> type_id \<Rightarrow> 'e + bool) \<Rightarrow>
     (write_snapshot \<Rightarrow> object_vertex \<Rightarrow> object_vertex \<Rightarrow> type_id \<Rightarrow> 64 word \<Rightarrow> 64 word \<Rightarrow> 'e) \<Rightarrow> keyspaces \<Rightarrow>
     object_vertex \<Rightarrow> object_vertex \<Rightarrow> type_id \<Rightarrow> 64 word \<Rightarrow> write_snapshot \<Rightarrow> (('e + unit) \<times> write_snapshot) option" where
  "decrement_links_count relation_index_available remove_deleted_players storage relation player role decrement_count snapshot = do {
     count' \<leftarrow> links_count storage snapshot (thing_storage_key (links_edge relation player role));
     (case validate_links_count_to_remove_players remove_deleted_players snapshot relation player role count' decrement_count of
        Inl err \<Rightarrow> Some (Inl err, snapshot)
      | Inr _ \<Rightarrow> do {
          count' \<leftarrow> count';
          set_links_count relation_index_available storage relation player role (count' - decrement_count) snapshot }) }"

section \<open>Objects\<close>

definition delete_object :: "keyspaces \<Rightarrow> storage_key \<Rightarrow> write_snapshot \<Rightarrow> write_snapshot option" where
  "delete_object storage key snapshot = do {
     status \<leftarrow> concept_get_status storage snapshot key;
     let snapshot = ws_unmodifiable_lock_remove key snapshot;
     (case status of
        StatusInserted \<Rightarrow> ws_uninsert key snapshot
      | StatusPersisted \<Rightarrow> ws_delete key snapshot
      | StatusDeleted \<Rightarrow> Some snapshot
      | StatusPut \<Rightarrow> None) }"

end
