(* ===== verification/ThingEdges.thy ===== *)
theory ThingEdges
  imports ThingManager
begin

text \<open>
  The pending and committed edges of a transaction: the keys a database holds, the invariant that an edge and its reversed
  edge agree, and what setting and removing an ownership and deleting an object do to what a reader of the snapshot sees.
\<close>

section \<open>Sound graphs\<close>

declare thing_storage_key.simps [simp del]

text \<open>Things whose vertices are of the right kind.\<close>

fun thing_wf :: "thing_key \<Rightarrow> bool" where
  "thing_wf (ObjectKey v) = object_vertex_wf v"
| "thing_wf (AttributeKey a) = attribute_vertex_wf a"
| "thing_wf (HasKey e) \<longleftrightarrow> object_vertex_wf (has_owner e) \<and> attribute_vertex_wf (has_attribute e)"
| "thing_wf (HasReverseKey e) \<longleftrightarrow> object_vertex_wf (hasr_owner e) \<and> attribute_vertex_wf (hasr_attribute e)"
| "thing_wf (LinksKey e) \<longleftrightarrow> ov_prefix (lk_relation e) = VertexRelation \<and> object_vertex_wf (lk_player e)"
| "thing_wf (IndexedKey e) = True"

lemma thing_wf_key: "thing_wf t \<Longrightarrow> thing_key_wf t"
  by (cases t) auto

text \<open>The keys of a database: things in their keyspaces, and in the default keyspace also schema keys, which start with
  other prefixes.\<close>

definition thing_prefixes :: "key_prefix set" where
  "thing_prefixes = {VertexEntity, VertexRelation, VertexAttribute, EdgeHas, EdgeHasReverse, EdgeLinks, EdgeLinksReverse, EdgeLinksIndex}"

definition graph_key :: "storage_key \<Rightarrow> bool" where
  "graph_key key \<longleftrightarrow> (\<exists>t. thing_wf t \<and> thing_storage_key t = key) \<or>
     (fst key = keyspace_id_of DefaultOptimisedPrefix11 \<and> (\<exists>b bs. snd key = b # bs \<and> b \<notin> prefix_id ` thing_prefixes))"

definition graph_ok :: "keyspaces \<Rightarrow> write_snapshot \<Rightarrow> bool" where
  "graph_ok storage s \<longleftrightarrow> storage_wf storage \<and> ws_wf s \<and> range keyspace_id_of \<subseteq> kss_ids storage \<and>
     (\<forall>i. \<forall>k \<in> stored_keys storage i. graph_key (i, k)) \<and> (\<forall>key. ws_writes s key \<noteq> None \<longrightarrow> graph_key key)"

lemma graph_okD:
  assumes "graph_ok storage s"
  shows "storage_wf storage" "ws_wf s" "keyspace_id_of ks \<in> kss_ids storage"
    "k \<in> stored_keys storage i \<Longrightarrow> graph_key (i, k)" "ws_writes s key = Some w \<Longrightarrow> graph_key key"
  using assms unfolding graph_ok_def by blast+

lemma keyspace_of_small: "keyspace_id_of ks < KEYSPACE_MAXIMUM_COUNT"
  by (cases ks) (simp_all add: KEYSPACE_MAXIMUM_COUNT_def)

lemma thing_keyspace: "\<exists>ks. fst (thing_storage_key t) = keyspace_id_of ks"
  by (cases t) (auto simp: thing_storage_key.simps simp del: keyspace_id_of.simps)

lemma thing_keyspace_small [simp]: "fst (thing_storage_key t) < KEYSPACE_MAXIMUM_COUNT"
  using thing_keyspace[of t] keyspace_of_small by auto

lemma thing_prefix_mem: "thing_key_wf t \<Longrightarrow> thing_key_prefix t \<in> thing_prefixes"
  by (cases t) (auto simp: thing_prefixes_def object_vertex_wf_def)

lemma thing_key_inj: "thing_wf t \<Longrightarrow> thing_wf u \<Longrightarrow> thing_storage_key t = thing_storage_key u \<longleftrightarrow> t = u"
  using thing_key_prefix_free[of t u] thing_wf_key by auto

lemma graph_key_thing [simp, intro]: "thing_wf t \<Longrightarrow> graph_key (thing_storage_key t)"
  unfolding graph_key_def by blast

text \<open>No key of a database is a proper prefix of the key of a thing, or of a scan prefix of one.\<close>

lemma graph_key_prefix:
  assumes "graph_key (i, k)" "thing_wf t" "prefix k (snd (thing_storage_key t))"
  shows "k = snd (thing_storage_key t)"
  using assms(1) unfolding graph_key_def
proof (elim disjE exE conjE)
  fix u assume "thing_wf u" "thing_storage_key u = (i, k)"
  then show ?thesis using thing_key_prefix_free[of u t] assms(2,3) thing_wf_key by auto
next
  fix b bs assume "snd (i, k) = b # bs" "b \<notin> prefix_id ` thing_prefixes"
  moreover obtain cs where "snd (thing_storage_key t) = prefix_id (thing_key_prefix t) # cs"
    using thing_key_first thing_wf_key assms(2) by blast
  ultimately show ?thesis using assms(2,3) thing_prefix_mem thing_wf_key by force
qed

lemma graph_key_not_strict:
  assumes "graph_key (i, k)" "thing_wf t" "prefix p (snd (thing_storage_key t))"
  shows "\<not> strict_prefix k p"
proof
  assume "strict_prefix k p"
  then have "prefix k p" "k \<noteq> p" by (auto simp: strict_prefix_def)
  then have "k = snd (thing_storage_key t)" using graph_key_prefix[OF assms(1,2)] assms(3) prefix_order.trans by blast
  then show False using \<open>prefix k p\<close> \<open>k \<noteq> p\<close> assms(3) by (simp add: prefix_order.antisym)
qed

lemma stored_entry:
  assumes "storage_wf storage" "kss_get storage i = Some k" "e \<in> set (mb_data (ksp_backend k))"
  shows "ukey (fst e) \<in> stored_keys storage i"
proof -
  have "fst e \<in> dom (kss_contents storage i)"
    using assms dom_kss_contents[of storage i k] by (simp add: storage_wf_def)
  then show ?thesis unfolding stored_keys_def by (rule imageI)
qed

lemma graph_get_ok:
  assumes "graph_ok storage s" "thing_wf t"
  shows "get_ok storage (thing_storage_key t)"
  unfolding get_ok_def
proof (intro conjI allI impI ballI)
  show "fst (thing_storage_key t) \<in> kss_ids storage" using thing_keyspace[of t] graph_okD(3)[OF assms(1)] by auto
next
  fix k e assume "kss_get storage (fst (thing_storage_key t)) = Some k" "e \<in> set (mb_data (ksp_backend k))"
  then have "graph_key (fst (thing_storage_key t), ukey (fst e))"
    using stored_entry graph_okD(1,4)[OF assms(1)] by blast
  then show "\<not> strict_prefix (ukey (fst e)) (snd (thing_storage_key t))"
    using graph_key_not_strict[OF _ assms(2)] by blast
qed

section \<open>Reads\<close>

lemma graph_get:
  assumes "graph_ok storage s" "thing_wf t"
  shows "ws_get_write s (thing_storage_key t) = Some (ws_writes s (thing_storage_key t))"
    and "ws_get storage s (thing_storage_key t) = Some (ws_view storage s (thing_storage_key t))"
    and "ws_writes s (thing_storage_key t) = None \<Longrightarrow>
      ws_get_last_existing storage s (thing_storage_key t) = Some (committed storage (ws_open_sequence_number s) (thing_storage_key t))"
proof -
  show w: "ws_get_write s (thing_storage_key t) = Some (ws_writes s (thing_storage_key t))"
    using graph_okD(2)[OF assms(1)] by (simp add: ws_get_write_spec)
  show "ws_get storage s (thing_storage_key t) = Some (ws_view storage s (thing_storage_key t))"
    using graph_okD(1,2)[OF assms(1)] graph_get_ok[OF assms] by (simp add: ws_get_spec)
  show "ws_writes s (thing_storage_key t) = None \<Longrightarrow>
      ws_get_last_existing storage s (thing_storage_key t) = Some (committed storage (ws_open_sequence_number s) (thing_storage_key t))"
    using w storage_get_committed[OF graph_okD(1)[OF assms(1)] graph_get_ok[OF assms]] by (simp add: ws_get_last_existing_def)
qed

definition status_of :: "buffered_write option \<Rightarrow> bytes option \<Rightarrow> concept_status" where
  "status_of w c =
     (case w of
        Some (Insert _) \<Rightarrow> StatusInserted | Some (Put _ _ _) \<Rightarrow> StatusPut | Some Delete \<Rightarrow> StatusDeleted
      | None \<Rightarrow> if c \<noteq> None then StatusPersisted else StatusDeleted)"

lemma graph_status:
  assumes "graph_ok storage s" "thing_wf t"
  shows "concept_get_status storage s (thing_storage_key t) =
    Some (status_of (ws_writes s (thing_storage_key t)) (committed storage (ws_open_sequence_number s) (thing_storage_key t)))"
  using graph_get[OF assms] by (auto simp: concept_get_status_def status_of_def split: option.splits buffered_write.splits)

section \<open>Writes\<close>

text \<open>A computation that returns, keeps the graph sound, and leaves the given pending writes and locks.\<close>

definition goes :: "keyspaces \<Rightarrow> write_snapshot option \<Rightarrow> seq \<Rightarrow> (storage_key \<rightharpoonup> buffered_write) \<Rightarrow> (bytes \<rightharpoonup> lock_type) \<Rightarrow> bool" where
  "goes storage r n w l \<longleftrightarrow>
     (\<exists>s. r = Some s \<and> graph_ok storage s \<and> ws_open_sequence_number s = n \<and> ws_writes s = w \<and> ws_locks s = l)"

lemma goes_Some: "graph_ok storage s \<Longrightarrow> goes storage (Some s) (ws_open_sequence_number s) (ws_writes s) (ws_locks s)"
  by (simp add: goes_def)

lemma goes_bind:
  assumes "goes storage r n w l"
    and "\<And>s. graph_ok storage s \<Longrightarrow> ws_open_sequence_number s = n \<Longrightarrow> ws_writes s = w \<Longrightarrow> ws_locks s = l \<Longrightarrow> goes storage (f s) n' w' l'"
  shows "goes storage (Option.bind r f) n' w' l'"
  using assms unfolding goes_def by auto

lemma goes_becomes:
  assumes "graph_ok storage s" "ws_becomes r n w l" "\<And>key. w key \<noteq> None \<Longrightarrow> graph_key key"
  shows "goes storage r n w l"
  using assms unfolding goes_def ws_becomes_def graph_ok_def by blast

lemma graph_ok_updates:
  assumes "graph_ok storage s" "thing_wf t"
  shows "((ws_writes s)(thing_storage_key t := x)) key \<noteq> None \<Longrightarrow> graph_key key"
  using assms graph_okD(5)[OF assms(1), of key] graph_key_thing[OF assms(2)] by (auto split: if_splits)

lemma goes_put:
  assumes "graph_ok storage s" "thing_wf t"
  shows "goes storage (ws_put_val (thing_storage_key t) v s) (ws_open_sequence_number s)
    ((ws_writes s)(thing_storage_key t \<mapsto> Put v False False)) (ws_locks s)"
  by (rule goes_becomes[OF assms(1)]) (simp_all add: ws_write_ops(2)[OF graph_okD(2)[OF assms(1)]] graph_ok_updates[OF assms] del: fun_upd_apply)

lemma goes_delete:
  assumes "graph_ok storage s" "thing_wf t"
  shows "goes storage (ws_delete (thing_storage_key t) s) (ws_open_sequence_number s)
    ((ws_writes s)(thing_storage_key t \<mapsto> Delete)) (ws_locks s)"
  by (rule goes_becomes[OF assms(1)]) (simp_all add: ws_write_ops(3)[OF graph_okD(2)[OF assms(1)]] graph_ok_updates[OF assms] del: fun_upd_apply)

lemma goes_unput:
  assumes "graph_ok storage s" "thing_wf t" "ws_writes s (thing_storage_key t) = Some (Put v r e)"
  shows "goes storage (ws_unput_val (thing_storage_key t) v s) (ws_open_sequence_number s)
    ((ws_writes s)(thing_storage_key t := None)) (ws_locks s)"
  by (rule goes_becomes[OF assms(1)])
    (simp_all add: ws_unwrite_ops(3)[OF graph_okD(2)[OF assms(1)] _ assms(3)] graph_ok_updates[OF assms(1,2)] del: fun_upd_apply)

lemma goes_lock:
  assumes "graph_ok storage s"
  shows "goes storage (Some (ws_unmodifiable_lock_add key s)) (ws_open_sequence_number s) (ws_writes s) ((ws_locks s)(snd key \<mapsto> Unmodifiable))"
    and "goes storage (Some (ws_unmodifiable_lock_remove key s)) (ws_open_sequence_number s) (ws_writes s) ((ws_locks s)(snd key := None))"
  by (rule goes_becomes[OF assms], rule ws_lock_ops[OF graph_okD(2)[OF assms]], use graph_okD(5)[OF assms] in blast)+

subsection \<open>An edge and its reversed edge\<close>

fun edge_reverse :: "thing_key \<Rightarrow> thing_key" where
  "edge_reverse (HasKey e) = has_reverse_edge (has_attribute e) (has_owner e)"
| "edge_reverse (HasReverseKey e) = has_edge (hasr_owner e) (hasr_attribute e)"
| "edge_reverse (LinksKey e) = LinksKey (e\<lparr> lk_is_reverse := \<not> lk_is_reverse e \<rparr>)"
| "edge_reverse t = t"

fun is_edge :: "thing_key \<Rightarrow> bool" where
  "is_edge (ObjectKey _) = False"
| "is_edge (AttributeKey _) = False"
| "is_edge _ = True"

lemma edge_reverse_reverse [simp]: "edge_reverse (edge_reverse t) = t"
  by (cases t) auto

lemma edge_reverse_wf [simp]: "thing_wf (edge_reverse t) = thing_wf t" "is_edge (edge_reverse t) = is_edge t"
  by (cases t; simp)+

lemma edge_reverse_eq: "edge_reverse t = u \<longleftrightarrow> t = edge_reverse u"
  by (metis edge_reverse_reverse)

lemma edges_reverse:
  "edge_reverse (has_edge v a) = has_reverse_edge a v"
  "edge_reverse (links_edge r p t) = links_reverse_edge p r t"
  by (simp_all add: links_new_def links_new_reverse_def)

lemma edges_wf:
  "thing_wf (has_edge v a) \<longleftrightarrow> object_vertex_wf v \<and> attribute_vertex_wf a"
  "thing_wf (links_edge r p t) \<longleftrightarrow> ov_prefix r = VertexRelation \<and> object_vertex_wf p"
  by (simp_all add: links_new_def)

lemma edges_not_own_reverse: "edge_reverse (has_edge v a) \<noteq> has_edge v a" "edge_reverse (LinksKey e) \<noteq> LinksKey e"
  by (auto dest: arg_cong[of _ _ lk_is_reverse])

definition mirrored :: "(storage_key \<rightharpoonup> 'v) \<Rightarrow> bool" where
  "mirrored m \<longleftrightarrow> (\<forall>t. thing_wf t \<longrightarrow> m (thing_storage_key (edge_reverse t)) = m (thing_storage_key t))"

lemma mirrored_update:
  assumes "mirrored m" "thing_wf t"
  shows "mirrored (m(thing_storage_key t := x, thing_storage_key (edge_reverse t) := x))"
  using assms unfolding mirrored_def by (auto simp: thing_key_inj edge_reverse_eq)

text \<open>The part of \<open>unset_has\<close> and \<open>unset_links\<close> that takes back or deletes an edge and its reversed edge.\<close>

definition unset_edge :: "keyspaces \<Rightarrow> bool \<Rightarrow> storage_key \<Rightarrow> storage_key \<Rightarrow> write_snapshot \<Rightarrow> write_snapshot option" where
  "unset_edge storage inserted key key_reverse snapshot = do {
     snapshot_value_opt \<leftarrow> get_snapshot_put_value snapshot key;
     snapshot \<leftarrow>
       (case snapshot_value_opt of
          Some snapshot_value \<Rightarrow> do {
            snapshot \<leftarrow> ws_unput_val key snapshot_value snapshot;
            ws_unput_val key_reverse snapshot_value snapshot }
        | None \<Rightarrow> Some snapshot);
     if \<not> inserted then do {
       found \<leftarrow> ws_get storage snapshot key;
       if found \<noteq> None then do {
         snapshot \<leftarrow> ws_delete key snapshot;
         ws_delete key_reverse snapshot }
       else Some snapshot }
     else Some snapshot }"

definition unset_writes ::
    "(storage_key \<rightharpoonup> bytes) \<Rightarrow> bool \<Rightarrow> storage_key \<Rightarrow> storage_key \<Rightarrow> (storage_key \<rightharpoonup> buffered_write) \<Rightarrow> storage_key \<rightharpoonup> buffered_write" where
  "unset_writes c inserted k k' w =
     (let w1 = (if map_option is_put (w k) = Some True then w(k := None, k' := None) else w)
      in if \<not> inserted \<and> view c w1 k \<noteq> None then w1(k \<mapsto> Delete, k' \<mapsto> Delete) else w1)"

lemma goes_both:
  assumes "graph_ok storage s" "thing_wf t" "thing_wf u"
  shows "goes storage (do { s \<leftarrow> ws_delete (thing_storage_key t) s; ws_delete (thing_storage_key u) s }) (ws_open_sequence_number s)
      ((ws_writes s)(thing_storage_key t \<mapsto> Delete, thing_storage_key u \<mapsto> Delete)) (ws_locks s)"
    and "goes storage (do { s \<leftarrow> ws_put_val (thing_storage_key t) v s; ws_put_val (thing_storage_key u) v' s }) (ws_open_sequence_number s)
      ((ws_writes s)(thing_storage_key t \<mapsto> Put v False False, thing_storage_key u \<mapsto> Put v' False False)) (ws_locks s)"
proof -
  show "goes storage (do { s \<leftarrow> ws_delete (thing_storage_key t) s; ws_delete (thing_storage_key u) s }) (ws_open_sequence_number s)
      ((ws_writes s)(thing_storage_key t \<mapsto> Delete, thing_storage_key u \<mapsto> Delete)) (ws_locks s)"
  proof (rule goes_bind[OF goes_delete[OF assms(1,2)]])
    fix s1 assume "graph_ok storage s1" "ws_open_sequence_number s1 = ws_open_sequence_number s"
      "ws_writes s1 = (ws_writes s)(thing_storage_key t \<mapsto> Delete)" "ws_locks s1 = ws_locks s"
    then show "goes storage (ws_delete (thing_storage_key u) s1) (ws_open_sequence_number s)
        ((ws_writes s)(thing_storage_key t \<mapsto> Delete, thing_storage_key u \<mapsto> Delete)) (ws_locks s)"
      using goes_delete[of storage s1 u] assms(3) by simp
  qed
  show "goes storage (do { s \<leftarrow> ws_put_val (thing_storage_key t) v s; ws_put_val (thing_storage_key u) v' s }) (ws_open_sequence_number s)
      ((ws_writes s)(thing_storage_key t \<mapsto> Put v False False, thing_storage_key u \<mapsto> Put v' False False)) (ws_locks s)"
  proof (rule goes_bind[OF goes_put[OF assms(1,2)]])
    fix s1 assume "graph_ok storage s1" "ws_open_sequence_number s1 = ws_open_sequence_number s"
      "ws_writes s1 = (ws_writes s)(thing_storage_key t \<mapsto> Put v False False)" "ws_locks s1 = ws_locks s"
    then show "goes storage (ws_put_val (thing_storage_key u) v' s1) (ws_open_sequence_number s)
        ((ws_writes s)(thing_storage_key t \<mapsto> Put v False False, thing_storage_key u \<mapsto> Put v' False False)) (ws_locks s)"
      using goes_put[of storage s1 u v'] assms(3) by simp
  qed
qed

lemma goes_unset_edge:
  assumes "graph_ok storage s" "thing_wf t" "ws_writes s (thing_storage_key (edge_reverse t)) = ws_writes s (thing_storage_key t)"
    and "map_option is_insert (ws_writes s (thing_storage_key t)) \<noteq> Some True" "edge_reverse t \<noteq> t"
  shows "goes storage (unset_edge storage inserted (thing_storage_key t) (thing_storage_key (edge_reverse t)) s) (ws_open_sequence_number s)
    (unset_writes (committed storage (ws_open_sequence_number s)) inserted (thing_storage_key t) (thing_storage_key (edge_reverse t)) (ws_writes s))
    (ws_locks s)"
proof -
  let ?k = "thing_storage_key t" and ?k' = "thing_storage_key (edge_reverse t)" and ?c = "committed storage (ws_open_sequence_number s)"
  let ?w = "if map_option is_put (ws_writes s ?k) = Some True then (ws_writes s)(?k := None, ?k' := None) else ws_writes s"
  have wf': "thing_wf (edge_reverse t)" and ne: "?k' \<noteq> ?k" using assms(2,5) thing_key_inj by auto
  let ?f = "\<lambda>s. if \<not> inserted then do { found \<leftarrow> ws_get storage s ?k; if found \<noteq> None then do { s \<leftarrow> ws_delete ?k s; ws_delete ?k' s } else Some s } else Some s"
  have second: "goes storage (?f s1) (ws_open_sequence_number s)
      (if \<not> inserted \<and> view ?c ?w ?k \<noteq> None then ?w(?k \<mapsto> Delete, ?k' \<mapsto> Delete) else ?w) (ws_locks s)"
    if s1: "graph_ok storage s1" "ws_open_sequence_number s1 = ws_open_sequence_number s" "ws_writes s1 = ?w" "ws_locks s1 = ws_locks s" for s1
  proof -
    have get: "ws_get storage s1 ?k = Some (view ?c ?w ?k)" using graph_get(2)[OF s1(1) assms(2)] s1(2,3) by (simp add: ws_view_def)
    show ?thesis using goes_both(1)[OF s1(1) assms(2) wf'] goes_Some[OF s1(1)] s1(2-4) get
      by (cases inserted; cases "view ?c ?w ?k") simp_all
  qed
  have first: "goes storage (case v of Some x \<Rightarrow> do { s \<leftarrow> ws_unput_val ?k x s; ws_unput_val ?k' x s } | None \<Rightarrow> Some s)
      (ws_open_sequence_number s) ?w (ws_locks s)" if v: "get_snapshot_put_value s ?k = Some v" for v
  proof (cases "ws_writes s ?k")
    case None
    then show ?thesis using v graph_get(1)[OF assms(1,2)] goes_Some[OF assms(1)] by (auto simp: get_snapshot_put_value_def)
  next
    case (Some x)
    show ?thesis
    proof (cases x)
      case (Put y r e)
      have "goes storage (do { s \<leftarrow> ws_unput_val ?k y s; ws_unput_val ?k' y s }) (ws_open_sequence_number s) ((ws_writes s)(?k := None, ?k' := None)) (ws_locks s)"
      proof (rule goes_bind[OF goes_unput[OF assms(1,2)]])
        show "ws_writes s ?k = Some (Put y r e)" using Some Put by simp
        fix s1 assume s1: "graph_ok storage s1" "ws_open_sequence_number s1 = ws_open_sequence_number s" "ws_writes s1 = (ws_writes s)(?k := None)"
          "ws_locks s1 = ws_locks s"
        then show "goes storage (ws_unput_val ?k' y s1) (ws_open_sequence_number s) ((ws_writes s)(?k := None, ?k' := None)) (ws_locks s)"
          using goes_unput[OF s1(1) wf', of y r e] ne assms(3) Some Put by simp
      qed
      then show ?thesis using v Some Put graph_get(1)[OF assms(1,2)] by (auto simp: get_snapshot_put_value_def)
    qed (use v Some assms(4) graph_get(1)[OF assms(1,2)] goes_Some[OF assms(1)] in \<open>auto simp: get_snapshot_put_value_def\<close>)
  qed
  have "get_snapshot_put_value s ?k \<noteq> None"
    using graph_get(1)[OF assms(1,2)] assms(4) by (auto simp: get_snapshot_put_value_def split: option.splits buffered_write.splits)
  then obtain v where "get_snapshot_put_value s ?k = Some v" by blast
  then show ?thesis
    unfolding unset_edge_def unset_writes_def Let_def using goes_bind[OF first second] by simp
qed

section \<open>The invariant of the edges of a transaction\<close>

text \<open>The objects an edge needs; an object inserted by this transaction is new, nothing committed mentions it.\<close>

fun thing_ends :: "thing_key \<Rightarrow> object_vertex set" where
  "thing_ends (ObjectKey v) = {v}"
| "thing_ends (AttributeKey _) = {}"
| "thing_ends (HasKey e) = {has_owner e}"
| "thing_ends (HasReverseKey e) = {hasr_owner e}"
| "thing_ends (LinksKey e) = {lk_relation e, lk_player e}"
| "thing_ends (IndexedKey e) = {ix_player_from e, ix_player_to e, indexed_relation e}"

text \<open>Objects are inserted, attributes and edges put; the value of an edge is its count.\<close>

fun write_typed :: "thing_key \<Rightarrow> buffered_write \<Rightarrow> bool" where
  "write_typed (ObjectKey _) x \<longleftrightarrow> x = Insert [] \<or> x = Delete"
| "write_typed (AttributeKey _) x \<longleftrightarrow> \<not> is_insert x"
| "write_typed _ x \<longleftrightarrow> \<not> is_insert x \<and> (is_put x \<longrightarrow> length (wvalue x) = 8)"

definition paired :: "(storage_key \<rightharpoonup> 'v) \<Rightarrow> bool" where
  "paired m \<longleftrightarrow> (\<forall>p q r t u. m (thing_storage_key (index_edge p q r t u)) = None \<longleftrightarrow> m (thing_storage_key (index_edge q p r u t)) = None)"

definition graph_edges :: "(storage_key \<rightharpoonup> bytes) \<Rightarrow> (storage_key \<rightharpoonup> buffered_write) \<Rightarrow> bool" where
  "graph_edges c w \<longleftrightarrow> mirrored c \<and> mirrored w \<and> paired c \<and> paired (view c w) \<and>
     (\<forall>t v. thing_wf t \<longrightarrow> is_edge t \<longrightarrow> c (thing_storage_key t) = Some v \<longrightarrow> length v = 8) \<and>
     (\<forall>t x. thing_wf t \<longrightarrow> w (thing_storage_key t) = Some x \<longrightarrow> write_typed t x) \<and>
     (\<forall>t v x. thing_wf t \<longrightarrow> v \<in> thing_ends t \<longrightarrow> object_vertex_wf v \<longrightarrow> w (object_key v) = Some (Insert x) \<longrightarrow> c (thing_storage_key t) = None)"

definition tm_inv :: "keyspaces \<Rightarrow> write_snapshot \<Rightarrow> bool" where
  "tm_inv storage s \<longleftrightarrow> graph_ok storage s \<and> graph_edges (committed storage (ws_open_sequence_number s)) (ws_writes s)"

lemma graph_edgesD:
  assumes "graph_edges c w"
  shows "mirrored c" "mirrored w" "paired c" "paired (view c w)"
    "thing_wf t \<Longrightarrow> is_edge t \<Longrightarrow> c (thing_storage_key t) = Some v \<Longrightarrow> length v = 8"
    "thing_wf t \<Longrightarrow> w (thing_storage_key t) = Some x \<Longrightarrow> write_typed t x"
    "thing_wf t \<Longrightarrow> u \<in> thing_ends t \<Longrightarrow> object_vertex_wf u \<Longrightarrow> w (object_key u) = Some (Insert y) \<Longrightarrow> c (thing_storage_key t) = None"
  using assms unfolding graph_edges_def by blast+

lemma edge_typed: "is_edge t \<Longrightarrow> write_typed t x \<longleftrightarrow> \<not> is_insert x \<and> (is_put x \<longrightarrow> length (wvalue x) = 8)"
  by (cases t) auto

text \<open>Writes to an edge and its reversed edge change nothing else.\<close>

lemma graph_edges_update:
  assumes g: "graph_edges c w" and t: "thing_wf t" "is_edge t" "edge_reverse t \<noteq> t"
    and x: "\<And>y. x = Some y \<Longrightarrow> write_typed t y"
  shows "graph_edges c (w(thing_storage_key t := x, thing_storage_key (edge_reverse t) := x))"
proof -
  let ?w = "w(thing_storage_key t := x, thing_storage_key (edge_reverse t) := x)"
  have other: "?w (thing_storage_key u) = w (thing_storage_key u)" if "thing_wf u" "u \<noteq> t" "u \<noteq> edge_reverse t" for u
    using that t(1) by (simp add: thing_key_inj)
  have "IndexedKey i \<noteq> t" "IndexedKey i \<noteq> edge_reverse t" for i using t(3) by (cases t; auto)+
  then have ix: "view c ?w (thing_storage_key (IndexedKey i)) = view c w (thing_storage_key (IndexedKey i))" for i
    using other[of "IndexedKey i"] by (simp add: view_def del: fun_upd_apply)
  have "ObjectKey u \<noteq> t" "ObjectKey u \<noteq> edge_reverse t" for u using t(2) by (cases t; auto)+
  then have ob: "?w (object_key u) = w (object_key u)" if "object_vertex_wf u" for u using other[of "ObjectKey u"] that by (simp del: fun_upd_apply)
  have typed: "write_typed u y" if "thing_wf u" "?w (thing_storage_key u) = Some y" for u y
  proof (cases "u = t \<or> u = edge_reverse t")
    case True
    then have "write_typed t y" using that x by (auto split: if_splits)
    then show ?thesis using True t(2) edge_typed[of t y] edge_typed[of "edge_reverse t" y] by auto
  next
    case False
    then show ?thesis using that other[of u] graph_edgesD(6)[OF g] by (simp del: fun_upd_apply)
  qed
  have "paired (view c ?w)" using graph_edgesD(4)[OF g] unfolding paired_def ix .
  then show ?thesis
    unfolding graph_edges_def
    using graph_edgesD(1,3)[OF g] mirrored_update[OF graph_edgesD(2)[OF g] t(1), of x] typed ob graph_edgesD(5,7)[OF g] by metis
qed

lemma view_update: "view c (w(k := x)) = (view c w)(k := (case x of None \<Rightarrow> c k | Some y \<Rightarrow> get_value y))"
  by (rule ext) (auto simp: view_def)

lemma view_put: "view c (w(k \<mapsto> Put v r e)) = (view c w)(k \<mapsto> v)" "view c (w(k \<mapsto> Delete)) = (view c w)(k := None)"
  by (simp_all add: view_update)

lemma deleted_value: "\<not> is_insert x \<Longrightarrow> \<not> is_put x \<Longrightarrow> get_value x = None"
  by (cases x) auto

lemma unset_writes_spec:
  assumes g: "graph_edges c w" and t: "thing_wf t" "is_edge t" "edge_reverse t \<noteq> t" and fresh: "inserted \<longrightarrow> c (thing_storage_key t) = None"
  defines "k \<equiv> thing_storage_key t" and "k' \<equiv> thing_storage_key (edge_reverse t)"
  shows "graph_edges c (unset_writes c inserted k k' w)" "view c (unset_writes c inserted k k' w) = (view c w)(k := None, k' := None)"
proof -
  define w1 where "w1 = (if map_option is_put (w k) = Some True then w(k := None, k' := None) else w)"
  have u: "unset_writes c inserted k k' w = (if \<not> inserted \<and> view c w1 k \<noteq> None then w1(k \<mapsto> Delete, k' \<mapsto> Delete) else w1)"
    by (simp only: unset_writes_def Let_def w1_def)
  have ne: "k' \<noteq> k" using t thing_key_inj by (simp add: k_def k'_def)
  have c: "c k' = c k" and w: "w k' = w k" using graph_edgesD(1,2)[OF g] t(1) unfolding mirrored_def k_def k'_def by blast+
  have g1: "graph_edges c w1" using graph_edges_update[OF g t, of None] g unfolding k_def k'_def w1_def by simp
  have "graph_edges c (w1(k \<mapsto> Delete, k' \<mapsto> Delete))"
    using graph_edges_update[OF g1 t, of "Some Delete"] t(2) unfolding k_def k'_def by (simp add: edge_typed)
  then show "graph_edges c (unset_writes c inserted k k' w)" using g1 by (simp add: u)
  have ni: "w k = Some x \<Longrightarrow> \<not> is_insert x" for x using graph_edgesD(6)[OF g t(1)] edge_typed[OF t(2)] by (simp add: k_def)
  have "view c w1 = (view c w)(k := None, k' := None)" if "view c w1 k = None"
    using that c w ne by (auto simp: w1_def view_def fun_eq_iff split: option.splits if_splits)
  moreover have "view c (w1(k \<mapsto> Delete, k' \<mapsto> Delete)) = (view c w)(k := None, k' := None)"
    by (auto simp: w1_def view_def fun_eq_iff)
  moreover have "view c w1 k = None" if inserted
    using that fresh ni ne by (cases "w k") (auto simp: w1_def view_def k_def[symmetric] deleted_value)
  ultimately show "view c (unset_writes c inserted k k' w) = (view c w)(k := None, k' := None)" by (auto simp: u)
qed

text \<open>An operation that returns, keeps the invariant and the pending writes of objects, and shows the given values and
  locks.\<close>

definition tm_goes ::
    "keyspaces \<Rightarrow> write_snapshot \<Rightarrow> write_snapshot option \<Rightarrow> (storage_key \<rightharpoonup> bytes) \<Rightarrow> (bytes \<rightharpoonup> lock_type) \<Rightarrow> bool" where
  "tm_goes storage s r V L \<longleftrightarrow>
     (\<exists>s'. r = Some s' \<and> tm_inv storage s' \<and> ws_open_sequence_number s' = ws_open_sequence_number s \<and> ws_view storage s' = V \<and>
       ws_locks s' = L \<and> (\<forall>v. object_vertex_wf v \<longrightarrow> ws_writes s' (object_key v) = ws_writes s (object_key v)))"

lemma tm_goes_Some: "tm_inv storage s \<Longrightarrow> tm_goes storage s (Some s) (ws_view storage s) (ws_locks s)"
  by (simp add: tm_goes_def)

lemma tm_goes_bind:
  assumes "tm_goes storage s r V L"
    and "\<And>s'. r = Some s' \<Longrightarrow> tm_inv storage s' \<Longrightarrow> ws_open_sequence_number s' = ws_open_sequence_number s \<Longrightarrow> ws_view storage s' = V \<Longrightarrow>
      ws_locks s' = L \<Longrightarrow> (\<And>v. object_vertex_wf v \<Longrightarrow> ws_writes s' (object_key v) = ws_writes s (object_key v)) \<Longrightarrow>
      tm_goes storage s' (f s') V' L'"
  shows "tm_goes storage s (Option.bind r f) V' L'"
  using assms unfolding tm_goes_def by force

lemma tm_goes_goes:
  assumes "tm_inv storage s" "goes storage r (ws_open_sequence_number s) w l"
    and "graph_edges (committed storage (ws_open_sequence_number s)) w"
    and "\<And>v. object_vertex_wf v \<Longrightarrow> w (object_key v) = ws_writes s (object_key v)"
  shows "tm_goes storage s r (view (committed storage (ws_open_sequence_number s)) w) l"
  using assms unfolding goes_def tm_goes_def tm_inv_def ws_view_def by force

lemma edge_not_object:
  assumes "thing_wf t" "is_edge t" "object_vertex_wf v"
  shows "thing_storage_key t \<noteq> object_key v" "object_key v \<noteq> thing_storage_key t"
  using thing_key_inj[of t "ObjectKey v"] assms by auto

lemma tm_lock:
  assumes "tm_inv storage s"
  shows "tm_goes storage s (Some (ws_unmodifiable_lock_add key s)) (ws_view storage s) ((ws_locks s)(snd key \<mapsto> Unmodifiable))"
  using tm_goes_goes[OF assms goes_lock(1)] assms unfolding tm_inv_def ws_view_def by blast

lemma tm_put_edge:
  assumes "tm_inv storage s" "thing_wf t" "is_edge t" "edge_reverse t \<noteq> t" "length v = 8"
  shows "tm_goes storage s (do { s \<leftarrow> ws_put_val (thing_storage_key t) v s; ws_put_val (thing_storage_key (edge_reverse t)) v s })
    ((ws_view storage s)(thing_storage_key t \<mapsto> v, thing_storage_key (edge_reverse t) \<mapsto> v)) (ws_locks s)"
proof -
  have g: "graph_ok storage s" "graph_edges (committed storage (ws_open_sequence_number s)) (ws_writes s)"
    using assms(1) unfolding tm_inv_def by auto
  have "goes storage (do { s \<leftarrow> ws_put_val (thing_storage_key t) v s; ws_put_val (thing_storage_key (edge_reverse t)) v s }) (ws_open_sequence_number s)
      ((ws_writes s)(thing_storage_key t \<mapsto> Put v False False, thing_storage_key (edge_reverse t) \<mapsto> Put v False False)) (ws_locks s)"
    using goes_both(2)[OF g(1) assms(2), of "edge_reverse t"] assms(2) by simp
  from tm_goes_goes[OF assms(1) this graph_edges_update[OF g(2) assms(2-4)]] show ?thesis
    using assms(2,3,5) edge_not_object by (auto simp: view_put ws_view_def edge_typed)
qed

lemma tm_unset_edge:
  assumes "tm_inv storage s" "thing_wf t" "is_edge t" "edge_reverse t \<noteq> t"
    and "inserted \<longrightarrow> committed storage (ws_open_sequence_number s) (thing_storage_key t) = None"
  shows "tm_goes storage s (unset_edge storage inserted (thing_storage_key t) (thing_storage_key (edge_reverse t)) s)
    ((ws_view storage s)(thing_storage_key t := None, thing_storage_key (edge_reverse t) := None)) (ws_locks s)"
proof -
  have g: "graph_ok storage s" "graph_edges (committed storage (ws_open_sequence_number s)) (ws_writes s)"
    using assms(1) unfolding tm_inv_def by auto
  have m: "ws_writes s (thing_storage_key (edge_reverse t)) = ws_writes s (thing_storage_key t)"
    "map_option is_insert (ws_writes s (thing_storage_key t)) \<noteq> Some True"
    using graph_edgesD(2)[OF g(2)] graph_edgesD(6)[OF g(2) assms(2)] edge_typed[OF assms(3)] assms(2)
    by (auto simp: mirrored_def)
  note u = unset_writes_spec[OF g(2) assms(2-5)]
  from tm_goes_goes[OF assms(1) goes_unset_edge[OF g(1) assms(2) m assms(4)] u(1)] show ?thesis
    unfolding u(2) ws_view_def using assms(2,3) edge_not_object[of t] edge_not_object[of "edge_reverse t"]
    by (auto simp: unset_writes_def Let_def)
qed

section \<open>Ownership: what the operations do\<close>

definition persisted :: "keyspaces \<Rightarrow> write_snapshot \<Rightarrow> object_vertex \<Rightarrow> bool" where
  "persisted storage s v \<longleftrightarrow> ws_writes s (object_key v) = None \<and> committed storage (ws_open_sequence_number s) (object_key v) \<noteq> None"

text \<open>The locks of an operation that requires an object.\<close>

definition requires :: "keyspaces \<Rightarrow> write_snapshot \<Rightarrow> object_vertex \<Rightarrow> (bytes \<rightharpoonup> lock_type) \<Rightarrow> bytes \<rightharpoonup> lock_type" where
  "requires storage s v l = (if persisted storage s v then l(snd (object_key v) \<mapsto> Unmodifiable) else l)"

lemma tm_set_required:
  assumes "tm_inv storage s" "object_vertex_wf v"
  shows "tm_goes storage s (set_required_object storage v s) (ws_view storage s) (requires storage s v (ws_locks s))"
proof -
  have "concept_get_status storage s (object_key v) =
      Some (status_of (ws_writes s (object_key v)) (committed storage (ws_open_sequence_number s) (object_key v)))"
    using assms by (intro graph_status) (auto simp: tm_inv_def)
  then show ?thesis
    using tm_lock[OF assms(1), of "object_key v"] tm_goes_Some[OF assms(1)]
    by (auto simp: set_required_object_def lock_existing_object_def requires_def persisted_def status_of_def split: option.splits buffered_write.splits)
qed

lemma unset_has_eq:
  "unset_has storage owner attribute s = do {
     owner_status \<leftarrow> concept_get_status storage s (object_key owner);
     unset_edge storage (owner_status = StatusInserted) (thing_storage_key (has_edge owner attribute))
       (thing_storage_key (edge_reverse (has_edge owner attribute))) s }"
  unfolding unset_has_def unset_edge_def Let_def owner_has_attribute_def by (simp add: edges_reverse cong: if_cong option.case_cong)

lemma tm_unset_has:
  assumes "tm_inv storage s" "object_vertex_wf v" "attribute_vertex_wf a"
  shows "tm_goes storage s (unset_has storage v a s)
    ((ws_view storage s)(thing_storage_key (has_edge v a) := None, thing_storage_key (has_reverse_edge a v) := None)) (ws_locks s)"
proof -
  let ?c = "committed storage (ws_open_sequence_number s)"
  have g: "graph_ok storage s" "graph_edges ?c (ws_writes s)" using assms(1) unfolding tm_inv_def by auto
  have st: "concept_get_status storage s (object_key v) = Some (status_of (ws_writes s (object_key v)) (?c (object_key v)))"
    using assms(2) by (intro graph_status[OF g(1)]) simp
  have "status_of (ws_writes s (object_key v)) (?c (object_key v)) = StatusInserted \<longrightarrow> ?c (thing_storage_key (has_edge v a)) = None"
    using graph_edgesD(7)[OF g(2), of "has_edge v a" v] assms(2,3) by (auto simp: status_of_def split: option.splits buffered_write.splits if_splits)
  from tm_unset_edge[OF assms(1) _ _ _ this] show ?thesis
    unfolding unset_has_eq st using assms(2,3) by (simp add: edges_reverse)
qed

definition tm_returns ::
    "keyspaces \<Rightarrow> write_snapshot \<Rightarrow> (('e + unit) \<times> write_snapshot) option \<Rightarrow> (storage_key \<rightharpoonup> bytes) \<Rightarrow> (bytes \<rightharpoonup> lock_type) \<Rightarrow> bool" where
  "tm_returns storage s r V L \<longleftrightarrow> (\<exists>s'. r = Some (Inr (), s') \<and> tm_goes storage s (Some s') V L)"

lemma tm_returns_goes: "tm_goes storage s r V L \<Longrightarrow> tm_returns storage s (do { s \<leftarrow> r; Some (Inr (), s) }) V L"
  unfolding tm_returns_def tm_goes_def by auto

lemma tm_returns_bind:
  assumes "tm_goes storage s r V L"
    and "\<And>s'. tm_inv storage s' \<Longrightarrow> ws_open_sequence_number s' = ws_open_sequence_number s \<Longrightarrow> ws_view storage s' = V \<Longrightarrow>
      ws_locks s' = L \<Longrightarrow> (\<And>v. object_vertex_wf v \<Longrightarrow> ws_writes s' (object_key v) = ws_writes s (object_key v)) \<Longrightarrow>
      tm_returns storage s' (f s') V' L'"
  shows "tm_returns storage s (Option.bind r f) V' L'"
  using assms unfolding tm_goes_def tm_returns_def by force

lemma tm_set_has_count:
  assumes "tm_inv storage s" "object_vertex_wf v" "attribute_vertex_wf a" "validate s v a = Inr ()" "n \<noteq> 0"
  shows "tm_returns storage s (set_has_count validate storage v a n s)
    ((ws_view storage s)(thing_storage_key (has_edge v a) \<mapsto> encode_u64 n, thing_storage_key (has_reverse_edge a v) \<mapsto> encode_u64 n))
    ((requires storage s v (ws_locks s))(snd (attribute_key a) \<mapsto> Unmodifiable))" (is "tm_returns _ _ _ ?V ?L")
proof -
  let ?f = "\<lambda>s. do { s \<leftarrow> ws_put_val (thing_storage_key (has_edge v a)) (encode_u64 n) s; ws_put_val (thing_storage_key (has_reverse_edge a v)) (encode_u64 n) s }"
  have put: "tm_goes storage s1 (?f s1) ((ws_view storage s1)(thing_storage_key (has_edge v a) \<mapsto> encode_u64 n,
      thing_storage_key (has_reverse_edge a v) \<mapsto> encode_u64 n)) (ws_locks s1)" if "tm_inv storage s1" for s1
    using tm_put_edge[OF that, of "has_edge v a" "encode_u64 n"] assms(2,3) by (simp add: edges_reverse)
  have lock: "tm_goes storage s1 (?f (set_required_attribute a s1)) ((ws_view storage s1)(thing_storage_key (has_edge v a) \<mapsto> encode_u64 n,
      thing_storage_key (has_reverse_edge a v) \<mapsto> encode_u64 n)) ((ws_locks s1)(snd (attribute_key a) \<mapsto> Unmodifiable))" if "tm_inv storage s1" for s1
    using tm_goes_bind[OF tm_lock[OF that, of "attribute_key a"], of ?f] put
    by (fastforce simp: set_required_attribute_def lock_existing_attribute_def simp del: fun_upd_apply)
  have "tm_goes storage s (do { s \<leftarrow> set_required_object storage v s; ?f (set_required_attribute a s) }) ?V ?L"
  proof (rule tm_goes_bind[OF tm_set_required[OF assms(1,2)]], goal_cases)
    case (1 s')
    then show ?case using lock[of s'] by simp
  qed
  from tm_returns_goes[OF this] show ?thesis unfolding set_has_count_def Let_def using assms(4,5) by simp
qed

lemma tm_unset_has_count:
  assumes "tm_inv storage s" "object_vertex_wf v" "attribute_vertex_wf a" "validate s v a = Inr ()"
  shows "tm_returns storage s (set_has_count validate storage v a 0 s)
    ((ws_view storage s)(thing_storage_key (has_edge v a) := None, thing_storage_key (has_reverse_edge a v) := None)) (ws_locks s)"
  using tm_returns_goes[OF tm_unset_has[OF assms(1-3)]] assms(4) by (simp add: set_has_count_def)

section \<open>Objects: what the operations do\<close>

lemma paired_other:
  assumes "paired m" "\<And>i. m' (thing_storage_key (IndexedKey i)) = m (thing_storage_key (IndexedKey i))"
  shows "paired m'"
  using assms unfolding paired_def by simp

text \<open>A write to an object that is not an insert of a known one.\<close>

lemma graph_edges_object:
  assumes g: "graph_edges c w" and v: "object_vertex_wf v" and x: "\<And>y. x = Some y \<Longrightarrow> write_typed (ObjectKey v) y"
    and new: "\<And>y t. x = Some (Insert y) \<Longrightarrow> thing_wf t \<Longrightarrow> v \<in> thing_ends t \<Longrightarrow> c (thing_storage_key t) = None"
  shows "graph_edges c (w(object_key v := x))"
proof -
  let ?w = "w(object_key v := x)"
  have other: "?w (thing_storage_key u) = w (thing_storage_key u)" if "thing_wf u" "u \<noteq> ObjectKey v" for u
    using that v thing_key_inj[of u "ObjectKey v"] by simp
  have "view c ?w (thing_storage_key (IndexedKey i)) = view c w (thing_storage_key (IndexedKey i))" for i
    using other[of "IndexedKey i"] by (simp add: view_def del: fun_upd_apply)
  then have p: "paired (view c ?w)" using paired_other[OF graph_edgesD(4)[OF g]] by blast
  have m: "mirrored ?w" using mirrored_update[OF graph_edgesD(2)[OF g], of "ObjectKey v" x] v by simp
  have typed: "write_typed u y" if "thing_wf u" "?w (thing_storage_key u) = Some y" for u y
    using that other[of u] x graph_edgesD(6)[OF g, of u y] by (cases "u = ObjectKey v") (simp_all del: fun_upd_apply, simp)
  have fresh: "c (thing_storage_key t) = None"
    if "thing_wf t" "u \<in> thing_ends t" "object_vertex_wf u" "?w (object_key u) = Some (Insert y)" for t u y
    using that other[of "ObjectKey u"] new graph_edgesD(7)[OF g, of t u y] by (cases "u = v") (simp_all del: fun_upd_apply, simp)
  show ?thesis unfolding graph_edges_def
    using graph_edgesD(1,3)[OF g] m p typed fresh graph_edgesD(5)[OF g] by blast
qed

lemma goes_uninsert:
  assumes "graph_ok storage s" "thing_wf t" "ws_writes s (thing_storage_key t) = Some (Insert [])"
  shows "goes storage (ws_uninsert (thing_storage_key t) s) (ws_open_sequence_number s) ((ws_writes s)(thing_storage_key t := None)) (ws_locks s)"
  unfolding ws_uninsert_def
  by (rule goes_becomes[OF assms(1)])
    (simp_all add: ws_unwrite_ops(1)[OF graph_okD(2)[OF assms(1)] _ assms(3)] graph_ok_updates[OF assms(1,2)] del: fun_upd_apply)

lemma goes_insert:
  assumes "graph_ok storage s" "thing_wf t"
  shows "goes storage (ws_insert (thing_storage_key t) s) (ws_open_sequence_number s)
    ((ws_writes s)(thing_storage_key t \<mapsto> Insert [])) (ws_locks s)"
  unfolding ws_insert_def
  by (rule goes_becomes[OF assms(1)]) (simp_all add: ws_write_ops(1)[OF graph_okD(2)[OF assms(1)]] graph_ok_updates[OF assms] del: fun_upd_apply)

text \<open>Deleting an object hides it and gives up its lock.\<close>

lemma tm_delete_object:
  assumes inv: "tm_inv storage s" and v: "object_vertex_wf v"
  shows "\<exists>s'. delete_object storage (object_key v) s = Some s' \<and> tm_inv storage s' \<and>
    ws_open_sequence_number s' = ws_open_sequence_number s \<and> ws_view storage s' = (ws_view storage s)(object_key v := None) \<and>
    ws_locks s' = (ws_locks s)(snd (object_key v) := None) \<and> (persisted storage s v \<longrightarrow> ws_writes s' (object_key v) = Some Delete)"
proof -
  let ?k = "object_key v" and ?c = "committed storage (ws_open_sequence_number s)" and ?w = "ws_writes s"
  have g: "graph_ok storage s" "graph_edges ?c ?w" using inv unfolding tm_inv_def by auto
  obtain s1 where s1: "ws_unmodifiable_lock_remove ?k s = s1" "graph_ok storage s1" "ws_open_sequence_number s1 = ws_open_sequence_number s"
    "ws_writes s1 = ?w" "ws_locks s1 = (ws_locks s)(snd ?k := None)" using goes_lock(2)[OF g(1)] unfolding goes_def by auto
  have wf: "thing_wf (ObjectKey v)" using v by simp
  have goal: ?thesis if d: "delete_object storage ?k s = r" "goes storage r (ws_open_sequence_number s) (?w(?k := x)) (ws_locks s1)"
    "x \<noteq> None \<Longrightarrow> x = Some Delete" "x = None \<Longrightarrow> ?c ?k = None" for r x
  proof -
    have "graph_edges ?c (?w(?k := x))" using graph_edges_object[OF g(2) v] d(3) by auto
    moreover have "view ?c (?w(?k := x)) = (ws_view storage s)(?k := None)"
      unfolding view_update ws_view_def using d(3,4) by (cases x) auto
    moreover have "persisted storage s v \<longrightarrow> (?w(?k := x)) ?k = Some Delete" using d(3,4) by (cases x) (auto simp: persisted_def)
    ultimately show ?thesis using d(1,2) s1(5) unfolding goes_def tm_inv_def ws_view_def by (elim exE conjE) (simp del: fun_upd_apply)
  qed
  have st: "concept_get_status storage s ?k = Some (status_of (?w ?k) (?c ?k))" by (rule graph_status[OF g(1) wf])
  show ?thesis
  proof (cases "?w ?k")
    case None
    show ?thesis
    proof (cases "?c ?k")
      case None
      with \<open>?w ?k = None\<close> have "delete_object storage ?k s = Some s1" "?w(?k := None) = ?w"
        by (auto simp: delete_object_def st s1(1) status_of_def)
      from goal[OF this(1), of None] this(2) show ?thesis using None goes_Some[OF s1(2)] s1(3-5) by simp
    next
      case (Some y)
      with None have "delete_object storage ?k s = ws_delete ?k s1" by (simp add: delete_object_def st s1(1) status_of_def)
      from goal[OF this, of "Some Delete"] show ?thesis using goes_delete[OF s1(2) wf] s1(3-5) by simp
    qed
  next
    case (Some y)
    have t: "y = Insert [] \<or> y = Delete" using graph_edgesD(6)[OF g(2) wf Some] by simp
    show ?thesis
    proof (cases "y = Delete")
      case True
      with Some have "delete_object storage ?k s = Some s1" "?w(?k \<mapsto> Delete) = ?w" by (auto simp: delete_object_def st s1(1) status_of_def)
      from goal[OF this(1), of "Some Delete"] this(2) show ?thesis using goes_Some[OF s1(2)] s1(3-5) by simp
    next
      case False
      with t Some have i: "?w ?k = Some (Insert [])" by simp
      then have "delete_object storage ?k s = ws_uninsert ?k s1" by (simp add: delete_object_def st s1(1) status_of_def)
      from goal[OF this, of None] show ?thesis
        using goes_uninsert[OF s1(2) wf] graph_edgesD(7)[OF g(2) wf, of v] i v s1(3-5) by simp
    qed
  qed
qed

lemma view_mirrored:
  assumes "tm_inv storage s" "thing_wf t"
  shows "ws_view storage s (thing_storage_key (edge_reverse t)) = ws_view storage s (thing_storage_key t)"
proof -
  have g: "graph_edges (committed storage (ws_open_sequence_number s)) (ws_writes s)" using assms(1) by (simp add: tm_inv_def)
  show ?thesis using graph_edgesD(1,2)[OF g] assms(2) by (simp add: mirrored_def ws_view_def view_def split: option.split)
qed

section \<open>Fresh databases\<close>

text \<open>The keyspaces a database is opened with, and a snapshot of it without writes.\<close>

definition encoding_keyspace_sets :: "keyspace_set list" where
  "encoding_keyspace_sets = map (\<lambda>ks. \<lparr> kst_id = keyspace_id_of ks, kst_name = map of_char (keyspace_name ks),
     kst_prefix_length = Some (keyspace_prefix_length ks) \<rparr>) encoding_keyspace_iter"

definition fresh_storage :: keyspaces where
  "fresh_storage = (case kss_open encoding_keyspace_sets of Some (Inr s) \<Rightarrow> s | _ \<Rightarrow> kss_new)"

definition fresh_snapshot :: write_snapshot where
  "fresh_snapshot = ws_new_with_operations 0 ob_new"

lemma fresh_open: "kss_open encoding_keyspace_sets = Some (Inr fresh_storage)"
proof -
  have "valid_set encoding_keyspace_sets"
    by (simp add: encoding_keyspace_sets_def encoding_keyspace_iter_def valid_set_def KEYSPACE_MAXIMUM_COUNT_def)
  then show ?thesis using kss_open_fresh[of encoding_keyspace_sets] by (auto simp: fresh_storage_def)
qed

lemma fresh_storage_facts:
  "storage_wf fresh_storage" "committed fresh_storage n = Map.empty" "stored_keys fresh_storage i = {}"
  "keyspace_id_of ks \<in> kss_ids fresh_storage"
proof -
  have f: "kss_wf fresh_storage" "kss_keyspaces fresh_storage = map ksp_new encoding_keyspace_sets"
    using kss_open_fresh[of encoding_keyspace_sets] fresh_open by blast+
  have c: "kss_contents fresh_storage i = Map.empty" for i by (rule fresh_contents[OF f])
  show "storage_wf fresh_storage" "committed fresh_storage n = Map.empty" using empty_contents[OF f(1) c] by blast+
  show "stored_keys fresh_storage i = {}" by (simp add: stored_keys_def c)
  show "keyspace_id_of ks \<in> kss_ids fresh_storage"
    unfolding kss_ids_def f(2) by (cases ks) (simp_all add: encoding_keyspace_sets_def encoding_keyspace_iter_def ksp_new_def)
qed

lemma fresh_snapshot_facts:
  "ws_wf fresh_snapshot" "ws_writes fresh_snapshot = Map.empty" "ws_locks fresh_snapshot = Map.empty" "ws_open_sequence_number fresh_snapshot = 0"
proof -
  show "ws_wf fresh_snapshot" by (simp add: ws_wf_def fresh_snapshot_def ws_new_with_operations_def)
qed (auto simp: fresh_snapshot_def ws_new_with_operations_def ws_writes_def ws_locks_def ob_new_def wb_get_def wb_new_def fun_eq_iff)

lemma fresh_view [simp]: "ws_view fresh_storage fresh_snapshot = Map.empty"
  by (simp add: ws_view_def view_def fun_eq_iff fresh_snapshot_facts fresh_storage_facts)

lemma fresh_tm_inv [simp]: "tm_inv fresh_storage fresh_snapshot"
  unfolding tm_inv_def graph_ok_def graph_edges_def
  by (auto simp: fresh_storage_facts fresh_snapshot_facts mirrored_def paired_def view_def)

text \<open>A database that holds an entity and a relation, committed by the first transaction, and a snapshot opened after it.\<close>

definition stored_entity :: object_vertex where "stored_entity = build_entity 1 7"

definition stored_relation :: object_vertex where "stored_relation = build_relation 2 5"

definition stored_storage :: keyspaces where
  "stored_storage = \<lparr> kss_keyspaces =
       \<lparr> ksp_backend = \<lparr> mb_data =
            [(mvcc_build (object_vertex_to_bytes stored_entity) 1 OpInsert, []), (mvcc_build (object_vertex_to_bytes stored_relation) 1 OpInsert, [])],
            mb_poisoned = False \<rparr>,
         ksp_name = [0], ksp_id = 0, ksp_prefix_length = None \<rparr> #
       map (\<lambda>i. \<lparr> ksp_backend = \<lparr> mb_data = [], mb_poisoned = False \<rparr>, ksp_name = [of_nat i], ksp_id = i, ksp_prefix_length = None \<rparr>) [1, 2, 3, 4],
     kss_index = map Some [0, 1, 2, 3, 4] @ replicate 5 None \<rparr>"

definition stored_snapshot :: write_snapshot where
  "stored_snapshot = ws_new_with_operations 1 ob_new"

lemma stored_vertices:
  "object_vertex_wf stored_entity" "object_vertex_wf stored_relation" "ov_prefix stored_relation = VertexRelation" "stored_entity \<noteq> stored_relation"
  by (simp_all add: stored_entity_def stored_relation_def build_entity_def build_relation_def object_vertex_wf_def)

lemma stored_seq: "seq_ok 1"
  by (simp add: seq_ok_def)

lemma stored_storage_wf: "storage_wf stored_storage"
proof -
  have l: "object_vertex_to_bytes stored_entity < object_vertex_to_bytes stored_relation"
    by (simp add: object_vertex_order object_vertex_less_def stored_entity_def stored_relation_def build_entity_def build_relation_def prefix_id_def prefix_table_def)
  have np: "\<not> prefix (object_vertex_to_bytes stored_entity) (object_vertex_to_bytes stored_relation)"
    "\<not> prefix (object_vertex_to_bytes stored_relation) (object_vertex_to_bytes stored_entity)"
    using object_prefix(1)[of stored_entity stored_relation "[]"] object_prefix(1)[of stored_relation stored_entity "[]"] stored_vertices(4) by auto
  have "mvcc_wf [(mvcc_build (object_vertex_to_bytes stored_entity) 1 OpInsert, []), (mvcc_build (object_vertex_to_bytes stored_relation) 1 OpInsert, [])]"
    using l np stored_seq by (auto simp: mvcc_wf_def mvcc_decodes_def mvcc_build_less_iff keys_apart_def simp del: One_nat_def)
  moreover have "mvcc_wf []" by (simp add: mvcc_wf_def)
  ultimately show ?thesis
    by (auto simp: storage_wf_def kss_wf_def stored_storage_def KEYSPACE_MAXIMUM_COUNT_def mb_inv_def mvcc_wf_def
        nth_Cons' less_Suc_eq numeral_eq_Suc)
qed

lemma stored_contents:
  "kss_contents stored_storage i = (if i = 0 then
     [mvcc_build (object_vertex_to_bytes stored_entity) 1 OpInsert \<mapsto> [], mvcc_build (object_vertex_to_bytes stored_relation) 1 OpInsert \<mapsto> []] else Map.empty)"
proof -
  have "kss_get stored_storage i = (if i < 5 then Some (kss_keyspaces stored_storage ! i) else None)"
    by (auto simp: kss_get_def kss_position_def nth_opt_def stored_storage_def nth_Cons' nth_append less_Suc_eq numeral_eq_Suc)
  then show ?thesis
    by (auto simp: kss_contents_def stored_storage_def mb_contents_def nth_Cons' bt_get_Cons fun_eq_iff less_Suc_eq numeral_eq_Suc)
qed

lemma stored_committed:
  "committed stored_storage 1 key = (if key = object_key stored_entity \<or> key = object_key stored_relation then Some [] else None)"
  "stored_keys stored_storage i = (if i = 0 then {object_vertex_to_bytes stored_entity, object_vertex_to_bytes stored_relation} else {})"
proof -
  let ?m = "kss_contents stored_storage 0"
  have m: "?m (mvcc_build k s op) =
      (if s = 1 \<and> op = OpInsert \<and> (k = object_vertex_to_bytes stored_entity \<or> k = object_vertex_to_bytes stored_relation) then Some [] else None)"
    if "seq_ok s" for k s op
    using that stored_seq by (simp add: stored_contents mvcc_build_inj)
  have "versions ?m 1 k = (if k = object_vertex_to_bytes stored_entity \<or> k = object_vertex_to_bytes stored_relation then {1} else {})" for k
    using stored_seq by (auto simp: versions_def m split: if_splits simp del: One_nat_def)
  then have "mvcc_read ?m 1 k = (if k = object_vertex_to_bytes stored_entity \<or> k = object_vertex_to_bytes stored_relation then Some [] else None)" for k
    using m[OF stored_seq] by (simp add: mvcc_read_def del: One_nat_def)
  moreover have "mvcc_read Map.empty 1 k = None" for k by (simp add: mvcc_read_None)
  ultimately show "committed stored_storage 1 key = (if key = object_key stored_entity \<or> key = object_key stored_relation then Some [] else None)"
    by (cases key) (auto simp: committed_def stored_contents thing_storage_key.simps)
  show "stored_keys stored_storage i = (if i = 0 then {object_vertex_to_bytes stored_entity, object_vertex_to_bytes stored_relation} else {})"
    by (auto simp: stored_keys_def stored_contents split: if_splits)
qed

lemma stored_snapshot_facts:
  "ws_wf stored_snapshot" "ws_writes stored_snapshot = Map.empty" "ws_locks stored_snapshot = Map.empty" "ws_open_sequence_number stored_snapshot = 1"
proof -
  show "ws_wf stored_snapshot" by (simp add: ws_wf_def stored_snapshot_def ws_new_with_operations_def)
qed (auto simp: stored_snapshot_def ws_new_with_operations_def ws_writes_def ws_locks_def ob_new_def wb_get_def wb_new_def fun_eq_iff)

text \<open>A database of objects without edges.\<close>

lemma graph_edges_objects:
  assumes "\<And>k. c k \<noteq> None \<Longrightarrow> \<exists>v. object_vertex_wf v \<and> k = object_key v"
  shows "graph_edges c Map.empty"
proof -
  have e: "c (thing_storage_key t) = None" if "thing_wf t" "is_edge t" for t using assms edge_not_object(1)[OF that] by blast
  have "c (thing_storage_key (edge_reverse t)) = c (thing_storage_key t)" if "thing_wf t" for t
    using e[of t] e[of "edge_reverse t"] that by (cases "is_edge t") (auto, cases t, auto)
  moreover have "view c Map.empty = c" by (simp add: view_def fun_eq_iff)
  ultimately show ?thesis using e unfolding graph_edges_def mirrored_def paired_def by simp
qed

lemma stored_tm_inv: "tm_inv stored_storage stored_snapshot"
proof -
  have "graph_edges (committed stored_storage 1) Map.empty"
  proof (rule graph_edges_objects)
    fix k assume "committed stored_storage 1 k \<noteq> None"
    then have "k = object_key stored_entity \<or> k = object_key stored_relation" unfolding stored_committed by (meson)
    then show "\<exists>v. object_vertex_wf v \<and> k = object_key v" using stored_vertices by blast
  qed
  moreover have "graph_key (i, k)" if m: "k \<in> stored_keys stored_storage i" for i k
  proof -
    obtain v where "object_vertex_wf v" "(i, k) = object_key v"
      using m stored_vertices by (auto simp: stored_committed thing_storage_key.simps split: if_splits)
    then show ?thesis using graph_key_thing[of "ObjectKey v"] by simp
  qed
  moreover have "keyspace_id_of ks \<in> kss_ids stored_storage" for ks by (cases ks) (auto simp: kss_ids_def stored_storage_def)
  ultimately show ?thesis using stored_storage_wf by (auto simp: tm_inv_def graph_ok_def stored_snapshot_facts simp del: One_nat_def)
qed

lemma stored_persisted: "persisted stored_storage stored_snapshot stored_entity" "persisted stored_storage stored_snapshot stored_relation"
  by (simp_all add: persisted_def stored_snapshot_facts stored_committed del: One_nat_def)

section \<open>Properties\<close>

text \<open>C22: setting the count of an ownership.  When the validation fails nothing changes.  Otherwise the operation returns,
  readers of the snapshot see the count on the edge and on its reversed edge, or neither edge when the count is zero,
  and everything else as before; the edge of a positive count locks the attribute, and the owner when it is not new, so
  that a concurrent transaction cannot delete them.\<close>

theorem set_has_count_correct:
  assumes "tm_inv storage s" "object_vertex_wf v" "attribute_vertex_wf a"
  shows "case validate s v a of
      Inl err \<Rightarrow> set_has_count validate storage v a n s = Some (Inl err, s)
    | Inr _ \<Rightarrow> \<exists>s'. set_has_count validate storage v a n s = Some (Inr (), s') \<and> tm_inv storage s' \<and>
        owner_has_attribute storage s' v a = Some (n \<noteq> 0) \<and>
        (\<forall>key. ws_view storage s' key =
          (if key \<in> {thing_storage_key (has_edge v a), thing_storage_key (has_reverse_edge a v)}
           then if n = 0 then None else Some (encode_u64 n) else ws_view storage s key)) \<and>
        (if n = 0 then ws_locks s' = ws_locks s
         else ws_locks s' (snd (attribute_key a)) = Some Unmodifiable \<and>
           (persisted storage s v \<longrightarrow> ws_locks s' (snd (object_key v)) = Some Unmodifiable))"
proof (cases "validate s v a")
  case (Inr u)
  then have v: "validate s v a = Inr ()" by simp
  have "\<exists>s'. set_has_count validate storage v a n s = Some (Inr (), s') \<and> tm_inv storage s' \<and>
      ws_view storage s' = (ws_view storage s)(thing_storage_key (has_edge v a) := if n = 0 then None else Some (encode_u64 n),
        thing_storage_key (has_reverse_edge a v) := if n = 0 then None else Some (encode_u64 n)) \<and>
      ws_locks s' = (if n = 0 then ws_locks s else (requires storage s v (ws_locks s))(snd (attribute_key a) \<mapsto> Unmodifiable))"
    using tm_set_has_count[OF assms, of validate n] tm_unset_has_count[OF assms, of validate] v unfolding tm_returns_def tm_goes_def
    by (cases "n = 0") (simp_all del: fun_upd_apply, blast+)
  then obtain s' where s': "set_has_count validate storage v a n s = Some (Inr (), s')" "tm_inv storage s'"
    "ws_view storage s' = (ws_view storage s)(thing_storage_key (has_edge v a) := if n = 0 then None else Some (encode_u64 n),
        thing_storage_key (has_reverse_edge a v) := if n = 0 then None else Some (encode_u64 n))"
    "ws_locks s' = (if n = 0 then ws_locks s else (requires storage s v (ws_locks s))(snd (attribute_key a) \<mapsto> Unmodifiable))" by blast
  have "thing_wf (has_edge v a)" "graph_ok storage s'" using assms(2,3) s'(2) by (simp_all add: tm_inv_def)
  then have "owner_has_attribute storage s' v a = Some (n \<noteq> 0)"
    unfolding owner_has_attribute_def by (simp add: graph_get(2) s'(3))
  then show ?thesis using s' Inr by (auto simp: requires_def)
qed (simp add: set_has_count_def)

theorem set_has_count_correct_witness:
  "\<exists>s'. set_has_count (\<lambda>_ _ _. Inr () :: unit + unit) fresh_storage (build_entity 1 7)
      \<lparr> av_type_id = 1, av_attribute_id = BooleanID [0, 1, 0, 0, 0, 0, 0, 0, 0] \<rparr> 3 fresh_snapshot = Some (Inr (), s') \<and>
    owner_has_attribute fresh_storage s' (build_entity 1 7) \<lparr> av_type_id = 1, av_attribute_id = BooleanID [0, 1, 0, 0, 0, 0, 0, 0, 0] \<rparr> = Some True"
proof -
  have "object_vertex_wf (build_entity 1 7)" by (simp add: build_entity_def object_vertex_wf_def)
  from set_has_count_correct[OF fresh_tm_inv this example_attribute, of "\<lambda>_ _ _. Inr ()" 3] show ?thesis by auto
qed

end
