(* ===== verification/ThingScans.thy ===== *)
theory ThingScans
  imports ThingEdges
begin

text \<open>
  Scans of the edges of an object: every prefix scan over the pending and committed keys returns, and returns the edges
  it selects once each.
\<close>

section \<open>Scans\<close>

context lending_iterator
begin

lemma drain_rest: "inv s \<Longrightarrow> drain nxt s = Some (rest s)"
proof (induction "rest s" arbitrary: s)
  case Nil
  then show ?case using next_Nil[of s] by (subst drain.simps) auto
next
  case (Cons x xs)
  then obtain s' where s': "nxt s = Some (Some x, s')" "inv s'" "rest s' = xs" using next_Cons[of s x xs] by auto
  then show ?case using Cons(1)[of s'] Cons(2) by (subst drain.simps) auto
qed

end

text \<open>A scan of a prefix of the keys of a keyspace returns, in order and once each, the visible things it selects.\<close>

definition scan :: "keyspaces \<Rightarrow> write_snapshot \<Rightarrow> storage_key \<Rightarrow> bool \<Rightarrow> (storage_key \<times> bytes) list option" where
  "scan storage s p fw = do { it \<leftarrow> ws_iterate_range storage s (new_within p fw); drain si_next it }"

lemma graph_scan:
  assumes g: "graph_ok storage s" and t: "thing_wf t" "prefix p (snd (thing_storage_key t))"
    and p: "\<exists>x\<in>set p. x \<noteq> 0xFF" and len: "\<And>k. graph_key (keyspace_id_of ks, k) \<Longrightarrow> length p \<le> length k"
  obtains items where "scan storage s (keyspace_id_of ks, p) fw = Some items" "bt_wf items"
    "\<And>key. bt_get items key = (if fst key = keyspace_id_of ks \<and> prefix p (snd key) then ws_view storage s key else None)"
proof -
  let ?r = "new_within (keyspace_id_of ks, p) fw"
  let ?wb = "ob_write_buffers (ws_operations s) ! keyspace_id_of ks"
  have m: "start_value (kr_start ?r) = (keyspace_id_of ks, p)" "key_range_map snd id ?r = new_within p fw"
    by (simp_all add: new_within_def key_range_map_def new_fixed_width_def new_variable_width_def Let_def)
  have "separates (new_within p fw) (ukey (fst e))"
    if "kss_get storage (keyspace_id_of ks) = Some k" "e \<in> set (mb_data (ksp_backend k))" for k e
    using graph_key_not_strict[OF graph_okD(4)[OF g stored_entry[OF graph_okD(1)[OF g] that]] t]
    by (simp add: separates_def scannable_def new_within_def)
  then have r: "range_ok storage ?r" unfolding range_ok_def m
    using graph_okD(3)[OF g] by (auto simp: new_within_def)
  have "covers_ends (new_within p fw) (fst e)" if "e \<in> set (wb_writes ?wb)" for e
  proof -
    have "bt_wf (wb_writes ?wb)" using ws_buffer_wf[OF graph_okD(2)[OF g] keyspace_of_small[of ks]] by (simp add: wb_wf_def)
    then have "bt_get (wb_writes ?wb) (fst e) = Some (snd e)" using that by (simp add: bt_get_eq_Some_iff)
    then have "ws_writes s (keyspace_id_of ks, fst e) = Some (snd e)" using keyspace_of_small[of ks] by (simp add: ws_writes_def wb_get_def)
    then have "length p \<le> length (fst e)" using graph_okD(5)[OF g] len by blast
    then show ?thesis by (simp add: covers_ends_def new_within_def)
  qed
  then have w: "scan_writes_ok s ?r" unfolding scan_writes_ok_def m Let_def
    using keyspace_of_small wb_range_within_defined[OF p, of fw ?wb] by (simp add: list_all_iff)
  show thesis
  proof (rule ws_scan_spec[OF graph_okD(1)[OF g] r graph_okD(2)[OF g] w], unfold m range_contains_within starts_with_prefix fst_conv, goal_cases)
    case (1 it b)
    show thesis by (rule that[OF _ 1(3,5)]) (simp add: scan_def 1(1) si.drain_rest[OF 1(2)])
  qed
qed

lemma keyspace_15_length:
  assumes "graph_key (keyspace_id_of OptimisedPrefix15, k)"
  shows "12 \<le> length k"
  using assms unfolding graph_key_def
proof (elim disjE exE conjE)
  fix t assume "thing_wf t" "thing_storage_key t = (keyspace_id_of OptimisedPrefix15, k)"
  then show ?thesis
    by (cases t) (auto simp: thing_storage_key.simps attribute_keyspace_def attribute_keyspace_for_is_short_def has_keyspace_def
        hasr_keyspace_def hasr_keyspace_for_is_short_def links_keyspace_def indexed_keyspace_def has_bytes links_bytes split: if_splits)
qed simp

lemma object_scan:
  assumes g: "graph_ok storage s" and t: "thing_wf t" "prefix (prefix_id q # object_vertex_to_bytes v) (snd (thing_storage_key t))"
    and q: "prefix_id q \<noteq> 0xFF"
  obtains items where "scan storage s (keyspace_id_of OptimisedPrefix15, prefix_id q # object_vertex_to_bytes v) fw = Some items" "bt_wf items"
    "\<And>key. bt_get items key =
      (if fst key = keyspace_id_of OptimisedPrefix15 \<and> prefix (prefix_id q # object_vertex_to_bytes v) (snd key) then ws_view storage s key else None)"
proof (rule graph_scan[OF g t, of OptimisedPrefix15 fw], goal_cases)
  case 1
  then show ?case using q by simp
next
  case (2 k)
  then show ?case using keyspace_15_length by simp
next
  case (3 items)
  show ?case by (rule 3(1)[OF 3(2-4)])
qed

subsection \<open>Players\<close>

lemma role_type_id [simp]: "type_vertex_type_id (role_vertex t) = t"
  by (simp add: role_vertex_def type_vertex_type_id_new)

lemma those_map: "(\<And>x. x \<in> set xs \<Longrightarrow> f x = Some (g x)) \<Longrightarrow> those (map f xs) = Some (map g xs)"
  by (induction xs) auto

lemma edge_value:
  assumes "tm_inv storage s" "thing_wf t" "is_edge t" "ws_view storage s (thing_storage_key t) = Some v"
  shows "length v = 8"
proof -
  have g: "graph_edges (committed storage (ws_open_sequence_number s)) (ws_writes s)" using assms(1) unfolding tm_inv_def by simp
  show ?thesis
    using assms(4) graph_edgesD(5)[OF g assms(2,3)] graph_edgesD(6)[OF g assms(2)] edge_typed[OF assms(3)]
    by (auto simp: ws_view_def view_def split: option.splits elim!: get_value.elims)
qed

lemma committed_stored: "committed storage n key \<noteq> None \<Longrightarrow> snd key \<in> stored_keys storage (fst key)"
proof (erule contrapos_np)
  assume "snd key \<notin> stored_keys storage (fst key)"
  then have "kss_contents storage (fst key) (mvcc_build (snd key) s op) = None" for s op
    by (force simp: stored_keys_def image_iff domIff)
  then show "committed storage n key = None" unfolding committed_def by (simp add: mvcc_read_None)
qed

text \<open>What is visible is a key of the database.\<close>

lemma view_graph_key:
  assumes "graph_ok storage s" "ws_view storage s key \<noteq> None"
  shows "graph_key key"
proof (cases "ws_writes s key")
  case None
  then have "committed storage (ws_open_sequence_number s) key \<noteq> None" using assms(2) by (simp add: ws_view_def view_def)
  then show ?thesis using graph_okD(4)[OF assms(1), of "snd key" "fst key"] committed_stored by simp
qed (use graph_okD(5)[OF assms(1)] in auto)

lemma links_scan:
  assumes inv: "tm_inv storage s" and v: "object_vertex_wf v" "\<not> d \<Longrightarrow> ov_prefix v = VertexRelation"
    and q: "q = (if d then EdgeLinksReverse else EdgeLinks)"
  obtains items where "scan storage s (keyspace_id_of links_keyspace, prefix_id q # object_vertex_to_bytes v) fw = Some items"
    "distinct (map fst items)"
    "\<And>key n. (key, n) \<in> set items \<longleftrightarrow> (\<exists>e. thing_wf (LinksKey e) \<and> lk_is_reverse e = d \<and> lk_from e = v \<and>
       key = thing_storage_key (LinksKey e) \<and> ws_view storage s key = Some n)"
proof -
  let ?p = "prefix_id q # object_vertex_to_bytes v"
  have g: "graph_ok storage s" using inv unfolding tm_inv_def by simp
  let ?e = "\<lparr> lk_relation = (if d then build_relation 0 0 else v), lk_player = (if d then v else build_entity 0 0), lk_role_id = 0, lk_is_reverse = d \<rparr>"
  have e: "thing_wf (LinksKey ?e)" "prefix ?p (snd (thing_storage_key (LinksKey ?e)))"
    using v by (auto simp: q thing_storage_key.simps links_bytes lk_from_def build_relation_def build_entity_def object_vertex_wf_def)
  have if_Some: "(if P then x else None) = Some n \<longleftrightarrow> P \<and> x = Some n" for P and x :: "bytes option" and n by simp
  have fst_links: "fst (thing_storage_key (LinksKey e)) = keyspace_id_of links_keyspace" for e by (simp add: thing_storage_key.simps)
  have ks: "links_keyspace = OptimisedPrefix15" by (simp add: links_keyspace_def)
  have "prefix_id q \<noteq> 0xFF" by (simp add: q prefix_id_def prefix_table_def)
  with object_scan[OF g e] obtain items where items: "scan storage s (keyspace_id_of links_keyspace, ?p) fw = Some items" "bt_wf items"
    "\<And>key. bt_get items key = (if fst key = keyspace_id_of links_keyspace \<and> prefix ?p (snd key) then ws_view storage s key else None)"
    unfolding ks by blast
  have sel: "selects ?p (\<lambda>k. \<exists>e. k = LinksKey e \<and> lk_is_reverse e = d \<and> lk_from e = v)"
    using links_selects[OF q, of "object_vertex_to_bytes v" "\<lambda>e. lk_from e = v"] by (auto simp: object_prefix)
  have "(\<exists>e. thing_wf (LinksKey e) \<and> lk_is_reverse e = d \<and> lk_from e = v \<and> key = thing_storage_key (LinksKey e)) \<longleftrightarrow>
      fst key = keyspace_id_of links_keyspace \<and> prefix ?p (snd key)" if "graph_key key" for key
    using that unfolding graph_key_def
  proof (elim disjE exE conjE)
    fix t assume t: "thing_wf t" "thing_storage_key t = key"
    then have "prefix ?p (snd key) \<longleftrightarrow> (\<exists>e. t = LinksKey e \<and> lk_is_reverse e = d \<and> lk_from e = v)"
      using sel thing_wf_key unfolding selects_def by blast
    moreover have "thing_wf (LinksKey e) \<and> key = thing_storage_key (LinksKey e) \<longleftrightarrow> t = LinksKey e" for e using t thing_key_inj by blast
    ultimately show ?thesis using fst_links t(2) by blast
  next
    fix b bs assume "fst key = keyspace_id_of DefaultOptimisedPrefix11" 
    then show ?thesis unfolding ks by (auto simp: thing_storage_key.simps ks)
  qed
  then have mem: "(key, n) \<in> set items \<longleftrightarrow> (\<exists>e. thing_wf (LinksKey e) \<and> lk_is_reverse e = d \<and> lk_from e = v \<and>
       key = thing_storage_key (LinksKey e) \<and> ws_view storage s key = Some n)" for key n
    unfolding bt_get_eq_Some_iff[OF items(2), symmetric] items(3) if_Some using view_graph_key[OF g, of key] by blast
  show thesis by (rule that[OF items(1) bt_wf_distinct[OF items(2)] mem])
qed

text \<open>The players of a relation, and the relations of a player, with their roles and counts.\<close>

definition counts_of :: "(object_vertex \<Rightarrow> type_id \<Rightarrow> thing_key) \<Rightarrow> (storage_key \<rightharpoonup> bytes) \<Rightarrow> (object_vertex \<times> type_id \<times> 64 word) list \<Rightarrow> bool" where
  "counts_of edge V ps \<longleftrightarrow> distinct (map (\<lambda>(p, t, n). (p, t)) ps) \<and>
     (\<forall>p t n. (p, t, n) \<in> set ps \<longleftrightarrow> thing_wf (edge p t) \<and> V (thing_storage_key (edge p t)) = Some (encode_u64 n))"

lemma encode_decode_u64: "length v = 8 \<Longrightarrow> encode_u64 (decode_u64 v) = v"
  using be_decode_bound[of v] by (simp add: encode_u64_def decode_u64_def unsigned_of_nat take_bit_nat_eq_self be_encode_decode)

lemma links_items:
  assumes inv: "tm_inv storage s" and v: "object_vertex_wf v" "\<not> d \<Longrightarrow> ov_prefix v = VertexRelation"
    and q: "q = (if d then EdgeLinksReverse else EdgeLinks)"
    and edge: "\<And>e. lk_is_reverse e = d \<and> lk_from e = v \<longleftrightarrow> LinksKey e = edge (lk_to e) (lk_role_id e)"
      "\<And>p t. \<exists>e. edge p t = LinksKey e \<and> lk_to e = p \<and> lk_role_id e = t"
  obtains items where "scan storage s (keyspace_id_of links_keyspace, prefix_id q # object_vertex_to_bytes v) fw = Some items"
    "\<And>key n. (key, n) \<in> set items \<Longrightarrow> \<exists>e. key = thing_storage_key (LinksKey e) \<and> thing_wf (LinksKey e) \<and> lk_is_reverse e = d \<and> length n = 8"
    "counts_of edge (ws_view storage s) (map (\<lambda>(key, n). let e = the (links_decode (snd key)) in (lk_to e, lk_role_id e, decode_u64 n)) items)"
proof -
  obtain items where items: "scan storage s (keyspace_id_of links_keyspace, prefix_id q # object_vertex_to_bytes v) fw = Some items"
    "distinct (map fst items)"
    "\<And>key n. (key, n) \<in> set items \<longleftrightarrow> (\<exists>e. thing_wf (LinksKey e) \<and> lk_is_reverse e = d \<and> lk_from e = v \<and>
       key = thing_storage_key (LinksKey e) \<and> ws_view storage s key = Some n)"
    using links_scan[OF inv v q] by blast
  have wf: "\<exists>e. key = thing_storage_key (LinksKey e) \<and> thing_wf (LinksKey e) \<and> lk_is_reverse e = d \<and> length n = 8" if "(key, n) \<in> set items" for key n
    using that[unfolded items(3)] edge_value[OF inv, of "LinksKey _" n] by auto
  have dec: "links_decode (snd (thing_storage_key (LinksKey e))) = Some e" for e by (simp add: thing_storage_key.simps links_roundtrip)
  let ?g = "\<lambda>(key, n). let e = the (links_decode (snd key)) in (lk_to e, lk_role_id e, decode_u64 n)"
  let ?h = "\<lambda>(key, n). thing_storage_key (edge (lk_to (the (links_decode (snd key)))) (lk_role_id (the (links_decode (snd key)))))"
  have key: "fst x = ?h x" if x: "x \<in> set items" for x
  proof -
    obtain e where e: "lk_is_reverse e = d \<and> lk_from e = v" "fst x = thing_storage_key (LinksKey e)"
      using x items(3)[of "fst x" "snd x"] by auto
    have "thing_storage_key (edge (lk_to e) (lk_role_id e)) = fst x" using edge(1)[of e, THEN iffD1, OF e(1)] e(2) by metis
    then show ?thesis by (simp add: split_beta e(2) dec)
  qed
  have eq: "map (\<lambda>(p, t). thing_storage_key (edge p t)) (map (\<lambda>(p, t, n). (p, t)) (map ?g items)) = map fst items"
    using key by (auto simp: split_beta Let_def)
  have dist: "distinct (map (\<lambda>(p, t, n). (p, t)) (map ?g items))" 
    using items(2) unfolding eq[symmetric] distinct_map by blast
  have "(p, t, n) \<in> set (map ?g items) \<longleftrightarrow> thing_wf (edge p t) \<and> ws_view storage s (thing_storage_key (edge p t)) = Some (encode_u64 n)" for p t n
  proof
    assume "(p, t, n) \<in> set (map ?g items)"
    then obtain key m where m: "(key, m) \<in> set items" "(p, t, n) = ?g (key, m)" by auto
    then obtain e where e: "thing_wf (LinksKey e)" "lk_is_reverse e = d" "lk_from e = v" "key = thing_storage_key (LinksKey e)"
      "ws_view storage s key = Some m" using items(3) by blast
    have "length m = 8" using edge_value[OF inv e(1), of m] e(4,5) by simp
    moreover have n: "p = lk_to e" "t = lk_role_id e" "n = decode_u64 m" using m(2) e(4) dec by (simp_all add: Let_def)
    moreover have "edge p t = LinksKey e" using edge(1)[of e] e(2,3) n by simp
    ultimately show "thing_wf (edge p t) \<and> ws_view storage s (thing_storage_key (edge p t)) = Some (encode_u64 n)"
      using e(1,4,5) by (simp add: encode_decode_u64)
  next
    assume a: "thing_wf (edge p t) \<and> ws_view storage s (thing_storage_key (edge p t)) = Some (encode_u64 n)"
    obtain e where e: "edge p t = LinksKey e" "lk_to e = p" "lk_role_id e = t" using edge(2) by blast
    then have "(thing_storage_key (LinksKey e), encode_u64 n) \<in> set items" unfolding items(3) using a edge(1)[of e] by metis
    then have "?g (thing_storage_key (LinksKey e), encode_u64 n) \<in> ?g ` set items" by (rule imageI)
    then show "(p, t, n) \<in> set (map ?g items)" using e dec by (simp add: Let_def)
  qed
  with dist have c: "counts_of edge (ws_view storage s) (map ?g items)" unfolding counts_of_def by blast
  show thesis by (rule that[OF items(1) wf c])
qed

lemma get_role_players_spec:
  assumes "tm_inv storage s" "ov_prefix r = VertexRelation"
  obtains ps where "get_role_players storage s r = Some ps" "counts_of (links_edge r) (ws_view storage s) ps"
proof -
  have v: "object_vertex_wf r" "\<not> False \<Longrightarrow> ov_prefix r = VertexRelation" using assms(2) by (simp_all add: object_vertex_wf_def)
  have e: "lk_is_reverse e = False \<and> lk_from e = r \<longleftrightarrow> LinksKey e = links_edge r (lk_to e) (lk_role_id e)"
    "\<exists>e. links_edge r p t = LinksKey e \<and> lk_to e = p \<and> lk_role_id e = t" for e p t
    by (cases e; auto simp: links_new_def lk_from_def lk_to_def) (simp add: links_new_def lk_to_def)
  obtain items where i: "scan storage s (keyspace_id_of links_keyspace, links_prefix_from_relation r) (fixed_width_keys EdgeLinks) = Some items"
    "\<And>key n. (key, n) \<in> set items \<Longrightarrow> \<exists>e. key = thing_storage_key (LinksKey e) \<and> thing_wf (LinksKey e) \<and> lk_is_reverse e = False \<and> length n = 8"
    "counts_of (links_edge r) (ws_view storage s) (map (\<lambda>(key, n). let e = the (links_decode (snd key)) in (lk_to e, lk_role_id e, decode_u64 n)) items)"
    using links_items[OF assms(1) v refl e] unfolding prefix_bytes by auto
  let ?f = "\<lambda>item. do { links \<leftarrow> storage_key_edge_to_links item; into_role_player links }"
  have "?f x = Some ((\<lambda>(key, n). let e = the (links_decode (snd key)) in (lk_to e, lk_role_id e, decode_u64 n)) x)" if m: "x \<in> set items" for x
  proof -
    obtain e n where x: "x = (thing_storage_key (LinksKey e), n)" "thing_wf (LinksKey e)" "length n = 8" "\<not> lk_is_reverse e"
      using i(2)[of "fst x" "snd x"] m by (cases x) auto
    then show ?thesis by (simp add: storage_key_edge_to_links_def into_role_player_def decode_value_u64_def object_new_def lk_to_def links_roundtrip
      thing_storage_key.simps object_vertex_wf_def)
  qed
  then have "those (map ?f items) = Some (map (\<lambda>(key, n). let e = the (links_decode (snd key)) in (lk_to e, lk_role_id e, decode_u64 n)) items)"
    by (rule those_map)
  moreover have "get_role_players storage s r = do {
      items \<leftarrow> scan storage s (keyspace_id_of links_keyspace, links_prefix_from_relation r) (fixed_width_keys EdgeLinks); those (map ?f items) }"
    by (simp add: get_role_players_def scan_def Let_def)
  ultimately show thesis using i(1) by (intro that[OF _ i(3)]) simp
qed

lemma get_player_relations_roles_spec:
  assumes "tm_inv storage s" "object_vertex_wf p"
  obtains rs where "get_player_relations_roles storage s p = Some rs" "counts_of (links_reverse_edge p) (ws_view storage s) rs"
proof -
  have v: "object_vertex_wf p" "\<not> True \<Longrightarrow> ov_prefix p = VertexRelation" using assms(2) by simp_all
  have e: "lk_is_reverse e = True \<and> lk_from e = p \<longleftrightarrow> LinksKey e = links_reverse_edge p (lk_to e) (lk_role_id e)"
    "\<exists>e. links_reverse_edge p r t = LinksKey e \<and> lk_to e = r \<and> lk_role_id e = t" for e r t
    by (cases e; auto simp: links_new_reverse_def lk_from_def lk_to_def) (simp add: links_new_reverse_def lk_to_def)
  obtain items where i: "scan storage s (keyspace_id_of links_keyspace, links_prefix_reverse_from_player p) (fixed_width_keys EdgeLinksReverse) = Some items"
    "\<And>key n. (key, n) \<in> set items \<Longrightarrow> \<exists>e. key = thing_storage_key (LinksKey e) \<and> thing_wf (LinksKey e) \<and> lk_is_reverse e = True \<and> length n = 8"
    "counts_of (links_reverse_edge p) (ws_view storage s) (map (\<lambda>(key, n). let e = the (links_decode (snd key)) in (lk_to e, lk_role_id e, decode_u64 n)) items)"
    using links_items[OF assms(1) v refl e] unfolding prefix_bytes by auto
  let ?f = "\<lambda>item. do { links \<leftarrow> storage_key_edge_to_links item; Some (into_relation_role links) }"
  have "?f x = Some ((\<lambda>(key, n). let e = the (links_decode (snd key)) in (lk_to e, lk_role_id e, decode_u64 n)) x)" if m: "x \<in> set items" for x
  proof -
    obtain e n where x: "x = (thing_storage_key (LinksKey e), n)" "thing_wf (LinksKey e)" "length n = 8" "lk_is_reverse e"
      using i(2)[of "fst x" "snd x"] m by (cases x) auto
    then show ?thesis by (simp add: storage_key_edge_to_links_def into_relation_role_def decode_value_u64_def lk_to_def links_roundtrip
      thing_storage_key.simps)
  qed
  then have "those (map ?f items) = Some (map (\<lambda>(key, n). let e = the (links_decode (snd key)) in (lk_to e, lk_role_id e, decode_u64 n)) items)"
    by (rule those_map)
  moreover have "get_player_relations_roles storage s p = do {
      items \<leftarrow> scan storage s (keyspace_id_of links_keyspace, links_prefix_reverse_from_player p) (fixed_width_keys EdgeLinksReverse);
      those (map ?f items) }"
    by (simp add: get_player_relations_roles_def scan_def Let_def)
  ultimately show thesis using i(1) by (intro that[OF _ i(3)]) simp
qed

end
