(* ===== verification/ThingIndex.thy ===== *)
theory ThingIndex
  imports ThingScans
begin

text \<open>
  The players of relations and the index of pairs of players: what each pass over the index writes, when the index stays
  exact, and the effect of setting, incrementing and decrementing the count of a player.
\<close>

section \<open>The index: what the operations do\<close>

abbreviation index_key :: "object_vertex \<Rightarrow> object_vertex \<Rightarrow> object_vertex \<Rightarrow> type_id \<Rightarrow> type_id \<Rightarrow> storage_key" where
  "index_key p q r t u \<equiv> thing_storage_key (index_edge p q r t u)"

lemma index_key_inj:
  "index_key p q r t u = index_key p' q' r' t' u' \<longleftrightarrow>
    p = p' \<and> q = q' \<and> t = t' \<and> u = u' \<and> ov_type_id r = ov_type_id r' \<and> ov_object_id r = ov_object_id r'"
  by (auto simp: thing_key_inj indexed_new_def)

lemma index_key_other:
  "thing_wf t \<Longrightarrow> (\<And>i. t \<noteq> IndexedKey i) \<Longrightarrow> index_key p q r x y \<noteq> thing_storage_key t"
  using thing_key_inj[of "index_edge p q r x y" t] by auto

text \<open>A change of the view at a pair of edges of the index that keeps the pair together.\<close>

lemma paired_update:
  assumes m: "paired m" and same: "\<And>k. k \<noteq> index_key p q r t u \<Longrightarrow> k \<noteq> index_key q p r u t \<Longrightarrow> m' k = m k"
    and pair: "m' (index_key p q r t u) = None \<longleftrightarrow> m' (index_key q p r u t) = None"
  shows "paired m'"
  unfolding paired_def
proof (intro allI)
  fix p' q' r' t' u'
  show "(m' (index_key p' q' r' t' u') = None) = (m' (index_key q' p' r' u' t') = None)"
  proof (cases "index_key p' q' r' t' u' \<in> {index_key p q r t u, index_key q p r u t}")
    case True
    then have "index_key p' q' r' t' u' = index_key p q r t u \<and> index_key q' p' r' u' t' = index_key q p r u t \<or>
      index_key p' q' r' t' u' = index_key q p r u t \<and> index_key q' p' r' u' t' = index_key p q r t u"
      unfolding insert_iff empty_iff index_key_inj by blast
    then show ?thesis using pair by (elim disjE conjE) simp_all
  next
    case False
    then have "index_key q' p' r' u' t' \<notin> {index_key p q r t u, index_key q p r u t}" by (auto simp: index_key_inj)
    with False have "m' (index_key p' q' r' t' u') = m (index_key p' q' r' t' u')" "m' (index_key q' p' r' u' t') = m (index_key q' p' r' u' t')"
      by (intro same; blast)+
    then show ?thesis using m unfolding paired_def by simp
  qed
qed

lemma graph_edges_index:
  assumes g: "graph_edges c w" and same: "\<And>k. k \<noteq> index_key p q r t u \<Longrightarrow> k \<noteq> index_key q p r u t \<Longrightarrow> w' k = w k"
    and typed: "\<And>x k. k = index_key p q r t u \<or> k = index_key q p r u t \<Longrightarrow> w' k = Some x \<Longrightarrow> \<not> is_insert x \<and> (is_put x \<longrightarrow> length (wvalue x) = 8)"
    and pair: "view c w' (index_key p q r t u) = None \<longleftrightarrow> view c w' (index_key q p r u t) = None"
  shows "graph_edges c w'"
proof -
  have other: "w' (thing_storage_key x) = w (thing_storage_key x)" if "thing_wf x" "\<And>i. x \<noteq> IndexedKey i" for x
    using that index_key_other[of x] by (intro same) metis+
  have m: "mirrored w'" unfolding mirrored_def
  proof (intro allI impI)
    fix x assume x: "thing_wf x"
    show "w' (thing_storage_key (edge_reverse x)) = w' (thing_storage_key x)"
    proof (cases "\<exists>i. x = IndexedKey i")
      case False
      then have "\<And>i. edge_reverse x \<noteq> IndexedKey i" "\<And>i. x \<noteq> IndexedKey i" by (cases x; simp)+
      then show ?thesis using other[of x] other[of "edge_reverse x"] x graph_edgesD(2)[OF g] unfolding mirrored_def by simp
    qed auto
  qed
  have p: "paired (view c w')" by (rule paired_update[OF graph_edgesD(4)[OF g] _ pair]) (simp add: view_def same)
  have ty: "write_typed x y" if "thing_wf x" "w' (thing_storage_key x) = Some y" for x y
  proof (cases "thing_storage_key x \<in> {index_key p q r t u, index_key q p r u t}")
    case True
    then have "is_edge x" using that(1) by (auto simp: thing_key_inj)
    then show ?thesis using typed[of _ y] True that(2) edge_typed[of x y] by auto
  next
    case False
    then show ?thesis using same graph_edgesD(6)[OF g that(1)] that(2) by auto
  qed
  have fresh: "c (thing_storage_key x) = None" if "thing_wf x" "v \<in> thing_ends x" "object_vertex_wf v" "w' (object_key v) = Some (Insert y)" for x v y
    using that other[of "ObjectKey v"] graph_edgesD(7)[OF g] by auto
  show ?thesis unfolding graph_edges_def using graph_edgesD(1,3)[OF g] m p ty fresh graph_edgesD(5)[OF g] by blast
qed

lemma index_not_object: "object_vertex_wf v \<Longrightarrow> object_key v \<noteq> index_key p q r t u"
  using edge_not_object(2)[of "index_edge p q r t u" v] by simp

lemma tm_put_index:
  assumes "tm_inv storage s" "length a = 8" "length b = 8"
  shows "tm_goes storage s (do { s \<leftarrow> ws_put_val (index_key p q r t u) a s; ws_put_val (index_key q p r u t) b s })
      ((ws_view storage s)(index_key p q r t u \<mapsto> a, index_key q p r u t \<mapsto> b)) (ws_locks s)"
    and "tm_goes storage s (ws_put_val (index_key p p r t t) a s) ((ws_view storage s)(index_key p p r t t \<mapsto> a)) (ws_locks s)"
proof -
  let ?c = "committed storage (ws_open_sequence_number s)" and ?w = "ws_writes s"
  have g: "graph_ok storage s" "graph_edges ?c ?w" using assms(1) unfolding tm_inv_def by auto
  have e: "graph_edges ?c (?w(index_key p q r t u \<mapsto> Put a False False, index_key q p r u t \<mapsto> Put b False False))"
    by (rule graph_edges_index[OF g(2), of p q r t u]) (use assms(2,3) in \<open>auto simp: view_def split: if_splits\<close>)
  have "goes storage (do { s \<leftarrow> ws_put_val (index_key p q r t u) a s; ws_put_val (index_key q p r u t) b s }) (ws_open_sequence_number s)
      (?w(index_key p q r t u \<mapsto> Put a False False, index_key q p r u t \<mapsto> Put b False False)) (ws_locks s)"
    by (rule goes_both(2)[OF g(1)]) simp_all
  from tm_goes_goes[OF assms(1) this e]
  show "tm_goes storage s (do { s \<leftarrow> ws_put_val (index_key p q r t u) a s; ws_put_val (index_key q p r u t) b s })
      ((ws_view storage s)(index_key p q r t u \<mapsto> a, index_key q p r u t \<mapsto> b)) (ws_locks s)"
    using index_not_object by (simp add: view_put ws_view_def)
  have e': "graph_edges ?c (?w(index_key p p r t t \<mapsto> Put a False False))"
    by (rule graph_edges_index[OF g(2), of p p r t t]) (use assms(2) in \<open>auto split: if_splits\<close>)
  have "goes storage (ws_put_val (index_key p p r t t) a s) (ws_open_sequence_number s) (?w(index_key p p r t t \<mapsto> Put a False False)) (ws_locks s)"
    by (rule goes_put[OF g(1)]) simp
  from tm_goes_goes[OF assms(1) this e']
  show "tm_goes storage s (ws_put_val (index_key p p r t t) a s) ((ws_view storage s)(index_key p p r t t \<mapsto> a)) (ws_locks s)"
    using index_not_object by (simp add: view_put ws_view_def)
qed

fun index_put ::
    "object_vertex \<Rightarrow> object_vertex \<Rightarrow> type_id \<Rightarrow> 64 word \<Rightarrow> object_vertex \<times> type_id \<times> 64 word \<Rightarrow> (storage_key \<rightharpoonup> bytes) \<Rightarrow> storage_key \<rightharpoonup> bytes" where
  "index_put r p t n (q, u, m) V =
     (if q = p \<and> u = t then (if n - 1 > 0 then V(index_key p p r t t \<mapsto> encode_u64 (n - 1)) else V)
      else V(index_key p q r t u \<mapsto> encode_u64 m, index_key q p r u t \<mapsto> encode_u64 n))"

lemma tm_regenerate_step:
  assumes "tm_inv storage s"
  shows "tm_goes storage s (index_regenerate_step r p t n x s) (index_put r p t n x (ws_view storage s)) (ws_locks s)"
  using tm_put_index[OF assms, of "encode_u64 _" "encode_u64 _"] tm_goes_Some[OF assms]
  by (cases x) (simp add: index_regenerate_step_def is_same_role_player_def Let_def)

fun index_remove ::
    "object_vertex \<Rightarrow> object_vertex \<Rightarrow> type_id \<Rightarrow> object_vertex \<times> type_id \<times> 64 word \<Rightarrow> (storage_key \<rightharpoonup> bytes) \<Rightarrow> storage_key \<rightharpoonup> bytes" where
  "index_remove r p t (q, u, m) V = V(index_key p q r t u := None, index_key q p r u t := None)"

definition unput_writes :: "storage_key \<Rightarrow> (storage_key \<rightharpoonup> buffered_write) \<Rightarrow> storage_key \<rightharpoonup> buffered_write" where
  "unput_writes k w = (case w k of Some (Put _ _ _) \<Rightarrow> w(k := None) | _ \<Rightarrow> w)"

lemma goes_unput_if_put:
  assumes "graph_ok storage s" "thing_wf t" "map_option is_insert (ws_writes s (thing_storage_key t)) \<noteq> Some True"
  shows "goes storage (unput_if_put (thing_storage_key t) s) (ws_open_sequence_number s)
    (unput_writes (thing_storage_key t) (ws_writes s)) (ws_locks s)"
proof (cases "ws_writes s (thing_storage_key t)")
  case None
  then show ?thesis using goes_Some[OF assms(1)]
    by (simp add: unput_if_put_def get_snapshot_put_value_def graph_get(1)[OF assms(1,2)] unput_writes_def)
next
  case (Some x)
  then show ?thesis using goes_Some[OF assms(1)] assms(3) goes_unput[OF assms(1,2)]
    by (cases x) (auto simp: unput_if_put_def get_snapshot_put_value_def graph_get(1)[OF assms(1,2)] unput_writes_def)
qed

definition remove_writes ::
    "(storage_key \<rightharpoonup> bytes) \<Rightarrow> storage_key \<Rightarrow> storage_key \<Rightarrow> (storage_key \<rightharpoonup> buffered_write) \<Rightarrow> storage_key \<rightharpoonup> buffered_write" where
  "remove_writes c k k' w =
     (let w2 = unput_writes k' (unput_writes k w) in if view c w2 k \<noteq> None then w2(k \<mapsto> Delete, k' \<mapsto> Delete) else w2)"

lemma unput_writes_at:
  "x \<noteq> k \<Longrightarrow> unput_writes k w x = w x"
  "unput_writes k w k = (case w k of Some (Put _ _ _) \<Rightarrow> None | y \<Rightarrow> y)"
  by (simp_all add: unput_writes_def split: option.split buffered_write.split)

lemma unput_writes_both:
  "x = k \<or> x = k' \<Longrightarrow> unput_writes k' (unput_writes k w) x = (case w x of Some (Put _ _ _) \<Rightarrow> None | y \<Rightarrow> y)"
  by (cases "x = k"; cases "x = k'") (simp_all add: unput_writes_at split: option.split buffered_write.split)

lemma not_inserted_cases: "(\<And>y. o' = Some y \<Longrightarrow> \<not> is_insert y) \<Longrightarrow> o' = None \<or> o' = Some Delete \<or> (\<exists>v r e. o' = Some (Put v r e))"
  by (cases o') (auto elim: is_insert.elims(3))

lemma remove_writes_spec:
  fixes p q r :: object_vertex and t u :: type_id
  assumes g: "graph_edges c w"
  defines "k \<equiv> index_key p q r t u" and "k' \<equiv> index_key q p r u t"
  shows "graph_edges c (remove_writes c k k' w)" "view c (remove_writes c k k' w) = (view c w)(k := None, k' := None)"
proof -
  define w2 where "w2 = unput_writes k' (unput_writes k w)"
  define w3 where "w3 = (if view c w2 k \<noteq> None then w2(k \<mapsto> Delete, k' \<mapsto> Delete) else w2)"
  have w3: "remove_writes c k k' w = w3" by (simp only: remove_writes_def w2_def w3_def Let_def)
  have ni: "\<not> is_insert x" if "w k = Some x \<or> w k' = Some x" for x
    using that graph_edgesD(6)[OF g, of "index_edge p q r t u" x] graph_edgesD(6)[OF g, of "index_edge q p r u t" x] by (auto simp: k_def k'_def)
  have pr: "c k = None \<longleftrightarrow> c k' = None" "view c w k = None \<longleftrightarrow> view c w k' = None"
    unfolding k_def k'_def
    by (rule graph_edgesD(3)[OF g, unfolded paired_def, rule_format]) (rule graph_edgesD(4)[OF g, unfolded paired_def, rule_format])
  have other: "w2 x = w x" if "x \<noteq> k" "x \<noteq> k'" for x using that by (simp add: w2_def unput_writes_at(1))
  have at: "w2 x = (case w x of Some (Put _ _ _) \<Rightarrow> None | y \<Rightarrow> y)" if "x = k \<or> x = k'" for x
    unfolding w2_def by (rule unput_writes_both[OF that])
  have cs: "w x = None \<or> w x = Some Delete \<or> (\<exists>v r e. w x = Some (Put v r e))" if "x = k \<or> x = k'" for x
    using that ni by (intro not_inserted_cases) auto
  have view2: "view c w2 x = (if w x = Some Delete then None else c x)" "w2 x = None \<or> w2 x = Some Delete" if "x = k \<or> x = k'" for x
    using at[OF that] cs[OF that] by (auto simp: view_def)
  have both: "view c w2 k' = None" if "view c w2 k = None"
    using that pr view2(1)[of k] view2(1)[of k'] cs[of k] cs[of k'] by (auto simp: view_def split: if_splits)
  have v3: "view c w3 = (view c w)(k := None, k' := None)"
  proof
    fix x
    show "view c w3 x = ((view c w)(k := None, k' := None)) x"
      using both other[of x] by (cases "x = k \<or> x = k'") (auto simp: w3_def view_def)
  qed
  have del: "y = Delete" if "x = k \<or> x = k'" "w3 x = Some y" for x y
    using view2(2)[OF that(1)] that by (auto simp: w3_def split: if_splits)
  have "w3 x = w x" if "x \<noteq> k" "x \<noteq> k'" for x using other[OF that] that by (simp add: w3_def)
  then have "graph_edges c w3"
    unfolding k_def k'_def
    by (rule graph_edges_index[OF g]) (use del v3 in \<open>fastforce simp: k_def k'_def\<close>)+
  then show "graph_edges c (remove_writes c k k' w)" "view c (remove_writes c k k' w) = (view c w)(k := None, k' := None)"
    using v3 by (simp_all only: w3)
qed

lemma tm_remove_step:
  assumes inv: "tm_inv storage s"
  shows "tm_goes storage s (index_remove_step storage r p t x s) (index_remove r p t x (ws_view storage s)) (ws_locks s)"
proof -
  obtain q u m where x: "x = (q, u, m)" by (cases x) auto
  let ?k = "index_key p q r t u" and ?k' = "index_key q p r u t"
  let ?c = "committed storage (ws_open_sequence_number s)" and ?w = "ws_writes s"
  have g: "graph_ok storage s" "graph_edges ?c ?w" using inv unfolding tm_inv_def by auto
  have ni: "map_option is_insert (?w ?k) \<noteq> Some True" "map_option is_insert (?w ?k') \<noteq> Some True"
    using graph_edgesD(6)[OF g(2), of "index_edge p q r t u"] graph_edgesD(6)[OF g(2), of "index_edge q p r u t"] by auto
  have rev: "thing_storage_key (IndexedKey (indexed_into_reverse (indexed_new p q r t u))) = ?k'"
    by (simp add: indexed_into_reverse_def indexed_new_def)
  let ?tail = "\<lambda>s. do { found \<leftarrow> ws_get storage s ?k; if found \<noteq> None then do { s \<leftarrow> ws_delete ?k s;
      if \<not> is_same_role_player q u p t then ws_delete ?k' s else Some s } else Some s }"
  have same: "index_key q p r u t = index_key p q r t u" if "is_same_role_player q u p t" using that by (simp add: is_same_role_player_def)
  have tail: "goes storage (?tail s2) (ws_open_sequence_number s) (remove_writes ?c ?k ?k' ?w) (ws_locks s)"
    if s2: "graph_ok storage s2" "ws_open_sequence_number s2 = ws_open_sequence_number s"
      "ws_writes s2 = unput_writes ?k' (unput_writes ?k ?w)" "ws_locks s2 = ws_locks s" for s2
  proof -
    have get: "ws_get storage s2 ?k = Some (view ?c (ws_writes s2) ?k)" using graph_get(2)[OF s2(1), of "index_edge p q r t u"] s2(2) by (simp add: ws_view_def)
    have two: "goes storage (do { s \<leftarrow> ws_delete ?k s2; if \<not> is_same_role_player q u p t then ws_delete ?k' s else Some s }) (ws_open_sequence_number s)
        ((ws_writes s2)(?k \<mapsto> Delete, ?k' \<mapsto> Delete)) (ws_locks s)"
      using goes_both(1)[OF s2(1), of "index_edge p q r t u" "index_edge q p r u t"] goes_delete[OF s2(1), of "index_edge p q r t u"] s2(2,4) same
      by (cases "is_same_role_player q u p t") simp_all
    show ?thesis using two goes_Some[OF s2(1)] s2(2-4) unfolding get remove_writes_def Let_def
      by (cases "view ?c (unput_writes ?k' (unput_writes ?k ?w)) ?k") simp_all
  qed
  have ni': "map_option is_insert (unput_writes ?k ?w ?k') \<noteq> Some True" using ni
    by (cases "?k' = ?k") (auto simp: unput_writes_at split: option.splits buffered_write.splits)
  have "goes storage (do { s \<leftarrow> unput_if_put ?k s; s \<leftarrow> unput_if_put ?k' s; ?tail s }) (ws_open_sequence_number s) (remove_writes ?c ?k ?k' ?w) (ws_locks s)"
  proof (rule goes_bind[OF goes_unput_if_put[OF g(1) _ ni(1)]], simp)
    fix s1 assume s1: "graph_ok storage s1" "ws_open_sequence_number s1 = ws_open_sequence_number s" "ws_writes s1 = unput_writes ?k ?w" "ws_locks s1 = ws_locks s"
    show "goes storage (do { s \<leftarrow> unput_if_put ?k' s1; ?tail s }) (ws_open_sequence_number s) (remove_writes ?c ?k ?k' ?w) (ws_locks s)"
      using goes_unput_if_put[OF s1(1), of "index_edge q p r u t"] s1(2-4) ni' by (intro goes_bind[OF _ tail]) simp_all
  qed
  then have "goes storage (index_remove_step storage r p t x s) (ws_open_sequence_number s) (remove_writes ?c ?k ?k' ?w) (ws_locks s)"
    by (simp add: index_remove_step_def x Let_def rev cong: if_cong)
  from tm_goes_goes[OF inv this remove_writes_spec(1)[OF g(2)]] show ?thesis
    using index_not_object by (simp add: remove_writes_spec(2)[OF g(2)] x ws_view_def) (simp add: remove_writes_def unput_writes_at Let_def)
qed

subsection \<open>Loops over the players\<close>

lemma tm_for_each:
  assumes "tm_inv storage s"
    and "\<And>x s. tm_inv storage s \<Longrightarrow> tm_goes storage s (body x s) (step x (ws_view storage s)) (ws_locks s)"
  shows "tm_goes storage s (for_each body xs s) (fold step xs (ws_view storage s)) (ws_locks s)"
  using assms(1)
proof (induction xs arbitrary: s)
  case Nil
  then show ?case by (simp add: tm_goes_Some)
next
  case (Cons x xs)
  have "tm_goes storage s (do { s' \<leftarrow> body x s; for_each body xs s' }) (fold step xs (step x (ws_view storage s))) (ws_locks s)"
    by (rule tm_goes_bind[OF assms(2)[OF Cons.prems]]) (use Cons.IH in metis)
  then show ?case by simp
qed

text \<open>The edges of the index that a pass over the players touches, and what it leaves there.\<close>

definition index_keys :: "object_vertex \<Rightarrow> object_vertex \<Rightarrow> type_id \<Rightarrow> object_vertex \<times> type_id \<times> 64 word \<Rightarrow> storage_key set" where
  "index_keys r p t x = (case x of (q, u, _) \<Rightarrow> {index_key p q r t u, index_key q p r u t})"

lemma index_keys_disjoint:
  "(q, u) \<noteq> (q', u') \<Longrightarrow> index_keys r p t (q, u, m) \<inter> index_keys r p t (q', u', m') = {}"
  by (auto simp: index_keys_def index_key_inj)

lemma fold_untouched:
  assumes "\<And>x V. x \<in> set xs \<Longrightarrow> k \<notin> index_keys r p t x \<Longrightarrow> step x V k = V k" "\<And>x. x \<in> set xs \<Longrightarrow> k \<notin> index_keys r p t x"
  shows "fold step xs V k = V k"
  using assms by (induction xs arbitrary: V) auto

lemma fold_touched:
  assumes "\<And>x V k. k \<notin> index_keys r p t x \<Longrightarrow> step x V k = V k" "distinct (map (\<lambda>(q, u, m). (q, u)) xs)"
    and "(q, u, m) \<in> set xs" "k \<in> index_keys r p t (q, u, m)" "\<And>V W. V k = W k \<Longrightarrow> step (q, u, m) V k = step (q, u, m) W k"
  shows "fold step xs V k = step (q, u, m) V k"
proof -
  obtain as bs where xs: "xs = as @ (q, u, m) # bs" using assms(3) by (meson split_list)
  have ne: "k \<notin> index_keys r p t x" if "x \<in> set as \<or> x \<in> set bs" for x
  proof -
    obtain q' u' m' where x: "x = (q', u', m')" by (cases x) auto
    then have "(q', u') \<in> (\<lambda>(q, u, m). (q, u)) ` set as \<union> (\<lambda>(q, u, m). (q, u)) ` set bs" using that by force
    then have "(q, u) \<noteq> (q', u')" using assms(2) unfolding xs by auto
    then show ?thesis using index_keys_disjoint assms(4) unfolding x by blast
  qed
  have "fold step xs V k = step (q, u, m) (fold step as V) k" unfolding xs using fold_untouched[of bs k r p t step] assms(1) ne by simp
  also have "\<dots> = step (q, u, m) V k" using fold_untouched[of as k r p t step V] assms(1) ne by (intro assms(5)) blast
  finally show ?thesis .
qed

lemma index_steps_local:
  "k \<notin> index_keys r p t x \<Longrightarrow> index_put r p t n x V k = V k" "k \<notin> index_keys r p t x \<Longrightarrow> index_remove r p t x V k = V k"
  "V k = W k \<Longrightarrow> index_put r p t n x V k = index_put r p t n x W k" "V k = W k \<Longrightarrow> index_remove r p t x V k = index_remove r p t x W k"
proof -
  obtain q u m where x: "x = (q, u, m)" by (rule prod_cases3)
  show "index_put r p t n x V k = V k" if "k \<notin> index_keys r p t x"
  proof (cases "q = p \<and> u = t")
    case True
    then have "k \<noteq> index_key p p r t t" using that by (simp add: x index_keys_def)
    then show ?thesis using True by (simp add: x)
  next
    case False
    then show ?thesis using that by (simp add: x index_keys_def del: de_Morgan_conj)
  qed
  show "index_remove r p t x V k = V k" if "k \<notin> index_keys r p t x" using that by (simp add: x index_keys_def)
  show "index_put r p t n x V k = index_put r p t n x W k" if "V k = W k"
    unfolding x index_put.simps by (cases "q = p \<and> u = t"; cases "n - 1 > 0") (simp_all only: simp_thms if_True if_False fun_upd_apply that)
  show "index_remove r p t x V k = index_remove r p t x W k" if "V k = W k" unfolding x index_remove.simps fun_upd_apply that ..
qed

lemma fold_index:
  assumes "distinct (map (\<lambda>(q, u, m). (q, u)) ps)" "x \<in> set ps" "k \<in> index_keys r p t x"
  shows "fold (index_put r p t n) ps V k = index_put r p t n x V k" "fold (index_remove r p t) ps V k = index_remove r p t x V k"
proof -
  obtain q u m where x: "x = (q, u, m)" by (cases x) auto
  note m = assms(2,3)[unfolded x]
  show "fold (index_put r p t n) ps V k = index_put r p t n x V k"
    unfolding x by (rule fold_touched[where step = "index_put r p t n", OF index_steps_local(1) assms(1) m index_steps_local(3)])
  show "fold (index_remove r p t) ps V k = index_remove r p t x V k"
    unfolding x by (rule fold_touched[where step = "index_remove r p t", OF index_steps_local(2) assms(1) m index_steps_local(4)])
qed

lemma fold_index_untouched:
  assumes "\<And>x. x \<in> set ps \<Longrightarrow> k \<notin> index_keys r p t x"
  shows "fold (index_put r p t n) ps V k = V k" "fold (index_remove r p t) ps V k = V k"
  using fold_untouched[where step = "index_put r p t n", OF index_steps_local(1) assms]
    fold_untouched[where step = "index_remove r p t", OF index_steps_local(2) assms] by blast+

subsection \<open>Exactness of the index\<close>

definition player_count :: "(storage_key \<rightharpoonup> bytes) \<Rightarrow> object_vertex \<Rightarrow> object_vertex \<Rightarrow> type_id \<Rightarrow> 64 word option" where
  "player_count V r p t = (if thing_wf (links_edge r p t) then map_option decode_u64 (V (thing_storage_key (links_edge r p t))) else None)"

text \<open>The count of an edge of the index: the count of the player it leads to, and between a player and itself the number of
  its other repetitions.\<close>

definition index_value ::
    "(object_vertex \<Rightarrow> type_id \<Rightarrow> 64 word option) \<Rightarrow> object_vertex \<Rightarrow> type_id \<Rightarrow> object_vertex \<Rightarrow> type_id \<Rightarrow> 64 word option" where
  "index_value pl p t q u = do {
     _ \<leftarrow> pl p t;
     n \<leftarrow> pl q u;
     if p = q \<and> t = u then (if n > 1 then Some (n - 1) else None) else Some n }"

definition index_exact :: "(storage_key \<rightharpoonup> bytes) \<Rightarrow> object_vertex \<Rightarrow> bool" where
  "index_exact V r \<longleftrightarrow> (\<forall>p q t u. object_vertex_wf p \<longrightarrow> object_vertex_wf q \<longrightarrow>
     V (index_key p q r t u) = map_option encode_u64 (index_value (player_count V r) p t q u))"

lemma index_exactD:
  "index_exact V r \<Longrightarrow> object_vertex_wf p \<Longrightarrow> object_vertex_wf q \<Longrightarrow>
    V (index_key p q r t u) = map_option encode_u64 (index_value (player_count V r) p t q u)"
  unfolding index_exact_def by blast

lemma word_minus_one_pos: "n \<noteq> 0 \<Longrightarrow> n - 1 > 0 \<longleftrightarrow> n > (1 :: 64 word)"
proof -
  assume "n \<noteq> 0"
  then have "n > 1 \<longleftrightarrow> n \<noteq> 1" using word_less_1[of n] by (metis less_irrefl neqE)
  then show ?thesis by (simp add: word_gt_0)
qed

text \<open>When everything but the edge of one player to itself is as it has to be, that edge decides.\<close>

lemma index_exact_iff:
  assumes "index_exact V r" "object_vertex_wf p"
    and "\<And>a b x y. object_vertex_wf a \<Longrightarrow> object_vertex_wf b \<Longrightarrow> V' (index_key a b r x y) =
      (if small \<and> a = p \<and> b = p \<and> x = t \<and> y = t then V (index_key p p r t t) else map_option encode_u64 (index_value (player_count V' r) a x b y))"
    and "small \<Longrightarrow> \<not> (\<exists>m > 1. player_count V' r p t = Some m)"
  shows "index_exact V' r \<longleftrightarrow> \<not> (small \<and> (\<exists>m > 1. player_count V r p t = Some m))"
proof -
  have old: "V (index_key p p r t t) = None \<longleftrightarrow> \<not> (\<exists>m > 1. player_count V r p t = Some m)"
    unfolding index_exactD[OF assms(1,2,2)] by (cases "player_count V r p t") (auto simp: index_value_def)
  have new: "index_value (player_count V' r) p t p t = None" if small
    using assms(4)[OF that] by (cases "player_count V' r p t") (auto simp: index_value_def)
  have "index_exact V' r \<longleftrightarrow> (small \<longrightarrow> V (index_key p p r t t) = None)"
  proof
    assume "index_exact V' r"
    from index_exactD[OF this assms(2,2), of t t] show "small \<longrightarrow> V (index_key p p r t t) = None"
      unfolding assms(3)[OF assms(2,2)] using new by (cases small) simp_all
  next
    assume "small \<longrightarrow> V (index_key p p r t t) = None"
    then show "index_exact V' r" unfolding index_exact_def using assms(3) new by simp
  qed
  then show ?thesis unfolding old by simp
qed

lemma fold_index_links:
  assumes "thing_wf x" "\<And>i. x \<noteq> IndexedKey i"
  shows "fold (index_put r p t n) ps V (thing_storage_key x) = V (thing_storage_key x)"
    "fold (index_remove r p t) ps V (thing_storage_key x) = V (thing_storage_key x)"
proof -
  have "thing_storage_key x \<notin> index_keys r p t y" for y
    using index_key_other[OF assms] unfolding index_keys_def by (cases y rule: prod_cases3) (simp, metis)
  then show "fold (index_put r p t n) ps V (thing_storage_key x) = V (thing_storage_key x)"
    "fold (index_remove r p t) ps V (thing_storage_key x) = V (thing_storage_key x)" using fold_index_untouched by blast+
qed

lemma fold_index_player_count:
  "player_count (fold (index_put r p t n) ps V) r' = player_count V r'" "player_count (fold (index_remove r p t) ps V) r' = player_count V r'"
  using fold_index_links[of "links_edge r' _ _"] by (auto simp: player_count_def fun_eq_iff simp del: thing_wf.simps)

text \<open>A change of one player's links.\<close>

lemma player_count_links:
  assumes "thing_wf (links_edge r p t)"
  shows "player_count (V(thing_storage_key (links_edge r p t) := x, thing_storage_key (links_reverse_edge p r t) := y)) r q u =
    (if q = p \<and> u = t then map_option decode_u64 x else player_count V r q u)"
proof -
  have "links_edge r q u \<noteq> links_reverse_edge p r t" by (simp add: links_new_def links_new_reverse_def)
  moreover have "links_edge r q u = links_edge r p t \<longleftrightarrow> q = p \<and> u = t" by (simp add: links_new_def)
  moreover have "thing_wf (links_reverse_edge p r t)" using assms by (simp add: links_new_def links_new_reverse_def)
  ultimately show ?thesis using assms by (auto simp: player_count_def thing_key_inj simp del: thing_wf.simps)
qed

lemma index_links:
  assumes "thing_wf (links_edge r p t)"
  shows "(V(thing_storage_key (links_edge r p t) := x, thing_storage_key (links_reverse_edge p r t) := y)) (index_key a b r' c d) = V (index_key a b r' c d)"
  using index_key_other[of "links_edge r p t"] index_key_other[of "links_reverse_edge p r t"] assms
  by (simp add: links_new_def links_new_reverse_def)

lemma index_keys_mem:
  "index_key a b r x y \<in> index_keys r p t (q, u, m) \<longleftrightarrow> a = p \<and> x = t \<and> b = q \<and> y = u \<or> b = p \<and> y = t \<and> a = q \<and> x = u"
  by (auto simp: index_keys_def index_key_inj)

text \<open>What a pass over the players has to do for the index to be exact.\<close>

lemma index_pass_exact:
  assumes V: "index_exact V r" and p: "object_vertex_wf p"
    and pc: "player_count V' r = pl" "\<And>q u. \<not> (q = p \<and> u = t) \<Longrightarrow> pl q u = player_count V r q u"
    and self: "V' (index_key p p r t t) = (if small then V (index_key p p r t t) else map_option encode_u64 (index_value pl p t p t))"
    and touched: "\<And>b y m. \<not> (b = p \<and> y = t) \<Longrightarrow> pl b y = Some m \<Longrightarrow>
      V' (index_key p b r t y) = map_option encode_u64 (index_value pl p t b y) \<and> V' (index_key b p r y t) = map_option encode_u64 (index_value pl b y p t)"
    and untouched: "\<And>a b x y. \<not> (a = p \<and> x = t \<and> pl b y \<noteq> None) \<Longrightarrow> \<not> (b = p \<and> y = t \<and> pl a x \<noteq> None) \<Longrightarrow>
      V' (index_key a b r x y) = V (index_key a b r x y)"
    and small: "small \<Longrightarrow> \<not> (\<exists>m > 1. pl p t = Some m)"
  shows "index_exact V' r \<longleftrightarrow> \<not> (small \<and> (\<exists>m > 1. player_count V r p t = Some m))"
proof (rule index_exact_iff[OF V p])
  fix a b x y assume ab: "object_vertex_wf a" "object_vertex_wf b"
  consider "a = p \<and> x = t \<and> b = p \<and> y = t" | m where "a = p" "x = t" "\<not> (b = p \<and> y = t)" "pl b y = Some m"
    | m where "b = p" "y = t" "\<not> (a = p \<and> x = t)" "pl a x = Some m"
    | "\<not> (a = p \<and> x = t \<and> b = p \<and> y = t)" "\<not> (a = p \<and> x = t \<and> pl b y \<noteq> None)" "\<not> (b = p \<and> y = t \<and> pl a x \<noteq> None)"
    by (cases "a = p \<and> x = t"; cases "b = p \<and> y = t") auto
  then show "V' (index_key a b r x y) = (if small \<and> a = p \<and> b = p \<and> x = t \<and> y = t then V (index_key p p r t t)
      else map_option encode_u64 (index_value (player_count V' r) a x b y))"
  proof cases
    case 1
    then show ?thesis unfolding pc(1) using self by simp
  next
    case 2
    then show ?thesis unfolding pc(1) using touched[OF 2(3,4)] by auto
  next
    case 3
    then show ?thesis unfolding pc(1) using touched[OF 3(3,4)] by auto
  next
    case 4
    then show ?thesis unfolding pc(1) using untouched[OF 4(2,3)] index_exactD[OF V ab, of x y] pc(2)[of a x] pc(2)[of b y]
      by (auto simp: index_value_def bind_eq_None_conv split: option.splits if_splits)
  qed
qed (use small pc(1) in simp)

lemma index_pass_untouched:
  assumes "\<And>q u m. (q, u, m) \<in> set ps \<longleftrightarrow> pl q u = Some m"
    and "\<not> (a = p \<and> x = t \<and> pl b y \<noteq> None)" "\<not> (b = p \<and> y = t \<and> pl a x \<noteq> None)" "z \<in> set ps"
  shows "index_key a b r x y \<notin> index_keys r p t z"
  using assms by (cases z rule: prod_cases3) (auto simp: index_keys_mem)

lemma index_put_exact:
  assumes V: "index_exact V r" and p: "thing_wf (links_edge r p t)" "object_vertex_wf p" and n: "n \<noteq> 0"
    and ps: "distinct (map (\<lambda>(q, u, m). (q, u)) ps)" "\<And>q u m. (q, u, m) \<in> set ps \<longleftrightarrow> player_count V1 r q u = Some m"
    and V1: "V1 = V(thing_storage_key (links_edge r p t) \<mapsto> encode_u64 n, thing_storage_key (links_reverse_edge p r t) \<mapsto> encode_u64 n)"
  shows "index_exact (fold (index_put r p t n) ps V1) r \<longleftrightarrow> \<not> (n = 1 \<and> (\<exists>m > 1. player_count V r p t = Some m))"
proof (rule index_pass_exact[OF V p(2) fold_index_player_count(1)])
  let ?V' = "fold (index_put r p t n) ps V1"
  have pc: "player_count V1 r q u = (if q = p \<and> u = t then Some n else player_count V r q u)" for q u
    unfolding V1 player_count_links[OF p(1)] by simp
  have ix: "V1 (index_key a b r x y) = V (index_key a b r x y)" for a b x y unfolding V1 by (rule index_links[OF p(1)])
  have touched: "?V' k = index_put r p t n (q, u, m) V1 k" if "player_count V1 r q u = Some m" "k \<in> index_keys r p t (q, u, m)" for q u m k
    by (rule fold_index(1)[OF ps(1) _ that(2)]) (simp add: ps(2) that(1))
  have "player_count V1 r p t = Some n" by (simp add: pc)
  then have "?V' (index_key p p r t t) = index_put r p t n (p, t, n) V1 (index_key p p r t t)" by (rule touched) (simp add: index_keys_mem)
  then have "?V' (index_key p p r t t) = (if n > 1 then Some (encode_u64 (n - 1)) else V (index_key p p r t t))"
    unfolding word_minus_one_pos[OF n, symmetric]
    by (cases "n - 1 > 0") (simp_all only: index_put.simps simp_thms if_True if_False fun_upd_same ix)
  moreover have "index_value (player_count V1 r) p t p t = (if n > 1 then Some (n - 1) else None)" by (simp add: index_value_def pc)
  moreover have "n = 1 \<longleftrightarrow> \<not> n > 1" using n word_minus_one_pos[OF n] by (metis less_irrefl word_gt_0 eq_iff_diff_eq_0)
  ultimately show "?V' (index_key p p r t t) =
      (if n = 1 then V (index_key p p r t t) else map_option encode_u64 (index_value (player_count V1 r) p t p t))"
    by (cases "n > 1") (simp_all only: simp_thms if_True if_False option.map)
  show "?V' (index_key p b r t y) = map_option encode_u64 (index_value (player_count V1 r) p t b y) \<and>
      ?V' (index_key b p r y t) = map_option encode_u64 (index_value (player_count V1 r) b y p t)"
    if b: "\<not> (b = p \<and> y = t)" "player_count V1 r b y = Some m" for b y m
  proof -
    have ne: "\<not> (p = b \<and> t = y)" "index_key p b r t y \<noteq> index_key b p r y t" using b(1) by (auto simp: index_key_inj)
    have k: "?V' k = (V1(index_key p b r t y \<mapsto> encode_u64 m, index_key b p r y t \<mapsto> encode_u64 n)) k" if "k \<in> index_keys r p t (b, y, m)" for k
      using touched[OF b(2) that] unfolding index_put.simps if_not_P[OF b(1)] .
    show ?thesis using k[of "index_key p b r t y"] k[of "index_key b p r y t"] ne b pc[of p t] by (simp add: index_keys_mem index_value_def)
  qed
  show "?V' (index_key a b r x y) = V (index_key a b r x y)"
    if "\<not> (a = p \<and> x = t \<and> player_count V1 r b y \<noteq> None)" "\<not> (b = p \<and> y = t \<and> player_count V1 r a x \<noteq> None)" for a b x y
    unfolding ix[symmetric] by (rule fold_index_untouched(1)) (rule index_pass_untouched[OF ps(2) that])
qed (auto simp: V1 player_count_links[OF p(1)])

lemma index_remove_exact:
  assumes V: "index_exact V r" and p: "thing_wf (links_edge r p t)" "object_vertex_wf p"
    and ps: "distinct (map (\<lambda>(q, u, m). (q, u)) ps)" "\<And>q u m. (q, u, m) \<in> set ps \<longleftrightarrow> player_count V1 r q u = Some m"
    and V1: "V1 = V(thing_storage_key (links_edge r p t) := None, thing_storage_key (links_reverse_edge p r t) := None)"
  shows "index_exact (fold (index_remove r p t) ps V1) r \<longleftrightarrow> \<not> (\<exists>m > 1. player_count V r p t = Some m)"
proof (rule index_pass_exact[where small = True, unfolded simp_thms if_True, OF V p(2) fold_index_player_count(2)])
  let ?V' = "fold (index_remove r p t) ps V1"
  have pc: "player_count V1 r p t = None" unfolding V1 player_count_links[OF p(1)] by simp
  have ix: "V1 (index_key a b r x y) = V (index_key a b r x y)" for a b x y unfolding V1 by (rule index_links[OF p(1)])
  show untouched: "?V' (index_key a b r x y) = V (index_key a b r x y)"
    if "\<not> (a = p \<and> x = t \<and> player_count V1 r b y \<noteq> None)" "\<not> (b = p \<and> y = t \<and> player_count V1 r a x \<noteq> None)" for a b x y
    unfolding ix[symmetric] by (rule fold_index_untouched(2)) (rule index_pass_untouched[OF ps(2) that])
  show "?V' (index_key p p r t t) = V (index_key p p r t t)"
    using untouched[of p t p t] pc by simp
  show "?V' (index_key p b r t y) = map_option encode_u64 (index_value (player_count V1 r) p t b y) \<and>
      ?V' (index_key b p r y t) = map_option encode_u64 (index_value (player_count V1 r) b y p t)"
    if b: "player_count V1 r b y = Some m" for b y m
  proof -
    have "?V' k = None" if "k \<in> index_keys r p t (b, y, m)" for k
      using fold_index(2)[OF ps(1) _ that, of V1] that b ps(2) by (auto simp: index_keys_def)
    then show ?thesis using pc b by (simp add: index_keys_mem index_value_def)
  qed
qed (auto simp: V1 player_count_links[OF p(1)])

text \<open>The index of every other relation is as it was.\<close>

lemma index_other_relation:
  fixes x y :: "bytes option"
  assumes "index_exact V r'" "ov_prefix r = VertexRelation" "ov_prefix r' = VertexRelation" "r' \<noteq> r" "thing_wf (links_edge r p t)"
  defines "V1 \<equiv> V(thing_storage_key (links_edge r p t) := x, thing_storage_key (links_reverse_edge p r t) := y)"
  shows "index_exact (fold (index_put r p t n) ps V1) r'" "index_exact (fold (index_remove r p t) ps V1) r'"
proof -
  have "ov_type_id r' \<noteq> ov_type_id r \<or> ov_object_id r' \<noteq> ov_object_id r" using assms(2-4) by (metis object_vertex.equality old.unit.exhaust)
  then have "index_key a b r' c d \<notin> index_keys r p t z" for a b c d z
    by (cases z rule: prod_cases3) (auto simp: index_keys_def index_key_inj)
  then have ix: "fold (index_put r p t n) ps V1 (index_key a b r' c d) = V (index_key a b r' c d)"
    "fold (index_remove r p t) ps V1 (index_key a b r' c d) = V (index_key a b r' c d)" for a b c d
    using fold_index_untouched index_links[OF assms(5)] unfolding V1_def by metis+
  have "links_edge r' q u \<noteq> links_edge r p t" "links_edge r' q u \<noteq> links_reverse_edge p r t" for q u
    using assms(4) by (auto simp: links_new_def links_new_reverse_def)
  moreover have "thing_wf (links_reverse_edge p r t)" using assms(5) by (simp add: links_new_def links_new_reverse_def)
  ultimately have pc: "player_count V1 r' = player_count V r'"
    unfolding V1_def player_count_def using assms(5) by (auto simp: fun_eq_iff thing_key_inj simp del: thing_wf.simps)
  show "index_exact (fold (index_put r p t n) ps V1) r'" "index_exact (fold (index_remove r p t) ps V1) r'"
    using assms(1) unfolding index_exact_def fold_index_player_count pc ix by blast+
qed

section \<open>Players: what the operations do\<close>

lemma with_index_spec:
  assumes "tm_inv storage s" "relation_index_available s (ov_type_id r) = Inr b" "b \<Longrightarrow> tm_goes storage s (update s) V (ws_locks s)"
  shows "tm_returns storage s (with_index relation_index_available r update s) (if b then V else ws_view storage s) (ws_locks s)"
  using assms tm_returns_goes[of storage s "update s"] tm_goes_Some[OF assms(1)]
  by (cases b) (auto simp: with_index_def tm_returns_def)

text \<open>The players of a relation as the passes over the index see them.\<close>

definition players :: "(storage_key \<rightharpoonup> bytes) \<Rightarrow> object_vertex \<Rightarrow> (object_vertex \<times> type_id \<times> 64 word) list \<Rightarrow> bool" where
  "players V r ps \<longleftrightarrow> distinct (map (\<lambda>(q, u, m). (q, u)) ps) \<and> (\<forall>q u m. (q, u, m) \<in> set ps \<longleftrightarrow> player_count V r q u = Some m)"

lemma player_count_eq:
  assumes "tm_inv storage s"
  shows "player_count (ws_view storage s) r p t = Some n \<longleftrightarrow>
    thing_wf (links_edge r p t) \<and> ws_view storage s (thing_storage_key (links_edge r p t)) = Some (encode_u64 n)"
  using edge_value[OF assms, of "links_edge r p t"] encode_decode_u64 by (auto simp: player_count_def simp del: thing_wf.simps)

lemma get_players:
  assumes "tm_inv storage s" "ov_prefix r = VertexRelation"
  obtains ps where "get_role_players storage s r = Some ps" "players (ws_view storage s) r ps"
proof (rule get_role_players_spec[OF assms])
  fix ps assume ps: "get_role_players storage s r = Some ps" "counts_of (links_edge r) (ws_view storage s) ps"
  then have "players (ws_view storage s) r ps" unfolding players_def counts_of_def player_count_eq[OF assms(1)] by blast
  then show thesis by (rule that[OF ps(1)])
qed

lemma tm_index_passes:
  assumes "tm_inv storage s" "ov_prefix r = VertexRelation"
  obtains ps where "players (ws_view storage s) r ps"
    "tm_goes storage s (relation_index_player_regenerate storage r p t n s) (fold (index_put r p t n) ps (ws_view storage s)) (ws_locks s)"
    "tm_goes storage s (relation_index_player_remove storage r p t s) (fold (index_remove r p t) ps (ws_view storage s)) (ws_locks s)"
proof (rule get_players[OF assms])
  fix ps assume ps: "get_role_players storage s r = Some ps" "players (ws_view storage s) r ps"
  have "tm_goes storage s (relation_index_player_regenerate storage r p t n s) (fold (index_put r p t n) ps (ws_view storage s)) (ws_locks s)"
    unfolding relation_index_player_regenerate_def ps(1) bind.simps by (rule tm_for_each[OF assms(1) tm_regenerate_step])
  moreover have "tm_goes storage s (relation_index_player_remove storage r p t s) (fold (index_remove r p t) ps (ws_view storage s)) (ws_locks s)"
    unfolding relation_index_player_remove_def ps(1) bind.simps by (rule tm_for_each[OF assms(1) tm_remove_step])
  ultimately show thesis by (rule that[OF ps(2)])
qed

lemma unset_links_eq:
  "unset_links relation_index_available storage r p t s = do {
     relation_status \<leftarrow> concept_get_status storage s (object_key r);
     s \<leftarrow> unset_edge storage (relation_status = StatusInserted) (thing_storage_key (links_edge r p t))
       (thing_storage_key (edge_reverse (links_edge r p t))) s;
     with_index relation_index_available r (relation_index_player_remove storage r p t) s }"
  unfolding unset_links_def unset_edge_def Let_def has_role_player_def by (simp add: edges_reverse del: edge_reverse.simps cong: if_cong option.case_cong)

lemma links_relation_wf: "thing_wf (links_edge r p t) \<longleftrightarrow> ov_prefix r = VertexRelation \<and> object_vertex_wf p"
  by (simp add: links_new_def)

lemma tm_unset_links_edge:
  assumes "tm_inv storage s" "thing_wf (links_edge r p t)"
  shows "tm_goes storage s (do {
      relation_status \<leftarrow> concept_get_status storage s (object_key r);
      unset_edge storage (relation_status = StatusInserted) (thing_storage_key (links_edge r p t)) (thing_storage_key (edge_reverse (links_edge r p t))) s })
    ((ws_view storage s)(thing_storage_key (links_edge r p t) := None, thing_storage_key (links_reverse_edge p r t) := None)) (ws_locks s)"
proof -
  let ?c = "committed storage (ws_open_sequence_number s)"
  have g: "graph_ok storage s" "graph_edges ?c (ws_writes s)" using assms(1) unfolding tm_inv_def by auto
  have r: "object_vertex_wf r" "r \<in> thing_ends (links_edge r p t)" using assms(2) by (simp_all add: links_new_def object_vertex_wf_def)
  have st: "concept_get_status storage s (object_key r) = Some (status_of (ws_writes s (object_key r)) (?c (object_key r)))"
    using r(1) by (intro graph_status[OF g(1)]) simp
  have "status_of (ws_writes s (object_key r)) (?c (object_key r)) = StatusInserted \<longrightarrow> ?c (thing_storage_key (links_edge r p t)) = None"
    using graph_edgesD(7)[OF g(2) assms(2) r(2,1)] by (auto simp: status_of_def split: option.splits buffered_write.splits if_splits)
  from tm_unset_edge[OF assms(1,2) _ edges_not_own_reverse(2) this] show ?thesis unfolding st by (simp add: edges_reverse del: edge_reverse.simps)
qed

lemma tm_goesE:
  assumes "tm_goes storage s r V L"
  obtains s' where "r = Some s'" "tm_inv storage s'" "ws_view storage s' = V" "ws_locks s' = L" "tm_goes storage s (Some s') V L"
  using assms unfolding tm_goes_def by auto

lemma tm_returns_step: "tm_goes storage s (Some s1) V L \<Longrightarrow> tm_returns storage s1 r V' L' \<Longrightarrow> tm_returns storage s r V' L'"
  unfolding tm_goes_def tm_returns_def by auto

text \<open>What the view of a snapshot becomes when the count of a player is set, and the players seen by the pass over the index.\<close>

definition links_effect ::
    "(storage_key \<rightharpoonup> bytes) \<Rightarrow> object_vertex \<Rightarrow> object_vertex \<Rightarrow> type_id \<Rightarrow> 64 word \<Rightarrow> bool \<Rightarrow> (storage_key \<rightharpoonup> bytes) \<Rightarrow> bool" where
  "links_effect V r p t n indexed V' \<longleftrightarrow>
     (let x = (if n = 0 then None else Some (encode_u64 n));
          V1 = V(thing_storage_key (links_edge r p t) := x, thing_storage_key (links_reverse_edge p r t) := x)
      in if indexed then \<exists>ps. players V1 r ps \<and> V' = fold (if n = 0 then index_remove r p t else index_put r p t n) ps V1 else V' = V1)"

lemma tm_unset_links:
  assumes inv: "tm_inv storage s" and wf: "thing_wf (links_edge r p t)" and b: "\<And>s. relation_index_available s (ov_type_id r) = Inr b"
  obtains V' where "links_effect (ws_view storage s) r p t 0 b V'"
    "tm_returns storage s (unset_links relation_index_available storage r p t s) V' (ws_locks s)"
proof (rule tm_goesE[OF tm_unset_links_edge[OF inv wf]])
  fix s1
  let ?V1 = "(ws_view storage s)(thing_storage_key (links_edge r p t) := None, thing_storage_key (links_reverse_edge p r t) := None)"
  assume s1: "do { relation_status \<leftarrow> concept_get_status storage s (object_key r);
      unset_edge storage (relation_status = StatusInserted) (thing_storage_key (links_edge r p t)) (thing_storage_key (edge_reverse (links_edge r p t))) s } = Some s1"
    "tm_inv storage s1" "ws_view storage s1 = ?V1" "ws_locks s1 = ws_locks s" "tm_goes storage s (Some s1) ?V1 (ws_locks s)"
  obtain ps where ps: "players ?V1 r ps" "tm_goes storage s1 (relation_index_player_remove storage r p t s1) (fold (index_remove r p t) ps ?V1) (ws_locks s)"
    using tm_index_passes[OF s1(2), of r p t 0] wf s1(3,4) unfolding links_relation_wf by metis
  have "unset_links relation_index_available storage r p t s = with_index relation_index_available r (relation_index_player_remove storage r p t) s1"
    using s1(1) unfolding unset_links_eq by (simp add: bind_eq_Some_conv) (elim exE conjE, simp)
  moreover have "tm_returns storage s (with_index relation_index_available r (relation_index_player_remove storage r p t) s1)
      (if b then fold (index_remove r p t) ps ?V1 else ?V1) (ws_locks s)"
    by (rule tm_returns_step[OF s1(5)], rule with_index_spec[where relation_index_available = relation_index_available and r = r, OF s1(2) b, of "relation_index_player_remove storage r p t", unfolded s1(3,4)], rule ps(2))
  ultimately show thesis using ps(1) by (intro that[of "if b then fold (index_remove r p t) ps ?V1 else ?V1"]) (auto simp: links_effect_def Let_def)
qed

lemma tm_put_links_edge:
  assumes inv: "tm_inv storage s" and wf: "thing_wf (links_edge r p t)" and n: "length v = 8"
  shows "tm_goes storage s (do {
      s \<leftarrow> set_required_object storage r s;
      s \<leftarrow> set_required_object storage p s;
      s \<leftarrow> ws_put_val (thing_storage_key (links_edge r p t)) v s;
      ws_put_val (thing_storage_key (links_reverse_edge p r t)) v s })
    ((ws_view storage s)(thing_storage_key (links_edge r p t) \<mapsto> v, thing_storage_key (links_reverse_edge p r t) \<mapsto> v))
    (requires storage s p (requires storage s r (ws_locks s)))"
proof (rule tm_goes_bind[OF tm_set_required[OF inv]])
  show "object_vertex_wf r" using wf by (simp add: links_new_def object_vertex_wf_def)
next
  fix s1 assume s1: "tm_inv storage s1" "ws_open_sequence_number s1 = ws_open_sequence_number s" "ws_view storage s1 = ws_view storage s"
    "ws_locks s1 = requires storage s r (ws_locks s)" "\<And>v. object_vertex_wf v \<Longrightarrow> ws_writes s1 (object_key v) = ws_writes s (object_key v)"
  have p: "object_vertex_wf p" using wf by (simp add: links_new_def)
  then have req: "requires storage s1 p (ws_locks s1) = requires storage s p (requires storage s r (ws_locks s))"
    using s1(2,4,5) by (simp add: requires_def persisted_def)
  show "tm_goes storage s1 (do {
      s \<leftarrow> set_required_object storage p s1;
      s \<leftarrow> ws_put_val (thing_storage_key (links_edge r p t)) v s;
      ws_put_val (thing_storage_key (links_reverse_edge p r t)) v s })
    ((ws_view storage s)(thing_storage_key (links_edge r p t) \<mapsto> v, thing_storage_key (links_reverse_edge p r t) \<mapsto> v))
    (requires storage s p (requires storage s r (ws_locks s)))"
  proof (rule tm_goes_bind[OF tm_set_required[OF s1(1) p]], unfold req s1(3))
    fix s2 assume s2: "tm_inv storage s2" "ws_view storage s2 = ws_view storage s" "ws_locks s2 = requires storage s p (requires storage s r (ws_locks s))"
    show "tm_goes storage s2 (do {
      s \<leftarrow> ws_put_val (thing_storage_key (links_edge r p t)) v s2;
      ws_put_val (thing_storage_key (links_reverse_edge p r t)) v s })
    ((ws_view storage s)(thing_storage_key (links_edge r p t) \<mapsto> v, thing_storage_key (links_reverse_edge p r t) \<mapsto> v))
    (requires storage s p (requires storage s r (ws_locks s)))"
      using tm_put_edge[OF s2(1) wf _ edges_not_own_reverse(2) n] s2(2,3) by (simp add: edges_reverse del: edge_reverse.simps)
  qed
qed

lemma tm_set_links_count:
  assumes inv: "tm_inv storage s" and wf: "thing_wf (links_edge r p t)" and b: "\<And>s. relation_index_available s (ov_type_id r) = Inr b"
  obtains V' where "links_effect (ws_view storage s) r p t n b V'"
    "tm_returns storage s (set_links_count relation_index_available storage r p t n s) V'
       (if n = 0 then ws_locks s else requires storage s p (requires storage s r (ws_locks s)))"
proof (cases "n = 0")
  case True
  show thesis
  proof (rule tm_unset_links[where relation_index_available = relation_index_available, OF inv wf b])
    fix V' assume "links_effect (ws_view storage s) r p t 0 b V'"
      "tm_returns storage s (unset_links relation_index_available storage r p t s) V' (ws_locks s)"
    then show thesis by (intro that[of V']) (simp_all add: True set_links_count_def)
  qed
next
  case False
  let ?v = "encode_u64 n" and ?L = "requires storage s p (requires storage s r (ws_locks s))"
  let ?V1 = "(ws_view storage s)(thing_storage_key (links_edge r p t) \<mapsto> ?v, thing_storage_key (links_reverse_edge p r t) \<mapsto> ?v)"
  have l: "length ?v = 8" by simp
  obtain s1 where s1: "do { s \<leftarrow> set_required_object storage r s; s \<leftarrow> set_required_object storage p s;
      s \<leftarrow> ws_put_val (thing_storage_key (links_edge r p t)) ?v s; ws_put_val (thing_storage_key (links_reverse_edge p r t)) ?v s } = Some s1"
    "tm_inv storage s1" "ws_view storage s1 = ?V1" "ws_locks s1 = ?L" "tm_goes storage s (Some s1) ?V1 ?L"
    by (rule tm_goesE[OF tm_put_links_edge[OF inv wf l]])
  obtain ps where ps: "players ?V1 r ps" "tm_goes storage s1 (relation_index_player_regenerate storage r p t n s1) (fold (index_put r p t n) ps ?V1) ?L"
    using tm_index_passes[OF s1(2), of r p t n] wf s1(3,4) unfolding links_relation_wf by metis
  have "set_links_count relation_index_available storage r p t n s = with_index relation_index_available r (relation_index_player_regenerate storage r p t n) s1"
    using s1(1) False unfolding set_links_count_def by (simp add: bind_eq_Some_conv) (elim exE conjE, simp)
  moreover have "tm_returns storage s (with_index relation_index_available r (relation_index_player_regenerate storage r p t n) s1)
      (if b then fold (index_put r p t n) ps ?V1 else ?V1) ?L"
    by (rule tm_returns_step[OF s1(5)], rule with_index_spec[where relation_index_available = relation_index_available and r = r, OF s1(2) b, of "relation_index_player_regenerate storage r p t n", unfolded s1(3,4)], rule ps(2))
  ultimately show thesis using ps(1) False by (intro that[of "if b then fold (index_put r p t n) ps ?V1 else ?V1"]) (auto simp: links_effect_def Let_def)
qed

lemma links_effect_things:
  assumes "links_effect V r p t n b V'" "thing_wf x" "\<And>i. x \<noteq> IndexedKey i" "thing_wf (links_edge r p t)"
  shows "V' (thing_storage_key x) =
    (if x = links_edge r p t \<or> x = links_reverse_edge p r t then if n = 0 then None else Some (encode_u64 n) else V (thing_storage_key x))"
proof -
  have "thing_wf (links_reverse_edge p r t)" using assms(4) by (simp add: links_new_def links_new_reverse_def)
  then show ?thesis
    using assms(1) fold_index_links[OF assms(2,3)] assms(2,4)
    by (auto simp: links_effect_def Let_def thing_key_inj simp del: thing_wf.simps split: if_splits)
qed

lemma links_effect_exact:
  assumes V': "links_effect V r p t n True V'" and V: "index_exact V r" and wf: "thing_wf (links_edge r p t)"
  shows "index_exact V' r \<longleftrightarrow> \<not> (n \<le> 1 \<and> (\<exists>m > 1. player_count V r p t = Some m))"
    and "ov_prefix r' = VertexRelation \<Longrightarrow> r' \<noteq> r \<Longrightarrow> index_exact V r' \<Longrightarrow> index_exact V' r'"
proof -
  have r: "ov_prefix r = VertexRelation" "object_vertex_wf p" using wf unfolding links_relation_wf by auto
  let ?x = "if n = 0 then None else Some (encode_u64 n)"
  define V1 where "V1 = V(thing_storage_key (links_edge r p t) := ?x, thing_storage_key (links_reverse_edge p r t) := ?x)"
  obtain ps where ps: "players V1 r ps" "V' = fold (if n = 0 then index_remove r p t else index_put r p t n) ps V1"
    using V' unfolding links_effect_def V1_def Let_def by auto
  have d: "distinct (map (\<lambda>(q, u, m). (q, u)) ps)" "\<And>q u m. (q, u, m) \<in> set ps \<longleftrightarrow> player_count V1 r q u = Some m"
    using ps(1) unfolding players_def by blast+
  show "index_exact V' r \<longleftrightarrow> \<not> (n \<le> 1 \<and> (\<exists>m > 1. player_count V r p t = Some m))"
  proof (cases "n = 0")
    case True
    then show ?thesis using index_remove_exact[OF V wf r(2) d] unfolding ps(2) V1_def by simp
  next
    case False
    have "n \<le> 1 \<longleftrightarrow> n = 1" using False word_less_1[of n] by (auto simp: order.order_iff_strict)
    then show ?thesis using index_put_exact[OF V wf r(2) False d] False unfolding ps(2) V1_def by simp
  qed
  show "index_exact V' r'" if "ov_prefix r' = VertexRelation" "r' \<noteq> r" "index_exact V r'"
    unfolding ps(2) V1_def using index_other_relation[OF that(3) r(1) that(1,2) wf] by simp
qed

lemma empty_player_count [simp]: "player_count Map.empty r p t = None"
  by (simp add: player_count_def)

lemma fresh_index_exact: "index_exact Map.empty r"
  by (simp add: index_exact_def index_value_def player_count_def)

lemma links_count_player:
  assumes "tm_inv storage s" "thing_wf (links_edge r p t)"
  shows "links_count storage s (thing_storage_key (links_edge r p t)) = Some (player_count (ws_view storage s) r p t)"
proof -
  have "graph_ok storage s" using assms(1) by (simp add: tm_inv_def)
  then show ?thesis
    using graph_get(2)[OF _ assms(2)] edge_value[OF assms] assms(2)
    by (auto simp: links_count_def player_count_def decode_value_u64_def simp del: thing_wf.simps split: option.splits)
qed

section \<open>Properties\<close>

text \<open>C20: setting the count of a player of a relation.  The operation returns, and readers of the snapshot see the count on
  the edge and on its reversed edge, or neither when it is zero; nothing else but the index of the relation changes; a
  positive count locks the relation and the player when they are not new.\<close>

theorem set_links_count_correct:
  assumes "tm_inv storage s" "ov_prefix r = VertexRelation" "object_vertex_wf p"
    and "\<And>s. relation_index_available s (ov_type_id r) = Inr b"
  shows "\<exists>s'. set_links_count relation_index_available storage r p t n s = Some (Inr (), s') \<and> tm_inv storage s' \<and>
    has_role_player storage s' r p t = Some (n \<noteq> 0) \<and>
    (\<forall>x. thing_wf x \<and> (\<forall>i. x \<noteq> IndexedKey i) \<longrightarrow> ws_view storage s' (thing_storage_key x) =
      (if x = links_edge r p t \<or> x = links_reverse_edge p r t then if n = 0 then None else Some (encode_u64 n)
       else ws_view storage s (thing_storage_key x))) \<and>
    ws_locks s' = (if n = 0 then ws_locks s else requires storage s p (requires storage s r (ws_locks s)))"
proof -
  have wf: "thing_wf (links_edge r p t)" using assms(2,3) unfolding links_relation_wf by simp
  show ?thesis
  proof (rule tm_set_links_count[where relation_index_available = relation_index_available, OF assms(1) wf assms(4), of n])
    fix V' assume e: "links_effect (ws_view storage s) r p t n b V'"
      "tm_returns storage s (set_links_count relation_index_available storage r p t n s) V'
         (if n = 0 then ws_locks s else requires storage s p (requires storage s r (ws_locks s)))"
    then obtain s' where s': "set_links_count relation_index_available storage r p t n s = Some (Inr (), s')" "tm_inv storage s'"
      "ws_view storage s' = V'" "ws_locks s' = (if n = 0 then ws_locks s else requires storage s p (requires storage s r (ws_locks s)))"
      unfolding tm_returns_def tm_goes_def by blast
    note things = links_effect_things[OF e(1) _ _ wf]
    have "has_role_player storage s' r p t = Some (n \<noteq> 0)"
      using graph_get(2)[OF _ wf, of storage s'] s'(2,3) things[OF wf] by (simp add: has_role_player_def tm_inv_def)
    then show ?thesis using s' things by (intro exI[of _ s']) simp
  qed
qed

theorem set_links_count_correct_witness:
  "\<exists>s'. set_links_count (\<lambda>_ _. Inr True :: unit + bool) fresh_storage (build_relation 2 5) (build_entity 1 7) 9 2 fresh_snapshot = Some (Inr (), s') \<and>
     has_role_player fresh_storage s' (build_relation 2 5) (build_entity 1 7) 9 = Some True"
proof -
  have wf: "ov_prefix (build_relation 2 5) = VertexRelation" "object_vertex_wf (build_entity 1 7)"
    by (simp_all add: build_relation_def build_entity_def object_vertex_wf_def)
  from set_links_count_correct[where relation_index_available = "\<lambda>_ _. Inr True :: unit + bool", OF fresh_tm_inv wf refl, of 9 2] show ?thesis by auto
qed

text \<open>C18: whether the index of the pairs of players stays exact when the count of a player is set in a relation whose type
  has an index.  It does in every case but one: when the player had a count above one and the new count is zero or one,
  the edge of the player to itself stays behind.  The indices of the other relations stay exact.\<close>

theorem index_exactness:
  assumes "tm_inv storage s" "ov_prefix r = VertexRelation" "object_vertex_wf p"
    and "\<And>s. relation_index_available s (ov_type_id r) = Inr True" "index_exact (ws_view storage s) r"
  shows "\<exists>s'. set_links_count relation_index_available storage r p t n s = Some (Inr (), s') \<and> tm_inv storage s' \<and>
    player_count (ws_view storage s') r p t = (if n = 0 then None else Some n) \<and>
    (index_exact (ws_view storage s') r \<longleftrightarrow> \<not> (n \<le> 1 \<and> (\<exists>m > 1. player_count (ws_view storage s) r p t = Some m))) \<and>
    (\<forall>r'. ov_prefix r' = VertexRelation \<and> r' \<noteq> r \<and> index_exact (ws_view storage s) r' \<longrightarrow> index_exact (ws_view storage s') r')"
proof -
  have wf: "thing_wf (links_edge r p t)" using assms(2,3) unfolding links_relation_wf by simp
  show ?thesis
  proof (rule tm_set_links_count[where relation_index_available = relation_index_available, OF assms(1) wf assms(4), of n])
    fix V' assume e: "links_effect (ws_view storage s) r p t n True V'"
      "tm_returns storage s (set_links_count relation_index_available storage r p t n s) V'
         (if n = 0 then ws_locks s else requires storage s p (requires storage s r (ws_locks s)))"
    then obtain s' where s': "set_links_count relation_index_available storage r p t n s = Some (Inr (), s')" "tm_inv storage s'" "ws_view storage s' = V'"
      unfolding tm_returns_def tm_goes_def by blast
    have "player_count V' r p t = (if n = 0 then None else Some n)"
      using links_effect_things[OF e(1) wf _ wf] wf by (simp add: player_count_def)
    then show ?thesis
      using s' links_effect_exact[OF e(1) assms(5) wf] by (intro exI[of _ s']) (simp only: s' simp_thms, blast)
  qed
qed

theorem index_exactness_witness:
  "\<exists>s1 s2. set_links_count (\<lambda>_ _. Inr True :: unit + bool) fresh_storage (build_relation 2 5) (build_entity 1 7) 9 2 fresh_snapshot = Some (Inr (), s1) \<and>
     index_exact (ws_view fresh_storage s1) (build_relation 2 5) \<and>
     set_links_count (\<lambda>_ _. Inr True :: unit + bool) fresh_storage (build_relation 2 5) (build_entity 1 7) 9 1 s1 = Some (Inr (), s2) \<and>
     \<not> index_exact (ws_view fresh_storage s2) (build_relation 2 5)"
proof -
  let ?r = "build_relation 2 5" and ?p = "build_entity 1 7" and ?avail = "\<lambda>_ _. Inr True :: unit + bool"
  have wf: "ov_prefix ?r = VertexRelation" "object_vertex_wf ?p" by (simp_all add: build_relation_def build_entity_def object_vertex_wf_def)
  have "index_exact (ws_view fresh_storage fresh_snapshot) ?r" by (simp add: fresh_index_exact)
  from index_exactness[where relation_index_available = ?avail, OF fresh_tm_inv wf refl this, of 9 2]
  obtain s1 where s1: "set_links_count ?avail fresh_storage ?r ?p 9 2 fresh_snapshot = Some (Inr (), s1)" "tm_inv fresh_storage s1"
    "player_count (ws_view fresh_storage s1) ?r ?p 9 = Some 2" "index_exact (ws_view fresh_storage s1) ?r" by auto
  from index_exactness[where relation_index_available = ?avail, OF s1(2) wf refl s1(4), of 9 1]
  obtain s2 where "set_links_count ?avail fresh_storage ?r ?p 9 1 s1 = Some (Inr (), s2)" "\<not> index_exact (ws_view fresh_storage s2) ?r"
    using s1(3) by auto
  then show ?thesis using s1 by blast
qed

text \<open>C23: changing the count of a player by a difference.  Incrementing sets the count to the next one.  Decrementing by
  more than the count, which is zero for a player that is absent, is an error that changes nothing; decrementing by at
  most the count sets the difference; decrementing an absent player by zero panics.\<close>

theorem change_links_count_correct:
  assumes "tm_inv storage s" "ov_prefix r = VertexRelation" "object_vertex_wf p"
  shows "let c = player_count (ws_view storage s) r p t; m = (case c of None \<Rightarrow> 0 | Some m \<Rightarrow> m) in
    increment_links_count relation_index_available storage r p t s = set_links_count relation_index_available storage r p t (m + 1) s \<and>
    decrement_links_count relation_index_available remove_deleted_players storage r p t d s =
      (if m < d then Some (Inl (remove_deleted_players s r p t m d), s)
       else if c = None then None
       else set_links_count relation_index_available storage r p t (m - d) s)"
proof -
  have "thing_wf (links_edge r p t)" using assms(2,3) unfolding links_relation_wf by simp
  from links_count_player[OF assms(1) this] show ?thesis
    by (cases "player_count (ws_view storage s) r p t") (auto simp: increment_links_count_def decrement_links_count_def validate_links_count_to_remove_players_def Let_def)
qed

theorem change_links_count_correct_witness:
  "decrement_links_count (\<lambda>_ _. Inr True :: nat + bool) (\<lambda>_ _ _ _ _ _. 42) fresh_storage (build_relation 2 5) (build_entity 1 7) 9 1 fresh_snapshot =
     Some (Inl 42, fresh_snapshot) \<and>
   decrement_links_count (\<lambda>_ _. Inr True :: nat + bool) (\<lambda>_ _ _ _ _ _. 42) fresh_storage (build_relation 2 5) (build_entity 1 7) 9 0 fresh_snapshot = None"
proof -
  have wf: "ov_prefix (build_relation 2 5) = VertexRelation" "object_vertex_wf (build_entity 1 7)"
    by (simp_all add: build_relation_def build_entity_def object_vertex_wf_def)
  have "player_count (ws_view fresh_storage fresh_snapshot) (build_relation 2 5) (build_entity 1 7) 9 = None" by (simp add: player_count_def)
  then show ?thesis
    using change_links_count_correct[OF fresh_tm_inv wf, of 9 "\<lambda>_ _. Inr True :: nat + bool" "\<lambda>_ _ _ _ _ _. 42" 1]
      change_links_count_correct[OF fresh_tm_inv wf, of 9 "\<lambda>_ _. Inr True :: nat + bool" "\<lambda>_ _ _ _ _ _. 42" 0] by simp
qed

text \<open>C21: the players of a relation and the relations of a player.  Both scans return, list every visible edge once, with its
  role and its count, and agree with each other: a player is listed for a relation exactly when the relation is listed
  for the player.\<close>

theorem players_and_relations_agree:
  assumes "tm_inv storage s" "ov_prefix r = VertexRelation" "object_vertex_wf p"
  shows "\<exists>ps rs. get_role_players storage s r = Some ps \<and> get_player_relations_roles storage s p = Some rs \<and>
    distinct (map (\<lambda>(q, t, n). (q, t)) ps) \<and> distinct (map (\<lambda>(q, t, n). (q, t)) rs) \<and>
    (\<forall>q t n. (q, t, n) \<in> set ps \<longleftrightarrow>
       object_vertex_wf q \<and> ws_view storage s (thing_storage_key (links_edge r q t)) = Some (encode_u64 n)) \<and>
    (\<forall>t n. (p, t, n) \<in> set ps \<longleftrightarrow> (r, t, n) \<in> set rs)"
proof -
  obtain ps where ps: "get_role_players storage s r = Some ps" "counts_of (links_edge r) (ws_view storage s) ps"
    by (rule get_role_players_spec[OF assms(1,2)])
  obtain rs where rs: "get_player_relations_roles storage s p = Some rs" "counts_of (links_reverse_edge p) (ws_view storage s) rs"
    by (rule get_player_relations_roles_spec[OF assms(1,3)])
  have "edge_reverse (links_edge r p t) = links_reverse_edge p r t" for t by (rule edges_reverse)
  then have "thing_wf (links_reverse_edge p r t) = thing_wf (links_edge r p t)"
    "thing_wf (links_edge r p t) \<Longrightarrow> ws_view storage s (thing_storage_key (links_reverse_edge p r t)) = ws_view storage s (thing_storage_key (links_edge r p t))" for t
    using view_mirrored[OF assms(1), of "links_edge r p t"] edge_reverse_wf(1)[of "links_edge r p t"] by auto
  then have "(p, t, n) \<in> set ps \<longleftrightarrow> (r, t, n) \<in> set rs" for t n using ps(2) rs(2) unfolding counts_of_def by metis
  moreover have "(q, t, n) \<in> set ps \<longleftrightarrow>
       object_vertex_wf q \<and> ws_view storage s (thing_storage_key (links_edge r q t)) = Some (encode_u64 n)" for q t n
    using ps(2) assms(2) unfolding counts_of_def links_relation_wf by blast
  ultimately show ?thesis using ps rs unfolding counts_of_def by blast
qed

theorem players_and_relations_agree_witness:
  "\<exists>s ps rs. set_links_count (\<lambda>_ _. Inr True :: unit + bool) fresh_storage (build_relation 2 5) (build_entity 1 7) 9 2 fresh_snapshot = Some (Inr (), s) \<and>
     get_role_players fresh_storage s (build_relation 2 5) = Some ps \<and> get_player_relations_roles fresh_storage s (build_entity 1 7) = Some rs \<and>
     (build_entity 1 7, 9, 2) \<in> set ps \<and> (build_relation 2 5, 9, 2) \<in> set rs"
proof -
  let ?r = "build_relation 2 5" and ?p = "build_entity 1 7" and ?avail = "\<lambda>_ _. Inr True :: unit + bool"
  have wf: "ov_prefix ?r = VertexRelation" "object_vertex_wf ?p" by (simp_all add: build_relation_def build_entity_def object_vertex_wf_def)
  then have l: "thing_wf (links_edge ?r ?p 9)" unfolding links_relation_wf by simp
  obtain V' where V': "links_effect (ws_view fresh_storage fresh_snapshot) ?r ?p 9 2 True V'"
    "tm_returns fresh_storage fresh_snapshot (set_links_count ?avail fresh_storage ?r ?p 9 2 fresh_snapshot) V'
       (if (2 :: 64 word) = 0 then ws_locks fresh_snapshot else requires fresh_storage fresh_snapshot ?p (requires fresh_storage fresh_snapshot ?r (ws_locks fresh_snapshot)))"
    by (rule tm_set_links_count[where relation_index_available = ?avail, OF fresh_tm_inv l refl])
  then obtain s where s: "set_links_count ?avail fresh_storage ?r ?p 9 2 fresh_snapshot = Some (Inr (), s)" "tm_inv fresh_storage s" "ws_view fresh_storage s = V'"
    unfolding tm_returns_def tm_goes_def by blast
  have "V' (thing_storage_key (links_edge ?r ?p 9)) = Some (encode_u64 2)" using links_effect_things[OF V'(1) l _ l] by simp
  with players_and_relations_agree[OF s(2) wf] show ?thesis using s(1,3) wf(2) by metis
qed

text \<open>C19: a transaction that gives an owner an attribute, or a relation a player, and a concurrent transaction that deletes the
  owner, the relation or the player cannot both commit: whichever commits second has a conflict.\<close>

theorem edges_exclude_deletion:
  assumes "tm_inv storage s1" "tm_inv storage s2" "object_vertex_wf v" "persisted storage s1 v" "persisted storage s2 v"
    and "delete_object storage (object_key v) s2 = Some d"
    and "attribute_vertex_wf a \<and> set_has_count validate storage v a n s1 = Some (Inr (), e) \<or>
      v \<in> {r, p} \<and> ov_prefix r = VertexRelation \<and> object_vertex_wf p \<and> (\<forall>s. relation_index_available s (ov_type_id r) = Inr b) \<and>
      set_links_count relation_index_available storage r p t n s1 = Some (Inr (), e)"
    and "n \<noteq> 0"
  shows "(\<exists>c. compute_dependency (into_commit_record Data e) (into_commit_record Data d) = Conflict c) \<and>
    (\<exists>c. compute_dependency (into_commit_record Data d) (into_commit_record Data e) = Conflict c)"
proof -
  have d: "tm_inv storage d" "ws_writes d (object_key v) = Some Delete" using tm_delete_object[OF assms(2,3)] assms(5,6) by auto
  have e: "tm_inv storage e \<and> ws_locks e (snd (object_key v)) = Some Unmodifiable"
    using assms(7)
  proof (elim disjE conjE)
    assume a: "attribute_vertex_wf a" "set_has_count validate storage v a n s1 = Some (Inr (), e)"
    then have "validate s1 v a = Inr ()" by (cases "validate s1 v a") (auto simp: set_has_count_def)
    from tm_set_has_count[where validate = validate, OF assms(1,3) a(1) this assms(8)] show ?thesis
      unfolding a(2) tm_returns_def tm_goes_def using assms(4) by (auto simp: requires_def)
  next
    assume l: "v \<in> {r, p}" "ov_prefix r = VertexRelation" "object_vertex_wf p" "\<forall>s. relation_index_available s (ov_type_id r) = Inr b"
      "set_links_count relation_index_available storage r p t n s1 = Some (Inr (), e)"
    have wf: "thing_wf (links_edge r p t)" using l(2,3) unfolding links_relation_wf by simp
    show ?thesis
    proof (rule tm_set_links_count[where relation_index_available = relation_index_available, OF assms(1) wf l(4)[rule_format], of n])
      fix V' assume "tm_returns storage s1 (set_links_count relation_index_available storage r p t n s1) V'
         (if n = 0 then ws_locks s1 else requires storage s1 p (requires storage s1 r (ws_locks s1)))"
      then show ?thesis unfolding l(5) tm_returns_def tm_goes_def using assms(4,8) l(1) by (auto simp: requires_def)
    qed
  qed
  have wf: "ws_wf d" "ws_wf e" using d(1) e by (simp_all add: tm_inv_def graph_ok_def)
  have "cr_write (into_commit_record Data d) (fst (object_key v)) (snd (object_key v)) = Some Delete"
    using d(2) cr_writes_into[OF wf(1), of Data] unfolding cr_writes_def by (metis prod.collapse)
  then have "conflicts_with (into_commit_record Data e) (into_commit_record Data d)"
    using e unfolding conflicts_with_def by (intro disjI2 disjI1) auto
  then show ?thesis
    using compute_dependency_conflict_iff[of "into_commit_record Data e" "into_commit_record Data d"]
      compute_dependency_conflict_iff[of "into_commit_record Data d" "into_commit_record Data e"] conflicts_with_sym wf by auto
qed

theorem edges_exclude_deletion_witness:
  "\<exists>e d. set_links_count (\<lambda>_ _. Inr True :: unit + bool) stored_storage stored_relation stored_entity 9 2 stored_snapshot = Some (Inr (), e) \<and>
     delete_object stored_storage (object_key stored_entity) stored_snapshot = Some d \<and>
     (\<exists>c. compute_dependency (into_commit_record Data e) (into_commit_record Data d) = Conflict c)"
proof -
  let ?avail = "\<lambda>_ _. Inr True :: unit + bool"
  note v = stored_vertices
  obtain d where d: "delete_object stored_storage (object_key stored_entity) stored_snapshot = Some d"
    using tm_delete_object[OF stored_tm_inv v(1)] by blast
  have l: "thing_wf (links_edge stored_relation stored_entity 9)" unfolding links_relation_wf using v by simp
  obtain V' where "tm_returns stored_storage stored_snapshot (set_links_count ?avail stored_storage stored_relation stored_entity 9 2 stored_snapshot) V'
       (if (2 :: 64 word) = 0 then ws_locks stored_snapshot else requires stored_storage stored_snapshot stored_entity
         (requires stored_storage stored_snapshot stored_relation (ws_locks stored_snapshot)))"
    by (rule tm_set_links_count[where relation_index_available = ?avail, OF stored_tm_inv l refl])
  then obtain e where e: "set_links_count ?avail stored_storage stored_relation stored_entity 9 2 stored_snapshot = Some (Inr (), e)"
    unfolding tm_returns_def by blast
  have "attribute_vertex_wf undefined \<and> set_has_count (\<lambda>_ _ _. Inr ()) stored_storage stored_entity undefined 2 stored_snapshot = Some (Inr (), e) \<or>
      stored_entity \<in> {stored_relation, stored_entity} \<and> ov_prefix stored_relation = VertexRelation \<and> object_vertex_wf stored_entity \<and>
      (\<forall>s. ?avail s (ov_type_id stored_relation) = Inr True) \<and>
      set_links_count ?avail stored_storage stored_relation stored_entity 9 2 stored_snapshot = Some (Inr (), e)"
    using v e by simp
  from edges_exclude_deletion[OF stored_tm_inv stored_tm_inv v(1) stored_persisted(1) stored_persisted(1) d this] show ?thesis
    using d e by auto
qed

end
