(* ===== verification/Spec2Isabelle.thy ===== *)
theory Spec2Isabelle
  imports ThingIndex
begin

text \<open>
  \<^bold>\<open>A verification development for TypeDB: the transactional storage, the encoding of values and keys, and the edges of the graph.\<close>

  \<^bold>\<open>The program.\<close>  TypeDB is a graph database.  At its bottom lies a multi-version key-value store with snapshot
  isolation (\<^verbatim>\<open>src/storage\<close>), numbered and made durable by a log (\<^verbatim>\<open>src/durability\<close>).  Above it, \<^verbatim>\<open>src/encoding\<close>
  lays out types, objects, attributes and edges as byte strings whose order is meaningful, \<^verbatim>\<open>src/concept\<close> reads and
  writes them, and the query stack (\<^verbatim>\<open>src/ir\<close>, \<^verbatim>\<open>src/compiler\<close>, \<^verbatim>\<open>src/executor\<close>, \<^verbatim>\<open>src/query\<close>) runs TypeQL on
  them; \<^verbatim>\<open>src/server\<close> and the embeddings serve it.  The development models the storage engine in its in-memory build,
  the values it stores, and the operations of the concept layer that write the edges of the graph.

  A transaction opens a \<^emph>\<open>snapshot\<close> at the storage's watermark, reads the committed versions up to that number under
  its own buffered writes, and commits: the buffered writes become a commit record, the log gives it a sequence
  number, the isolation manager validates it against every commit since the snapshot was opened, and on success the
  writes go to the keyspaces as new versions and the watermark advances over the applied commits.

  \<^bold>\<open>The theories.\<close>  In the order of their imports, each with the source it models:

  \<^item> \<open>Prelude\<close>: bytes, their lexicographic order, fixed-width integers as bytes, and \<^verbatim>\<open>BTreeMap\<close> as a sorted list.
  \<^item> \<open>Bytes\<close> (\<^verbatim>\<open>src/common/bytes\<close>): big-endian increment, \<^verbatim>\<open>ByteArray\<close>, \<^verbatim>\<open>Bytes\<close>; \<open>deref\<close> is the abstraction to a byte
    string and every operation refines its byte-string counterpart.
  \<^item> \<open>MvccKey\<close> (\<^verbatim>\<open>src/durability/durability.rs\<close>, \<^verbatim>\<open>src/storage/storage.rs\<close>): sequence numbers and multi-version keys;
    versions of a key are contiguous and newest first among keys of which none is a prefix of another.
  \<^item> \<open>KeyRange\<close>, \<open>Buffer\<close> (\<^verbatim>\<open>src/storage/key_range.rs\<close>, \<^verbatim>\<open>snapshot/write.rs\<close>, \<^verbatim>\<open>lock.rs\<close>, \<^verbatim>\<open>buffer.rs\<close>): key ranges and
    their meaning \<open>range_contains\<close>; pending writes and locks, and scans over them.
  \<^item> \<open>Validation\<close>, \<open>Timeline\<close>, \<open>IsolationManager\<close> (\<^verbatim>\<open>src/storage/isolation_manager.rs\<close>): the dependency of a commit on a
    concurrent one, the windows of commit slots with their readers and the watermark, and the validation of a commit
    against memory and log.  The reachable states of the manager are an inductive relation; the invariant says what
    the watermark and the readers guarantee in each of them.
  \<^item> \<open>Backend\<close>, \<open>Keyspaces\<close> (\<^verbatim>\<open>src/storage/keyspace\<close>, \<^verbatim>\<open>write_batches.rs\<close>): the in-memory backend against the locale
    \<open>kv_backend\<close>, range iterators, the set of keyspaces and its byte format.
  \<^item> \<open>Iterators\<close>, \<open>Mvcc\<close>, \<open>SnapshotIterator\<close> (\<^verbatim>\<open>src/common/lending_iterator\<close>, \<^verbatim>\<open>src/storage/iterator.rs\<close>,
    \<^verbatim>\<open>snapshot/iterator.rs\<close>): the locales \<open>lending_iterator\<close> and \<open>seekable_iterator\<close> relate a stateful iterator to the
    list of items to come; the keyspace, multi-version and snapshot iterators interpret them.
  \<^item> \<open>Snapshot\<close> (\<^verbatim>\<open>src/storage/snapshot/snapshot.rs\<close>): reads and writes of a snapshot.
  \<^item> \<open>Durability\<close> (\<^verbatim>\<open>src/storage/durability_client.rs\<close>): the locale of what the storage relies on, and the in-memory
    client that interprets it.
  \<^item> \<open>Storage\<close> (\<^verbatim>\<open>src/storage/storage.rs\<close>): opening, committing, closing, exporting and importing.
  \<^item> \<open>Strings\<close>, \<open>Decimal\<close>, \<open>DurationValue\<close> (\<^verbatim>\<open>src/encoding/value/decimal_value.rs\<close>, \<^verbatim>\<open>duration_value.rs\<close>): fixed-point
    decimals and durations, their arithmetic and their texts.
  \<^item> \<open>ValueBytes\<close> (\<^verbatim>\<open>src/encoding/value/*_bytes.rs\<close>): the fixed-width encodings of values, with the locales
    \<open>value_codec\<close> and \<open>sortable_codec\<close>, and their order inside multi-version keys.
  \<^item> \<open>GraphKeys\<close>, \<open>GraphEdges\<close> (\<^verbatim>\<open>src/encoding/layout/prefix.rs\<close>, \<^verbatim>\<open>encoding.rs\<close>, \<^verbatim>\<open>graph/type_/vertex.rs\<close>,
    \<^verbatim>\<open>graph/thing\<close>): the keys of types, objects and attributes and of the edges between them, the prefixes a scan
    starts from, and the range of owner types of \<^verbatim>\<open>src/concept/thing/thing_manager.rs\<close>.
  \<^item> \<open>ThingManager\<close> (\<^verbatim>\<open>src/concept/thing/thing_manager.rs\<close>, \<^verbatim>\<open>entity.rs\<close>, \<^verbatim>\<open>relation.rs\<close>, \<^verbatim>\<open>attribute.rs\<close>): the
    operations of a transaction on ownerships, on the players of relations and on the index of pairs of players, and the
    deletion of an object.  \<open>ThingEdges\<close> holds the invariant \<open>tm_inv\<close> (the keys are keys of things, an edge and its
    reversed edge have the same value, new objects have no committed edges) and the lemmas on ownerships and objects,
    \<open>ThingScans\<close> those on scans, \<open>ThingIndex\<close> those on players and on the index.

  \<^bold>\<open>How the model corresponds to the code.\<close>  A struct is a record and an enum a datatype with the source's
  constructors; a method is a function that takes \<open>self\<close> and returns it updated.  A panic, and a call that would wait
  for another thread for ever, is \<^const>\<open>None\<close>; a \<^verbatim>\<open>Result\<close> is a sum with the error on the left; where the source changes
  a shared structure and then fails, the changed state is returned beside the error.  An \<^verbatim>\<open>Arc\<close> to a window or to a flag
  is its position in the structure that owns it.  Sequence numbers are natural numbers with the bound \<open>seq_ok\<close>;
  other integers keep their width as words, and their arithmetic wraps as in a build without overflow checks.  Loops are
  recursive functions with termination proofs.  The duration parser and the loop over an iterator (\<open>drain\<close>) are partial
  functions, and that they return is proved.  No operation has fuel; in the theorems on iterators, \<open>it_collect\<close> takes a
  number of steps that is at least the number of items.

  \<^bold>\<open>What the theorems show.\<close>  Reads: a scan or point read of a snapshot returns exactly the pending writes laid over
  the newest versions visible at its sequence number, through every layer of iterators.  Commits: validation
  decides as a specification over all concurrent commits does, whether they are in memory or in the log, and a
  successful commit changes the committed state by exactly its pending writes from its sequence number on, leaving
  earlier reads unchanged.  The watermark never passes an undecided commit, applying the next commit advances it, and the
  slots a reader needs stay in memory.  Byte formats round-trip: keys, keyspaces, whole snapshots, values and
  texts.  Decimal arithmetic is exact or correctly rounded on the represented numbers, and the encodings sort as the
  values do.  The keys of things and edges decode to what they encode, and every scan prefix selects exactly the
  edges it is built for.  Setting an ownership or a player changes what a reader of the
  snapshot sees on the edge and on its reversed edge and nowhere else, the scans of both directions agree, and such an
  edge and a concurrent deletion of one of its ends do not both commit.  Some theorems state what the code does where it departs from its evident intention: a skipped start key that
  is not skipped, an aborted commit that cannot be loaded, a reader that is never removed, a snapshot that is not counted
  as a reader, a keyspace identifier that makes an import panic, texts on which the parsers fail, a scan without bounds
  that is empty, an order of edges that is not the order of their keys, an edge of the index that stays behind when a
  repeated player is removed, and a decrement by nothing that panics.

  \<^bold>\<open>Not modelled.\<close>  The write-ahead log and recovery (files, background threads, \<^verbatim>\<open>bincode\<close>) and the RocksDB backend: the
  storage is generic in its durability client, and its backend is the in-memory one.  Interleavings inside one
  operation: each operation is one step, as its locks make it.  Profiling counters and logging.  Of the encoding layer, the
  keys of the schema, hashed attribute identifiers, strings, structs and time zones; conversions between decimals and
  floating point.  Calendar arithmetic of \<^verbatim>\<open>chrono\<close> enters as a parameter.  Of the concept layer, everything but the
  operations named above: the schema, whose answers are parameters of these operations, attributes and their lists, the
  cascading deletion of objects, and the validation at commit.  Everything above it: the query stack, databases, the
  server and the embeddings.
\<close>

end
